(* ===== verification/Prelude.thy ===== *)
theory Prelude
  imports "HOL-Library.Word"
begin

text \<open>
  Shared vocabulary of the development: the outcome type of a kernel function, the
  sequencing combinators the component theories are written in, the correctness
  predicates \<open>wp\<close> (the call returns and the postcondition holds) and \<open>wlp\<close> (if the call
  returns, the postcondition holds) with their calculation rules, and the generic lemmas
  on lists and little-endian byte strings that several components use.

  A C function of the kernel becomes a function from the state to an \<open>outcome\<close>:
  \<^item> \<open>Ok a s\<close>: it returned \<open>a\<close> in state \<open>s\<close>;
  \<^item> \<open>Panic m\<close>: it called \<^verbatim>\<open>panic(m)\<close>, which never returns (\<^verbatim>\<open>console.c\<close>);
  \<^item> \<open>Block s\<close>: it reached \<^verbatim>\<open>sched\<close> (\<^verbatim>\<open>proc.c\<close>), through \<^verbatim>\<open>sleep\<close>, \<^verbatim>\<open>yield\<close> or \<^verbatim>\<open>exit\<close>, and gave
    up the processor in state \<open>s\<close>, in which the process table says what it waits for. A
    thread that slept in a waiting loop runs the loop again when it is scheduled, so the
    model of such a function is one round of the loop, taken from the current state.
\<close>

section \<open>Outcomes and sequencing\<close>

text \<open>
  Sleep channels. The C code sleeps on the address of a kernel object; distinct objects
  have distinct addresses, so a channel is the object's kind and its index.
\<close>

datatype chan =
    ChanProc nat        \<comment> \<open>\<^verbatim>\<open>struct proc*\<close>, slept on by \<^verbatim>\<open>wait\<close>\<close>
  | ChanBuf nat         \<comment> \<open>\<^verbatim>\<open>struct buf*\<close>, slept on by \<^verbatim>\<open>iderw\<close>\<close>
  | ChanBufLock nat     \<comment> \<open>\<^verbatim>\<open>&b->lock\<close>\<close>
  | ChanInodeLock nat   \<comment> \<open>\<^verbatim>\<open>&ip->lock\<close>\<close>
  | ChanLog             \<comment> \<open>\<^verbatim>\<open>&log\<close>\<close>
  | ChanTicks           \<comment> \<open>\<^verbatim>\<open>&ticks\<close>\<close>
  | ChanPipeRead nat    \<comment> \<open>\<^verbatim>\<open>&p->nread\<close>\<close>
  | ChanPipeWrite nat   \<comment> \<open>\<^verbatim>\<open>&p->nwrite\<close>\<close>
  | ChanInput           \<comment> \<open>\<^verbatim>\<open>&input.r\<close>\<close>

datatype ('s, 'a) outcome = Ok 'a 's | Panic string | Block 's

type_synonym ('s, 'a) K = "'s \<Rightarrow> ('s, 'a) outcome"

type_synonym byte = "8 word"
type_synonym u32 = "32 word"

definition kreturn :: "'a \<Rightarrow> ('s, 'a) K" where
  "kreturn a = (\<lambda>s. Ok a s)"

definition kbind :: "('s, 'a) K \<Rightarrow> ('a \<Rightarrow> ('s, 'b) K) \<Rightarrow> ('s, 'b) K" where
  "kbind m f = (\<lambda>s. case m s of Ok a s' \<Rightarrow> f a s' | Panic e \<Rightarrow> Panic e | Block s' \<Rightarrow> Block s')"

definition kpanic :: "string \<Rightarrow> ('s, 'a) K" where
  "kpanic msg = (\<lambda>s. Panic msg)"

definition kblock :: "('s, 'a) K" where
  "kblock = (\<lambda>s. Block s)"

definition kget :: "('s \<Rightarrow> 'a) \<Rightarrow> ('s, 'a) K" where
  "kget f = (\<lambda>s. Ok (f s) s)"

definition kmod :: "('s \<Rightarrow> 's) \<Rightarrow> ('s, unit) K" where
  "kmod f = (\<lambda>s. Ok () (f s))"

text \<open>\<^verbatim>\<open>if(!c) panic(msg);\<close>\<close>

definition kassert :: "bool \<Rightarrow> string \<Rightarrow> ('s, unit) K" where
  "kassert c msg = (if c then kreturn () else kpanic msg)"

text \<open>\<^verbatim>\<open>for(x in xs) body(x);\<close> with no early exit.\<close>

primrec kfor :: "'i list \<Rightarrow> ('i \<Rightarrow> ('s, unit) K) \<Rightarrow> ('s, unit) K" where
  "kfor [] body = kreturn ()"
| "kfor (x # xs) body = kbind (body x) (\<lambda>_. kfor xs body)"

text \<open>\<^verbatim>\<open>for(x in xs){ ... return a; ... }\<close>: the body says \<open>Some a\<close> to leave the loop.\<close>

primrec kfirst :: "'i list \<Rightarrow> ('i \<Rightarrow> ('s, 'a option) K) \<Rightarrow> ('s, 'a option) K" where
  "kfirst [] body = kreturn None"
| "kfirst (x # xs) body =
     kbind (body x) (\<lambda>r. case r of Some a \<Rightarrow> kreturn (Some a) | None \<Rightarrow> kfirst xs body)"

text \<open>\<^verbatim>\<open>if((x = m()) < 0) fail;\<close>, and the same for a null pointer: the failure is \<open>None\<close>.\<close>

definition ktry :: "('s, 'a option) K \<Rightarrow> ('s, 'b) K \<Rightarrow> ('a \<Rightarrow> ('s, 'b) K) \<Rightarrow> ('s, 'b) K" where
  "ktry m fail f = kbind m (\<lambda>r. case r of None \<Rightarrow> fail | Some x \<Rightarrow> f x)"

lemma kbind_assoc: "kbind (kbind m f) g = kbind m (\<lambda>a. kbind (f a) g)"
  by (simp add: kbind_def fun_eq_iff split: outcome.split)

lemma kbind_kreturn [simp]: "kbind (kreturn a) f = f a" "kbind m kreturn = m"
  by (auto simp: kbind_def kreturn_def fun_eq_iff split: outcome.split)

lemma kfor_append: "kfor (xs @ ys) body = kbind (kfor xs body) (\<lambda>_. kfor ys body)"
  by (induction xs) (simp_all add: kbind_assoc)

lemmas k_defs = kreturn_def kbind_def kpanic_def kblock_def kget_def kmod_def kassert_def

section \<open>Correctness predicates\<close>

definition wp :: "('s, 'a) K \<Rightarrow> ('a \<Rightarrow> 's \<Rightarrow> bool) \<Rightarrow> 's \<Rightarrow> bool" where
  "wp m Q s = (case m s of Ok a s' \<Rightarrow> Q a s' | Panic e \<Rightarrow> False | Block s' \<Rightarrow> False)"

definition wlp :: "('s, 'a) K \<Rightarrow> ('a \<Rightarrow> 's \<Rightarrow> bool) \<Rightarrow> 's \<Rightarrow> bool" where
  "wlp m Q s = (case m s of Ok a s' \<Rightarrow> Q a s' | Panic e \<Rightarrow> True | Block s' \<Rightarrow> True)"

named_theorems wp_simps "calculation rules for wp and wlp"

lemma wp_kreturn [wp_simps]: "wp (kreturn a) Q = Q a"
  by (simp add: wp_def k_defs fun_eq_iff)

lemma wp_kpanic [wp_simps]: "wp (kpanic e) Q = (\<lambda>s. False)"
  by (simp add: wp_def k_defs fun_eq_iff)

lemma wp_kblock [wp_simps]: "wp kblock Q = (\<lambda>s. False)"
  by (simp add: wp_def k_defs fun_eq_iff)

lemma wp_kget [wp_simps]: "wp (kget f) Q = (\<lambda>s. Q (f s) s)"
  by (simp add: wp_def k_defs fun_eq_iff)

lemma wp_kmod [wp_simps]: "wp (kmod g) Q = (\<lambda>s. Q () (g s))"
  by (simp add: wp_def k_defs fun_eq_iff)

lemma wp_kassert [wp_simps]: "wp (kassert c e) Q = (\<lambda>s. c \<and> Q () s)"
  by (simp add: wp_def k_defs fun_eq_iff)

lemma wp_kbind [wp_simps]: "wp (kbind m f) Q = wp m (\<lambda>a. wp (f a) Q)"
  by (simp add: wp_def kbind_def fun_eq_iff split: outcome.split)

lemma wp_if [wp_simps]: "wp (if c then m else m') Q = (if c then wp m Q else wp m' Q)"
  by simp

lemma wp_let [wp_simps]: "wp (let x = t in f x) Q = (let x = t in wp (f x) Q)"
  by (simp add: Let_def)

lemma wp_case_option [wp_simps]:
  "wp (case x of None \<Rightarrow> m | Some y \<Rightarrow> f y) Q = (case x of None \<Rightarrow> wp m Q | Some y \<Rightarrow> wp (f y) Q)"
  by (simp split: option.split)

lemma wp_case_prod [wp_simps]:
  "wp (case p of (x, y) \<Rightarrow> g x y) Q = (case p of (x, y) \<Rightarrow> wp (g x y) Q)"
  by (simp split: prod.split)

lemma wlp_kreturn [wp_simps]: "wlp (kreturn a) Q = Q a"
  by (simp add: wlp_def k_defs fun_eq_iff)

lemma wlp_kpanic [wp_simps]: "wlp (kpanic e) Q = (\<lambda>s. True)"
  by (simp add: wlp_def k_defs fun_eq_iff)

lemma wlp_kblock [wp_simps]: "wlp kblock Q = (\<lambda>s. True)"
  by (simp add: wlp_def k_defs fun_eq_iff)

lemma wlp_kget [wp_simps]: "wlp (kget f) Q = (\<lambda>s. Q (f s) s)"
  by (simp add: wlp_def k_defs fun_eq_iff)

lemma wlp_kmod [wp_simps]: "wlp (kmod g) Q = (\<lambda>s. Q () (g s))"
  by (simp add: wlp_def k_defs fun_eq_iff)

lemma wlp_kassert [wp_simps]: "wlp (kassert c e) Q = (\<lambda>s. c \<longrightarrow> Q () s)"
  by (simp add: wlp_def k_defs fun_eq_iff)

lemma wlp_kbind [wp_simps]: "wlp (kbind m f) Q = wlp m (\<lambda>a. wlp (f a) Q)"
  by (simp add: wlp_def kbind_def fun_eq_iff split: outcome.split)

lemma wlp_if [wp_simps]: "wlp (if c then m else m') Q = (if c then wlp m Q else wlp m' Q)"
  by simp

lemma wlp_let [wp_simps]: "wlp (let x = t in f x) Q = (let x = t in wlp (f x) Q)"
  by (simp add: Let_def)

lemma wlp_case_option [wp_simps]:
  "wlp (case x of None \<Rightarrow> m | Some y \<Rightarrow> f y) Q = (case x of None \<Rightarrow> wlp m Q | Some y \<Rightarrow> wlp (f y) Q)"
  by (simp split: option.split)

lemma wlp_case_prod [wp_simps]:
  "wlp (case p of (x, y) \<Rightarrow> g x y) Q = (case p of (x, y) \<Rightarrow> wlp (g x y) Q)"
  by (simp split: prod.split)

lemma wp_ktry [wp_simps]:
  "wp (ktry m fail f) Q = wp m (\<lambda>r. case r of None \<Rightarrow> wp fail Q | Some x \<Rightarrow> wp (f x) Q)"
  by (simp add: ktry_def wp_kbind wp_case_option)

lemma wlp_ktry [wp_simps]:
  "wlp (ktry m fail f) Q = wlp m (\<lambda>r. case r of None \<Rightarrow> wlp fail Q | Some x \<Rightarrow> wlp (f x) Q)"
  by (simp add: ktry_def wlp_kbind wlp_case_option)

lemma wp_mono: "wp m Q s \<Longrightarrow> (\<And>a s'. Q a s' \<Longrightarrow> R a s') \<Longrightarrow> wp m R s"
  by (auto simp: wp_def split: outcome.splits)

lemma wlp_mono: "wlp m Q s \<Longrightarrow> (\<And>a s'. Q a s' \<Longrightarrow> R a s') \<Longrightarrow> wlp m R s"
  by (auto simp: wlp_def split: outcome.splits)

lemma wp_seq: "wp m R s \<Longrightarrow> (\<And>a t. R a t \<Longrightarrow> wp (f a) Q t) \<Longrightarrow> wp (kbind m f) Q s"
  unfolding wp_kbind by (rule wp_mono)

lemma wlp_seq: "wlp m R s \<Longrightarrow> (\<And>a t. R a t \<Longrightarrow> wlp (f a) Q t) \<Longrightarrow> wlp (kbind m f) Q s"
  unfolding wlp_kbind by (rule wlp_mono)

lemma wp_wlp_Ok: "wp m (\<lambda>_ _. True) s \<Longrightarrow> wlp m Q s \<Longrightarrow> wp m Q s"
  by (auto simp: wp_def wlp_def split: outcome.splits)

lemma wlp_conj: "wlp m Q s \<Longrightarrow> wlp m R s \<Longrightarrow> wlp m (\<lambda>a s'. Q a s' \<and> R a s') s"
  by (auto simp: wlp_def split: outcome.splits)

lemma wp_imp_wlp: "wp m Q s \<Longrightarrow> wlp m Q s"
  by (auto simp: wp_def wlp_def split: outcome.splits)

lemma wlpD: "wlp m Q s \<Longrightarrow> m s = Ok a s' \<Longrightarrow> Q a s'"
  by (simp add: wlp_def)

lemma wlpI: "(\<And>a s'. m s = Ok a s' \<Longrightarrow> Q a s') \<Longrightarrow> wlp m Q s"
  by (auto simp: wlp_def split: outcome.split)

lemma wpE:
  assumes "wp m Q s"
  obtains a s' where "m s = Ok a s'" and "Q a s'"
  using assms by (auto simp: wp_def split: outcome.splits)

lemma wp_iff_Ok: "wp m Q s \<longleftrightarrow> (\<exists>a s'. m s = Ok a s' \<and> Q a s')"
  by (auto simp: wp_def split: outcome.splits)

lemma kbind_Ok_iff:
  "kbind m f s = Ok b t \<longleftrightarrow> (\<exists>a s'. m s = Ok a s' \<and> f a s' = Ok b t)"
  by (auto simp: kbind_def split: outcome.splits)

text \<open>
  The outcome of a call that may go to sleep: \<open>Q\<close> holds when it returns, \<open>B\<close> in the state in which it gave up the
  processor, and it does not panic.
\<close>

definition wpb :: "('s, 'a) K \<Rightarrow> ('a \<Rightarrow> 's \<Rightarrow> bool) \<Rightarrow> ('s \<Rightarrow> bool) \<Rightarrow> 's \<Rightarrow> bool" where
  "wpb m Q B s = (case m s of Ok a s' \<Rightarrow> Q a s' | Panic e \<Rightarrow> False | Block s' \<Rightarrow> B s')"

lemma wpb_kreturn [wp_simps]: "wpb (kreturn a) Q B = Q a"
  by (simp add: wpb_def k_defs fun_eq_iff)

lemma wpb_kpanic [wp_simps]: "wpb (kpanic e) Q B = (\<lambda>s. False)"
  by (simp add: wpb_def k_defs fun_eq_iff)

lemma wpb_kblock [wp_simps]: "wpb kblock Q B = B"
  by (simp add: wpb_def k_defs fun_eq_iff)

lemma wpb_kget [wp_simps]: "wpb (kget f) Q B = (\<lambda>s. Q (f s) s)"
  by (simp add: wpb_def k_defs fun_eq_iff)

lemma wpb_kmod [wp_simps]: "wpb (kmod g) Q B = (\<lambda>s. Q () (g s))"
  by (simp add: wpb_def k_defs fun_eq_iff)

lemma wpb_kbind [wp_simps]: "wpb (kbind m f) Q B = wpb m (\<lambda>a. wpb (f a) Q B) B"
  by (simp add: wpb_def kbind_def fun_eq_iff split: outcome.split)

lemma wpb_if [wp_simps]: "wpb (if c then m else m') Q B = (if c then wpb m Q B else wpb m' Q B)"
  by simp

lemma wpb_case_option [wp_simps]:
  "wpb (case x of None \<Rightarrow> m | Some y \<Rightarrow> f y) Q B = (case x of None \<Rightarrow> wpb m Q B | Some y \<Rightarrow> wpb (f y) Q B)"
  by (simp split: option.split)

lemma wpb_case_prod [wp_simps]:
  "wpb (case p of (x, y) \<Rightarrow> g x y) Q B = (case p of (x, y) \<Rightarrow> wpb (g x y) Q B)"
  by (simp split: prod.split)

lemma wpb_mono: "wpb m Q B s \<Longrightarrow> (\<And>a s'. Q a s' \<Longrightarrow> R a s') \<Longrightarrow> (\<And>s'. B s' \<Longrightarrow> C s') \<Longrightarrow> wpb m R C s"
  by (auto simp: wpb_def split: outcome.splits)

lemma wpb_seq: "wpb m R B s \<Longrightarrow> (\<And>a t. R a t \<Longrightarrow> wpb (f a) Q B t) \<Longrightarrow> wpb (kbind m f) Q B s"
  unfolding wpb_kbind by (erule wpb_mono)

lemma wpb_False: "wpb m Q (\<lambda>_. False) = wp m Q"
  by (simp add: wpb_def wp_def fun_eq_iff)

lemma wp_wpb: "wp m Q s \<Longrightarrow> wpb m Q B s"
  by (auto simp: wpb_def wp_def split: outcome.splits)

lemma wpbE:
  assumes "wpb m Q B s"
  obtains a s' where "m s = Ok a s'" and "Q a s'" | s' where "m s = Block s'" and "B s'"
  using assms by (auto simp: wpb_def split: outcome.splits)

text \<open>Loop rules: an invariant that every iteration keeps.\<close>

lemma wlp_kfor_inv:
  assumes "I s" and "\<And>x s. x \<in> set xs \<Longrightarrow> I s \<Longrightarrow> wlp (body x) (\<lambda>_. I) s"
  shows "wlp (kfor xs body) (\<lambda>_. I) s"
  using assms
proof (induction xs arbitrary: s)
  case Nil
  then show ?case by (simp add: wp_simps)
next
  case (Cons x xs)
  have "wlp (body x) (\<lambda>_. I) s" using Cons.prems by simp
  then have "wlp (body x) (\<lambda>_ s'. wlp (kfor xs body) (\<lambda>_. I) s') s"
    by (rule wlp_mono) (rule Cons.IH, use Cons.prems in auto)
  then show ?case by (simp add: wp_simps)
qed

lemma wlp_kfirst_inv:
  assumes "I s"
    and "\<And>x s. x \<in> set xs \<Longrightarrow> I s \<Longrightarrow>
           wlp (body x) (\<lambda>r s'. case r of None \<Rightarrow> I s' | Some a \<Rightarrow> Q (Some a) s') s"
    and "\<And>s. I s \<Longrightarrow> Q None s"
  shows "wlp (kfirst xs body) Q s"
  using assms
proof (induction xs arbitrary: s)
  case Nil
  then show ?case by (simp add: wlp_kreturn)
next
  case (Cons x xs)
  have rest: "wlp (kfirst xs body) Q t" if "I t" for t
    by (rule Cons.IH) (use that Cons.prems in auto)
  have "wlp (body x) (\<lambda>r s'. case r of None \<Rightarrow> I s' | Some a \<Rightarrow> Q (Some a) s') s"
    using Cons.prems by simp
  then have "wlp (body x) (\<lambda>r s'. case r of None \<Rightarrow> wlp (kfirst xs body) Q s' | Some a \<Rightarrow> Q (Some a) s') s"
    by (rule wlp_mono) (auto split: option.splits intro: rest)
  moreover have "(\<lambda>r s'. case r of None \<Rightarrow> wlp (kfirst xs body) Q s' | Some a \<Rightarrow> Q (Some a) s')
      = (\<lambda>r. case r of None \<Rightarrow> wlp (kfirst xs body) Q | Some a \<Rightarrow> Q (Some a))"
    by (simp add: fun_eq_iff split: option.split)
  ultimately show ?case by (simp add: wp_simps cong: option.case_cong)
qed

text \<open>Total versions; the invariant of a search loop may mention the elements it has gone through.\<close>

lemma wp_kfor_inv:
  assumes "I 0 s" and "\<And>k s. k < length xs \<Longrightarrow> I k s \<Longrightarrow> wp (body (xs ! k)) (\<lambda>_. I (Suc k)) s"
  shows "wp (kfor xs body) (\<lambda>_. I (length xs)) s"
  using assms
proof (induction xs arbitrary: s I)
  case Nil
  then show ?case by (simp add: wp_simps)
next
  case (Cons x xs)
  have "wp (body x) (\<lambda>_. I (Suc 0)) s" using Cons.prems(1) Cons.prems(2) [of 0] by simp
  then have "wp (body x) (\<lambda>_ s'. wp (kfor xs body) (\<lambda>_. I (length (x # xs))) s') s"
  proof (rule wp_mono)
    fix t assume "I (Suc 0) t"
    then have "wp (kfor xs body) (\<lambda>_. (\<lambda>k. I (Suc k)) (length xs)) t"
      by (intro Cons.IH [of "\<lambda>k. I (Suc k)"]) (use Cons.prems(2) [of "Suc k" for k] in auto)
    then show "wp (kfor xs body) (\<lambda>_. I (length (x # xs))) t" by simp
  qed
  then show ?case by (simp add: wp_simps)
qed

definition found_or :: "('s \<Rightarrow> bool) \<Rightarrow> ('a \<Rightarrow> 's \<Rightarrow> bool) \<Rightarrow> 'a option \<Rightarrow> 's \<Rightarrow> bool" where
  "found_or I Q r s = (case r of None \<Rightarrow> I s | Some a \<Rightarrow> Q a s)"

lemma found_or_simps [simp]: "found_or I Q None = I" "found_or I Q (Some a) = Q a"
  by (simp_all add: found_or_def fun_eq_iff)

lemma wp_kfirst_inv:
  assumes "I 0 s"
    and "\<And>k s. k < length xs \<Longrightarrow> I k s \<Longrightarrow> wp (body (xs ! k)) (found_or (I (Suc k)) Q) s"
  shows "wp (kfirst xs body) (found_or (I (length xs)) Q) s"
  using assms
proof (induction xs arbitrary: s I)
  case Nil
  then show ?case by (simp add: wp_kreturn)
next
  case (Cons x xs)
  have rest: "wp (kfirst xs body) (found_or (I (Suc (length xs))) Q) t" if "I (Suc 0) t" for t
  proof -
    have "wp (kfirst xs body) (found_or ((\<lambda>k. I (Suc k)) (length xs)) Q) t"
      by (intro Cons.IH [of "\<lambda>k. I (Suc k)"]) (use that Cons.prems(2) [of "Suc k" for k] in auto)
    then show ?thesis by simp
  qed
  have "wp (body x) (found_or (I (Suc 0)) Q) s" using Cons.prems(1) Cons.prems(2) [of 0] by simp
  then show ?case
    unfolding kfirst.simps
    by (rule wp_seq) (auto simp: wp_kreturn rest split: option.split)
qed

section \<open>Lists\<close>

text \<open>Block and device numbers are literals in the statements below.\<close>

declare One_nat_def [simp del]

lemma take_map_nth: "n \<le> length xs \<Longrightarrow> take n xs = map (\<lambda>i. xs ! i) [0..<n]"
  by (rule nth_equalityI) auto

text \<open>
  \<^verbatim>\<open>memmove(dst + off, src, n)\<close> on a buffer that holds the destination: the bytes from
  \<open>off\<close> on are replaced.
\<close>

definition splice :: "nat \<Rightarrow> 'a list \<Rightarrow> 'a list \<Rightarrow> 'a list" where
  "splice off new xs = take off xs @ new @ drop (off + length new) xs"

lemma length_splice [simp]: "off + length new \<le> length xs \<Longrightarrow> length (splice off new xs) = length xs"
  by (simp add: splice_def)

lemma nth_splice:
  assumes "off + length new \<le> length xs" and "i < length xs"
  shows "splice off new xs ! i = (if off \<le> i \<and> i < off + length new then new ! (i - off) else xs ! i)"
  using assms by (auto simp: splice_def nth_append min_def)

lemma slice_splice_same:
  "off + length new \<le> length xs \<Longrightarrow> take (length new) (drop off (splice off new xs)) = new"
  by (simp add: splice_def)

lemma slice_splice_other:
  assumes "off + length new \<le> length xs" and "o' + k \<le> off \<or> off + length new \<le> o'"
  shows "take k (drop o' (splice off new xs)) = take k (drop o' xs)"
proof (cases "o' + k \<le> off")
  case True
  then show ?thesis using assms(1)
    by (auto simp: splice_def drop_append take_drop min_def)
next
  case False
  with assms have "off + length new \<le> o'" by simp
  then show ?thesis using assms(1)
    by (simp add: splice_def drop_append min_def)
qed

section \<open>Little-endian integers\<close>

text \<open>
  The x86 keeps a \<^verbatim>\<open>uint\<close> or \<^verbatim>\<open>ushort\<close> low byte first. \<open>le_enc n x\<close> is the \<open>n\<close>-byte image of
  \<open>x\<close> (of \<open>x\<close> modulo \<open>256 ^ n\<close>), \<open>le_dec\<close> reads an image back.
\<close>

fun le_enc :: "nat \<Rightarrow> nat \<Rightarrow> byte list" where
  "le_enc 0 x = []"
| "le_enc (Suc n) x = of_nat (x mod 256) # le_enc n (x div 256)"

fun le_dec :: "byte list \<Rightarrow> nat" where
  "le_dec [] = 0"
| "le_dec (b # bs) = unat b + 256 * le_dec bs"

lemma length_le_enc [simp]: "length (le_enc n x) = n"
  by (induction n arbitrary: x) auto

lemma unat_of_nat_byte [simp]: "unat (of_nat (x mod 256) :: byte) = x mod 256"
  by (simp add: unat_of_nat)

lemma le_dec_enc: "le_dec (le_enc n x) = x mod 256 ^ n"
proof (induction n arbitrary: x)
  case 0
  then show ?case by simp
next
  case (Suc n)
  have "x mod 256 + 256 * (x div 256 mod 256 ^ n) = x mod (256 * 256 ^ n)"
    by (simp add: mod_mult2_eq)
  with Suc show ?case by simp
qed

lemma le_dec_bound: "le_dec bs < 256 ^ length bs"
proof (induction bs)
  case Nil
  then show ?case by simp
next
  case (Cons b bs)
  have "unat b < 256" using unsigned_less [of b] by simp
  with Cons show ?case by simp
qed

lemma le_enc_dec: "length bs = n \<Longrightarrow> le_enc n (le_dec bs) = bs"
proof (induction bs arbitrary: n)
  case Nil
  then show ?case by simp
next
  case (Cons b bs)
  have b: "unat b < 256" using unsigned_less [of b] by simp
  then have "(unat b + 256 * le_dec bs) mod 256 = unat b"
    and "(unat b + 256 * le_dec bs) div 256 = le_dec bs" by simp_all
  with Cons show ?case by auto
qed

lemma le_dec_replicate_0 [simp]: "le_dec (replicate n 0) = 0"
  by (induction n) auto

text \<open>One step of the evaluation of word literals that is lost with \<open>One_nat_def\<close>.\<close>

lemma take_bit_num_1 [simp]:
  "take_bit_num 1 num.One = Some num.One" "take_bit_num 1 (num.Bit0 m) = None" "take_bit_num 1 (num.Bit1 m) = Some num.One"
  by (simp_all add: One_nat_def)

end
