(* ===== verification/Spinlock.thy ===== *)
theory Spinlock
  imports Prelude
begin

text \<open>
  Spin locks and interrupt nesting (\<^verbatim>\<open>spinlock.c\<close>), in two views.

  The \<^emph>\<open>thread view\<close> is what every other theory uses: the state carries the locks the
  running processor holds, its \<^verbatim>\<open>ncli\<close>, \<^verbatim>\<open>intena\<close> and interrupt flag, and \<^verbatim>\<open>acquire\<close> and
  \<^verbatim>\<open>release\<close> are called exactly where the C code calls them. The thread gets past the spin
  loop of \<^verbatim>\<open>acquire\<close> only with the lock free, so in this view \<^verbatim>\<open>acquire\<close> takes the lock, and
  panics when the processor holds it already.

  The \<^emph>\<open>multiprocessor view\<close> is a step relation for any number of processors on one lock,
  one step per memory access of \<^verbatim>\<open>acquire\<close> and \<^verbatim>\<open>release\<close> (the atomic \<^verbatim>\<open>xchg\<close>, the store to
  \<^verbatim>\<open>lk->cpu\<close>, the store of 0 to \<^verbatim>\<open>lk->locked\<close>). It gives mutual exclusion and the accuracy of
  \<^verbatim>\<open>holding\<close>, which is what justifies the thread view.
\<close>

section \<open>Thread view\<close>

text \<open>The spin locks of the kernel, one constructor per lock variable.\<close>

datatype lock =
    LKmem | LPtable | LBcache | LIde | LLog | LIcache | LFtable | LTicks | LCons
  | LPipe nat       \<comment> \<open>\<^verbatim>\<open>p->lock\<close> of a pipe\<close>
  | LBufSl nat      \<comment> \<open>\<^verbatim>\<open>b->lock.lk\<close>, the spin lock inside a buffer's sleep lock\<close>
  | LInodeSl nat    \<comment> \<open>\<^verbatim>\<open>ip->lock.lk\<close>\<close>

record cpu_state =
  ncli :: nat          \<comment> \<open>depth of \<^verbatim>\<open>pushcli\<close> nesting\<close>
  intena :: bool       \<comment> \<open>were interrupts enabled before the outermost \<^verbatim>\<open>pushcli\<close>?\<close>
  int_on :: bool       \<comment> \<open>\<^verbatim>\<open>readeflags() & FL_IF\<close>\<close>
  held :: "lock set"   \<comment> \<open>the locks with \<^verbatim>\<open>lk->locked && lk->cpu == mycpu()\<close>\<close>

definition pushcli :: "('r cpu_state_scheme, unit) K" where
  "pushcli =
     kbind (kget int_on) (\<lambda>eflags.
     kbind (kmod (\<lambda>s. s\<lparr>int_on := False\<rparr>)) (\<lambda>_.
     kbind (kmod (\<lambda>s. if ncli s = 0 then s\<lparr>intena := eflags\<rparr> else s)) (\<lambda>_.
     kmod (\<lambda>s. s\<lparr>ncli := ncli s + 1\<rparr>))))"

definition popcli :: "('r cpu_state_scheme, unit) K" where
  "popcli =
     kbind (kget int_on) (\<lambda>eflags.
     if eflags then kpanic ''popcli - interruptible''
     else
       kbind (kget ncli) (\<lambda>n.
       if n = 0 then kpanic ''popcli''
       else
         kbind (kmod (\<lambda>s. s\<lparr>ncli := n - 1\<rparr>)) (\<lambda>_.
         kmod (\<lambda>s. if ncli s = 0 \<and> intena s then s\<lparr>int_on := True\<rparr> else s))))"

definition holding :: "lock \<Rightarrow> ('r cpu_state_scheme, bool) K" where
  "holding lk =
     kbind pushcli (\<lambda>_.
     kbind (kget (\<lambda>s. lk \<in> held s)) (\<lambda>r.
     kbind popcli (\<lambda>_.
     kreturn r)))"

definition acquire :: "lock \<Rightarrow> ('r cpu_state_scheme, unit) K" where
  "acquire lk =
     kbind pushcli (\<lambda>_.
     kbind (holding lk) (\<lambda>h.
     if h then kpanic ''acquire''
     else kmod (\<lambda>s. s\<lparr>held := insert lk (held s)\<rparr>)))"

definition release :: "lock \<Rightarrow> ('r cpu_state_scheme, unit) K" where
  "release lk =
     kbind (holding lk) (\<lambda>h.
     if \<not> h then kpanic ''release''
     else
       kbind (kmod (\<lambda>s. s\<lparr>held := held s - {lk}\<rparr>)) (\<lambda>_.
       popcli))"

subsection \<open>What a call does\<close>

definition acq :: "lock \<Rightarrow> 'r cpu_state_scheme \<Rightarrow> 'r cpu_state_scheme" where
  "acq lk s = s\<lparr>ncli := ncli s + 1, intena := (if ncli s = 0 then int_on s else intena s),
                int_on := False, held := insert lk (held s)\<rparr>"

definition rel :: "lock \<Rightarrow> 'r cpu_state_scheme \<Rightarrow> 'r cpu_state_scheme" where
  "rel lk s = s\<lparr>ncli := ncli s - 1, int_on := (ncli s = 1 \<and> intena s), held := held s - {lk}\<rparr>"

lemma acquire_eq: "acquire lk s = (if lk \<in> held s then Panic ''acquire'' else Ok () (acq lk s))"
  by (simp add: acquire_def holding_def pushcli_def popcli_def k_defs acq_def)

lemma release_eq:
  assumes "0 < ncli s"
  shows "release lk s = (if lk \<in> held s then Ok () (rel lk s) else Panic ''release'')"
  using assms by (auto simp: release_def holding_def pushcli_def popcli_def k_defs rel_def)

lemma release_Ok_iff:
  "release lk s = Ok u t \<longleftrightarrow> lk \<in> held s \<and> 0 < ncli s \<and> t = rel lk s"
proof (cases "0 < ncli s")
  case True
  then show ?thesis by (auto simp: release_eq)
next
  case False
  then show ?thesis
    by (auto simp: release_def holding_def pushcli_def popcli_def k_defs split: if_splits)
qed

lemma wp_acquire [wp_simps]: "wp (acquire lk) Q = (\<lambda>s. lk \<notin> held s \<and> Q () (acq lk s))"
  by (simp add: fun_eq_iff wp_def acquire_eq)

lemma wlp_acquire [wp_simps]: "wlp (acquire lk) Q = (\<lambda>s. lk \<notin> held s \<longrightarrow> Q () (acq lk s))"
  by (simp add: fun_eq_iff wlp_def acquire_eq)

lemma wpb_acquire [wp_simps]: "wpb (acquire lk) Q B = (\<lambda>s. lk \<notin> held s \<and> Q () (acq lk s))"
  by (simp add: fun_eq_iff wpb_def acquire_eq)

lemma wpb_release: "0 < ncli s \<Longrightarrow> wpb (release lk) Q B s = (lk \<in> held s \<and> Q () (rel lk s))"
  by (simp add: wpb_def release_eq)

lemma wp_release [wp_simps]:
  "wp (release lk) Q = (\<lambda>s. lk \<in> held s \<and> 0 < ncli s \<and> Q () (rel lk s))"
  by (auto simp: fun_eq_iff wp_iff_Ok release_Ok_iff)

lemma wlp_release [wp_simps]:
  "wlp (release lk) Q = (\<lambda>s. lk \<in> held s \<and> 0 < ncli s \<longrightarrow> Q () (rel lk s))"
proof (rule ext)
  fix s
  show "wlp (release lk) Q s = (lk \<in> held s \<and> 0 < ncli s \<longrightarrow> Q () (rel lk s))"
  proof (cases "lk \<in> held s \<and> 0 < ncli s")
    case True
    then show ?thesis by (simp add: wlp_def release_eq)
  next
    case False
    then have "release lk s \<noteq> Ok u t" for u t by (auto simp: release_Ok_iff)
    then show ?thesis using False by (auto simp: wlp_def split: outcome.split)
  qed
qed

lemma acq_sel [simp]:
  "ncli (acq lk s) = ncli s + 1" "int_on (acq lk s) = False"
  "held (acq lk s) = insert lk (held s)"
  "intena (acq lk s) = (if ncli s = 0 then int_on s else intena s)"
  "cpu_state.more (acq lk s) = cpu_state.more s"
  by (simp_all add: acq_def)

lemma rel_sel [simp]:
  "ncli (rel lk s) = ncli s - 1" "int_on (rel lk s) = (ncli s = 1 \<and> intena s)"
  "held (rel lk s) = held s - {lk}" "intena (rel lk s) = intena s"
  "cpu_state.more (rel lk s) = cpu_state.more s"
  by (simp_all add: rel_def)

text \<open>
  The invariant a thread keeps: interrupts are off exactly while the nesting is positive, and
  every lock held accounts for one level of nesting.
\<close>

definition cpu_ok :: "'r cpu_state_scheme \<Rightarrow> bool" where
  "cpu_ok s \<longleftrightarrow> finite (held s) \<and> card (held s) \<le> ncli s \<and> (0 < ncli s \<longrightarrow> \<not> int_on s)"

lemma cpu_ok_acq: "cpu_ok s \<Longrightarrow> cpu_ok (acq lk s)"
  by (auto simp: cpu_ok_def card_insert_if)

lemma cpu_ok_rel: "cpu_ok s \<Longrightarrow> lk \<in> held s \<Longrightarrow> cpu_ok (rel lk s)"
  by (auto simp: cpu_ok_def card_Diff_singleton_if)

lemma cpu_ok_release:
  assumes "cpu_ok s" and "lk \<in> held s"
  shows "release lk s = Ok () (rel lk s)"
proof -
  from assms have "0 < card (held s)" by (auto simp: cpu_ok_def card_gt_0_iff)
  with assms show ?thesis by (auto simp: cpu_ok_def release_eq)
qed

section \<open>Multiprocessor view\<close>

text \<open>
  Where a processor is in \<^verbatim>\<open>acquire\<close> or \<^verbatim>\<open>release\<close> of the lock, and the lock's memory. The
  processor enters \<^verbatim>\<open>acquire\<close> when it does not hold the lock (the \<^verbatim>\<open>holding\<close> test panics
  otherwise) and \<^verbatim>\<open>release\<close> when it does.
\<close>

datatype spin_pc =
    Outside
  | Spinning        \<comment> \<open>in \<^verbatim>\<open>while(xchg(&lk->locked, 1) != 0)\<close>\<close>
  | Won             \<comment> \<open>\<^verbatim>\<open>xchg\<close> returned 0, \<^verbatim>\<open>lk->cpu\<close> not yet stored\<close>
  | Critical
  | Leaving         \<comment> \<open>\<^verbatim>\<open>lk->cpu = 0\<close> stored, \<^verbatim>\<open>locked\<close> still 1\<close>

record mp_lock =
  locked :: nat
  lk_cpu :: "nat option"
  pcs :: "nat \<Rightarrow> spin_pc"

definition initlock :: mp_lock where
  "initlock = \<lparr>locked = 0, lk_cpu = None, pcs = (\<lambda>_. Outside)\<rparr>"

definition mp_holding :: "mp_lock \<Rightarrow> nat \<Rightarrow> bool" where
  "mp_holding l c \<longleftrightarrow> locked l \<noteq> 0 \<and> lk_cpu l = Some c"

inductive mp_step :: "mp_lock \<Rightarrow> mp_lock \<Rightarrow> bool" where
  enter: "pcs l c = Outside \<Longrightarrow> \<not> mp_holding l c \<Longrightarrow>
     mp_step l (l\<lparr>pcs := (pcs l)(c := Spinning)\<rparr>)"
| xchg: "pcs l c = Spinning \<Longrightarrow>
     mp_step l (l\<lparr>locked := 1, pcs := (pcs l)(c := if locked l = 0 then Won else Spinning)\<rparr>)"
| record_cpu: "pcs l c = Won \<Longrightarrow>
     mp_step l (l\<lparr>lk_cpu := Some c, pcs := (pcs l)(c := Critical)\<rparr>)"
| clear_cpu: "pcs l c = Critical \<Longrightarrow> mp_holding l c \<Longrightarrow>
     mp_step l (l\<lparr>lk_cpu := None, pcs := (pcs l)(c := Leaving)\<rparr>)"
| unlock: "pcs l c = Leaving \<Longrightarrow>
     mp_step l (l\<lparr>locked := 0, pcs := (pcs l)(c := Outside)\<rparr>)"

inductive mp_reachable :: "mp_lock \<Rightarrow> bool" where
  start: "mp_reachable initlock"
| step: "mp_reachable l \<Longrightarrow> mp_step l l' \<Longrightarrow> mp_reachable l'"

text \<open>
  A processor past its \<^verbatim>\<open>xchg\<close> owns the lock word; there is at most one, the word is 1 exactly
  then, and \<^verbatim>\<open>lk->cpu\<close> names a processor only while it is in its critical section.
\<close>

definition owns :: "spin_pc \<Rightarrow> bool" where
  "owns p \<longleftrightarrow> p = Won \<or> p = Critical \<or> p = Leaving"

definition mp_inv :: "mp_lock \<Rightarrow> bool" where
  "mp_inv l \<longleftrightarrow>
     (\<forall>c d. owns (pcs l c) \<longrightarrow> owns (pcs l d) \<longrightarrow> c = d) \<and>
     (locked l \<noteq> 0 \<longleftrightarrow> (\<exists>c. owns (pcs l c))) \<and>
     (\<forall>c. lk_cpu l = Some c \<longleftrightarrow> pcs l c = Critical)"

lemma mp_inv_init: "mp_inv initlock"
  by (simp add: mp_inv_def initlock_def owns_def)

lemma mp_inv_freeI:
  "(\<And>c. \<not> owns (pcs l c)) \<Longrightarrow> locked l = 0 \<Longrightarrow> lk_cpu l = None \<Longrightarrow> mp_inv l"
  by (auto simp: mp_inv_def owns_def)

lemma mp_inv_ownerI:
  assumes "owns (pcs l c)" and "\<And>d. d \<noteq> c \<Longrightarrow> \<not> owns (pcs l d)" and "locked l \<noteq> 0"
    and "lk_cpu l = (if pcs l c = Critical then Some c else None)"
  shows "mp_inv l"
  using assms unfolding mp_inv_def by (metis option.distinct(1) option.inject owns_def)

lemma mp_inv_owner:
  assumes "mp_inv l" and "owns (pcs l c)"
  shows "\<And>d. d \<noteq> c \<Longrightarrow> \<not> owns (pcs l d)" and "locked l \<noteq> 0"
    and "lk_cpu l = (if pcs l c = Critical then Some c else None)"
  using assms unfolding mp_inv_def by (metis not_None_eq owns_def)+

lemma mp_inv_free:
  assumes "mp_inv l" and "locked l = 0"
  shows "\<not> owns (pcs l c)" and "lk_cpu l = None"
  using assms unfolding mp_inv_def by (metis not_None_eq owns_def)+

lemma mp_inv_frame:
  assumes "mp_inv l" and "\<not> owns (pcs l c)" and "\<not> owns p" and "n = 0 \<longleftrightarrow> locked l = 0"
  shows "mp_inv (l\<lparr>locked := n, pcs := (pcs l)(c := p)\<rparr>)"
proof -
  define f where "f = (pcs l)(c := p)"
  have o: "owns (f d) = owns (pcs l d)" for d
    using assms by (simp add: f_def)
  have cr: "f d = Critical \<longleftrightarrow> pcs l d = Critical" for d
    using assms by (auto simp: f_def owns_def)
  have "mp_inv (l\<lparr>locked := n, pcs := f\<rparr>)"
    using assms by (simp add: mp_inv_def o cr)
  then show ?thesis by (simp add: f_def)
qed

lemma mp_step_inv: "mp_step l l' \<Longrightarrow> mp_inv l \<Longrightarrow> mp_inv l'"
proof (induction rule: mp_step.induct)
  case (enter l c)
  then show ?case using mp_inv_frame [of l c Spinning "locked l"] by (simp add: owns_def)
next
  case (xchg l c)
  show ?case
  proof (cases "locked l = 0")
    case True
    with mp_inv_free [OF xchg.prems True] show ?thesis
      by (intro mp_inv_ownerI [where c = c]) (auto simp: owns_def)
  next
    case False
    with xchg show ?thesis using mp_inv_frame [of l c Spinning 1] by (simp add: owns_def)
  qed
next
  case (record_cpu l c)
  then have "owns (pcs l c)" by (simp add: owns_def)
  from mp_inv_owner [OF record_cpu.prems this] show ?case
    by (intro mp_inv_ownerI [where c = c]) (auto simp: owns_def)
next
  case (clear_cpu l c)
  then have "owns (pcs l c)" by (simp add: owns_def)
  from mp_inv_owner [OF clear_cpu.prems this] show ?case
    by (intro mp_inv_ownerI [where c = c]) (auto simp: owns_def)
next
  case (unlock l c)
  then have "owns (pcs l c)" by (simp add: owns_def)
  from mp_inv_owner [OF unlock.prems this] unlock.hyps show ?case
    by (intro mp_inv_freeI) (auto simp: owns_def)
qed

lemma mp_reachable_inv: "mp_reachable l \<Longrightarrow> mp_inv l"
  by (induction rule: mp_reachable.induct) (auto intro: mp_inv_init mp_step_inv)

section \<open>Properties\<close>

text \<open>C6. Mutual exclusion of \<^verbatim>\<open>acquire\<close>/\<^verbatim>\<open>release\<close>: in every interleaving of any number of
  processors, at most one is between its successful \<^verbatim>\<open>xchg\<close> and its store of 0 to \<^verbatim>\<open>lk->locked\<close>,
  and \<^verbatim>\<open>holding\<close> answers true to exactly the processor that is in its critical section.\<close>

theorem spinlock_exclusion:
  assumes "mp_reachable l" and "owns (pcs l c)" and "owns (pcs l d)"
  shows "c = d \<and> (\<forall>e. mp_holding l e \<longleftrightarrow> pcs l e = Critical)"
  using mp_reachable_inv [OF assms(1)] assms(2,3) by (auto simp: mp_inv_def mp_holding_def owns_def)

definition mp_example :: mp_lock where
  "mp_example = \<lparr>locked = 1, lk_cpu = None, pcs = (\<lambda>_. Outside)(0 := Won)\<rparr>"

lemma mp_example_reachable: "mp_reachable mp_example"
proof -
  have "mp_step initlock (initlock\<lparr>pcs := (pcs initlock)(0 := Spinning)\<rparr>)"
    by (rule mp_step.enter) (simp_all add: initlock_def mp_holding_def)
  moreover have "mp_step (initlock\<lparr>pcs := (pcs initlock)(0 := Spinning)\<rparr>) mp_example"
    using mp_step.xchg [of "initlock\<lparr>pcs := (pcs initlock)(0 := Spinning)\<rparr>" 0]
    by (simp add: initlock_def mp_example_def)
  ultimately show ?thesis using mp_reachable.start mp_reachable.step by blast
qed

lemma spinlock_exclusion_witness:
  "mp_reachable mp_example \<and> owns (pcs mp_example 0) \<and> \<not> mp_holding mp_example 0"
  using spinlock_exclusion [OF mp_example_reachable, of 0 0] mp_example_reachable
  by (simp add: mp_example_def owns_def)

end
