(* ===== verification/Kalloc.thy ===== *)
theory Kalloc
  imports Spinlock
begin

unbundle bit_operations_syntax

text \<open>
  The physical page allocator (\<^verbatim>\<open>kalloc.c\<close>) and the address arithmetic of \<^verbatim>\<open>mmu.h\<close> and
  \<^verbatim>\<open>memlayout.h\<close>. Memory is a store of 32-bit words at kernel virtual addresses; the free
  list is threaded through the first word of each free page, as \<^verbatim>\<open>struct run\<close> does.
  \<open>free_chain\<close> reads the chain back as a list of pages, and the lemmas show \<^verbatim>\<open>kalloc\<close> and
  \<^verbatim>\<open>kfree\<close> to be pop and push on that list.
\<close>

section \<open>Addresses\<close>

definition PGSIZE :: u32 where "PGSIZE = 4096"
definition EXTMEM :: u32 where "EXTMEM = 0x100000"
definition PHYSTOP :: u32 where "PHYSTOP = 0xE000000"
definition DEVSPACE :: u32 where "DEVSPACE = 0xFE000000"
definition KERNBASE :: u32 where "KERNBASE = 0x80000000"
definition KERNLINK :: u32 where "KERNLINK = KERNBASE + EXTMEM"

definition V2P :: "u32 \<Rightarrow> u32" where "V2P a = a - KERNBASE"
definition P2V :: "u32 \<Rightarrow> u32" where "P2V a = a + KERNBASE"

definition PGROUNDUP :: "u32 \<Rightarrow> u32" where
  "PGROUNDUP sz = (sz + PGSIZE - 1) AND NOT (PGSIZE - 1)"

definition PGROUNDDOWN :: "u32 \<Rightarrow> u32" where
  "PGROUNDDOWN a = a AND NOT (PGSIZE - 1)"

lemmas addr_defs = PGSIZE_def EXTMEM_def PHYSTOP_def DEVSPACE_def KERNBASE_def KERNLINK_def
  V2P_def P2V_def

lemma V2P_P2V [simp]: "V2P (P2V a) = a" and P2V_V2P [simp]: "P2V (V2P a) = a"
  by (simp_all add: V2P_def P2V_def)

text \<open>Clearing the low twelve bits rounds down to a multiple of the page size.\<close>

lemma PGROUNDDOWN_unat: "unat (PGROUNDDOWN a) = unat a div 4096 * 4096"
proof -
  have mask: "(PGSIZE - 1 :: u32) = mask 12" by (simp add: PGSIZE_def mask_eq_exp_minus_1)
  have "a AND NOT (mask 12) = push_bit 12 (drop_bit 12 a)"
    by (rule bit_eqI) (auto simp: bit_simps)
  also have "\<dots> = a - take_bit 12 a"
  proof -
    have "push_bit 12 (drop_bit 12 a) + take_bit 12 a = a" by (rule bits_ident)
    then show ?thesis by (metis add_diff_cancel_right')
  qed
  finally have eq: "PGROUNDDOWN a = a - take_bit 12 a"
    by (simp add: PGROUNDDOWN_def mask)
  have tb: "unat (take_bit 12 a) = unat a mod 4096"
    by (simp add: take_bit_eq_mod unat_mod)
  have le: "take_bit 12 a \<le> a"
    by (simp add: word_le_nat_alt tb)
  have "unat (PGROUNDDOWN a) = unat a - unat a mod 4096"
    using le by (simp add: eq unat_sub tb)
  then show ?thesis by (simp add: minus_mod_eq_div_mult)
qed

lemma PGROUNDDOWN_le: "PGROUNDDOWN a \<le> a"
  by (simp add: word_le_nat_alt PGROUNDDOWN_unat)

lemma PGROUNDUP_unat:
  assumes "unat sz + 4095 < 2 ^ 32"
  shows "unat (PGROUNDUP sz) = (unat sz + 4095) div 4096 * 4096"
proof -
  have e: "PGROUNDUP sz = PGROUNDDOWN (sz + 4095)"
    by (simp add: PGROUNDUP_def PGROUNDDOWN_def PGSIZE_def add.commute)
  have "unat (sz + 4095) = unat sz + 4095"
    using assms by (simp add: unat_word_ariths)
  then show ?thesis by (simp add: e PGROUNDDOWN_unat)
qed

section \<open>The allocator\<close>

record kmem_state = cpu_state +
  mem :: "u32 \<Rightarrow> u32"     \<comment> \<open>memory, one word per 4-aligned kernel virtual address\<close>
  kend :: u32             \<comment> \<open>the linker's \<^verbatim>\<open>end\<close>: first address after the kernel image\<close>
  freelist :: u32         \<comment> \<open>\<^verbatim>\<open>kmem.freelist\<close>, 0 for none\<close>
  use_lock :: bool        \<comment> \<open>\<^verbatim>\<open>kmem.use_lock\<close>\<close>

lemma kmem_acq_rel [simp]:
  "mem (acq lk s) = mem s" "mem (rel lk s) = mem s"
  "kend (acq lk s) = kend s" "kend (rel lk s) = kend s"
  "freelist (acq lk s) = freelist s" "freelist (rel lk s) = freelist s"
  "use_lock (acq lk s) = use_lock s" "use_lock (rel lk s) = use_lock s"
  by (simp_all add: acq_def rel_def)

text \<open>
  \<^verbatim>\<open>memset(v, c, PGSIZE)\<close> of a page: \<^verbatim>\<open>stosl\<close> writes the word \<open>c c c c\<close> at every word of
  the page.
\<close>

definition page_fill :: "u32 \<Rightarrow> u32 \<Rightarrow> (u32 \<Rightarrow> u32) \<Rightarrow> (u32 \<Rightarrow> u32)" where
  "page_fill v w m = (\<lambda>a. if PGROUNDDOWN a = v then w else m a)"

definition page_ok :: "u32 \<Rightarrow> u32 \<Rightarrow> bool" where
  "page_ok e v \<longleftrightarrow> v mod PGSIZE = 0 \<and> e \<le> v \<and> V2P v < PHYSTOP"

text \<open>\<^verbatim>\<open>if(kmem.use_lock) acquire(&kmem.lock);\<close> and its counterpart.\<close>

definition kmem_acquire :: "('r kmem_state_scheme, unit) K" where
  "kmem_acquire = kbind (kget use_lock) (\<lambda>u. if u then acquire LKmem else kreturn ())"

definition kmem_release :: "('r kmem_state_scheme, unit) K" where
  "kmem_release = kbind (kget use_lock) (\<lambda>u. if u then release LKmem else kreturn ())"

definition kfree :: "u32 \<Rightarrow> ('r kmem_state_scheme, unit) K" where
  "kfree v =
     kbind (kget kend) (\<lambda>e.
     if v mod PGSIZE \<noteq> 0 \<or> v < e \<or> PHYSTOP \<le> V2P v then kpanic ''kfree''
     else
       kbind (kmod (\<lambda>s. s\<lparr>mem := page_fill v 0x01010101 (mem s)\<rparr>)) (\<lambda>_.
       kbind kmem_acquire (\<lambda>_.
       kbind (kmod (\<lambda>s. s\<lparr>mem := (mem s)(v := freelist s), freelist := v\<rparr>)) (\<lambda>_.
       kmem_release))))"

definition kalloc :: "('r kmem_state_scheme, u32) K" where
  "kalloc =
     kbind kmem_acquire (\<lambda>_.
     kbind (kget freelist) (\<lambda>r.
     kbind (if r \<noteq> 0 then kmod (\<lambda>s. s\<lparr>freelist := mem s r\<rparr>) else kreturn ()) (\<lambda>_.
     kbind kmem_release (\<lambda>_.
     kreturn r))))"

text \<open>
  \<^verbatim>\<open>for(; p + PGSIZE <= vend; p += PGSIZE) kfree(p);\<close> The kernel's ranges end at or below
  \<^verbatim>\<open>P2V(PHYSTOP)\<close>, so \<^verbatim>\<open>p + PGSIZE\<close> does not wrap and the loop runs once per whole page
  between \<open>p\<close> and \<open>vend\<close>.
\<close>

definition page_range :: "u32 \<Rightarrow> u32 \<Rightarrow> u32 list" where
  "page_range p vend = map (\<lambda>i. p + of_nat i * PGSIZE) [0 ..< (unat vend - unat p) div 4096]"

definition freerange :: "u32 \<Rightarrow> u32 \<Rightarrow> ('r kmem_state_scheme, unit) K" where
  "freerange vstart vend = kfor (page_range (PGROUNDUP vstart) vend) kfree"

definition kinit1 :: "u32 \<Rightarrow> u32 \<Rightarrow> ('r kmem_state_scheme, unit) K" where
  "kinit1 vstart vend =
     kbind (kmod (\<lambda>s. s\<lparr>use_lock := False\<rparr>)) (\<lambda>_. freerange vstart vend)"

definition kinit2 :: "u32 \<Rightarrow> u32 \<Rightarrow> ('r kmem_state_scheme, unit) K" where
  "kinit2 vstart vend =
     kbind (freerange vstart vend) (\<lambda>_. kmod (\<lambda>s. s\<lparr>use_lock := True\<rparr>))"

section \<open>The free list as a list of pages\<close>

primrec free_chain :: "(u32 \<Rightarrow> u32) \<Rightarrow> u32 \<Rightarrow> u32 list \<Rightarrow> bool" where
  "free_chain m p [] \<longleftrightarrow> p = 0"
| "free_chain m p (v # vs) \<longleftrightarrow> p = v \<and> v \<noteq> 0 \<and> free_chain m (m v) vs"

definition kmem_inv :: "'r kmem_state_scheme \<Rightarrow> u32 list \<Rightarrow> bool" where
  "kmem_inv s vs \<longleftrightarrow> free_chain (mem s) (freelist s) vs \<and> distinct vs \<and>
     (\<forall>v \<in> set vs. page_ok (kend s) v) \<and> 0 < kend s"

lemma free_chain_unique: "free_chain m p vs \<Longrightarrow> free_chain m p ws \<Longrightarrow> vs = ws"
proof (induction vs arbitrary: p ws)
  case Nil
  then show ?case by (cases ws) auto
next
  case (Cons v vs)
  then show ?case by (cases ws) auto
qed

text \<open>A write outside the free pages leaves the chain as it is.\<close>

lemma free_chain_cong:
  "free_chain m p vs \<Longrightarrow> (\<And>v. v \<in> set vs \<Longrightarrow> m' v = m v) \<Longrightarrow> free_chain m' p vs"
  by (induction vs arbitrary: p) auto

lemma page_aligned_down: "v mod PGSIZE = 0 \<Longrightarrow> PGROUNDDOWN v = v"
proof -
  assume "v mod PGSIZE = 0"
  then have "unat (v mod PGSIZE) = 0" by simp
  then have "unat v mod 4096 = 0" by (simp add: PGSIZE_def unat_mod)
  then have "unat (PGROUNDDOWN v) = unat v"
    by (simp add: PGROUNDDOWN_unat mod_0_imp_dvd)
  then show ?thesis by (simp add: word_unat_eq_iff)
qed

text \<open>What every call of the allocator leaves alone.\<close>

definition kmem_frame :: "'r kmem_state_scheme \<Rightarrow> 'r kmem_state_scheme \<Rightarrow> bool" where
  "kmem_frame s s' \<longleftrightarrow> kend s' = kend s \<and> use_lock s' = use_lock s \<and> held s' = held s \<and>
     ncli s' = ncli s \<and> kmem_state.more s' = kmem_state.more s"

lemma kmem_frame_trans [trans]: "kmem_frame s t \<Longrightarrow> kmem_frame t u \<Longrightarrow> kmem_frame s u"
  by (simp add: kmem_frame_def)

lemma kalloc_spec:
  assumes inv: "kmem_inv s vs" and lk: "LKmem \<notin> held s"
  shows "wp kalloc (\<lambda>r s'. r = (case vs of [] \<Rightarrow> 0 | v # _ \<Rightarrow> v) \<and> kmem_inv s' (tl vs) \<and>
           mem s' = mem s \<and> kmem_frame s s') s"
  using assms
  by (cases vs)
    (auto simp: kalloc_def kmem_acquire_def kmem_release_def wp_simps kmem_inv_def kmem_frame_def
      acq_def rel_def)

lemma kfree_spec:
  assumes inv: "kmem_inv s vs" and ok: "page_ok (kend s) v" and new: "v \<notin> set vs"
    and lk: "LKmem \<notin> held s"
  shows "wp (kfree v) (\<lambda>_ s'. kmem_inv s' (v # vs) \<and> kmem_frame s s' \<and>
           mem s' = (page_fill v 0x01010101 (mem s))(v := freelist s)) s"
proof -
  let ?m = "(page_fill v 0x01010101 (mem s))(v := freelist s)"
  have "?m w = mem s w" if "w \<in> set vs" for w
  proof -
    from that inv have "w mod PGSIZE = 0" by (auto simp: kmem_inv_def page_ok_def)
    with that new show ?thesis by (auto simp: page_fill_def page_aligned_down)
  qed
  with inv have chain: "free_chain ?m (freelist s) vs"
    by (auto simp: kmem_inv_def intro: free_chain_cong)
  have "v \<noteq> 0" using ok inv by (auto simp: page_ok_def kmem_inv_def)
  with inv ok new lk chain show ?thesis
    by (auto simp: kfree_def kmem_acquire_def kmem_release_def wp_simps kmem_inv_def page_ok_def
      not_less not_le kmem_frame_def acq_def rel_def)
qed

lemma kfree_bad: "\<not> page_ok (kend s) v \<Longrightarrow> kfree v s = Panic ''kfree''"
  by (auto simp: kfree_def k_defs page_ok_def not_less not_le)

lemma kfor_kfree:
  assumes "kmem_inv s vs" and "distinct ps" and "set ps \<inter> set vs = {}"
    and "\<forall>p \<in> set ps. page_ok (kend s) p" and "LKmem \<notin> held s"
  shows "wp (kfor ps kfree) (\<lambda>_ s'. kmem_inv s' (rev ps @ vs) \<and> kmem_frame s s') s"
  using assms
proof (induction ps arbitrary: s vs)
  case Nil
  then show ?case by (simp add: wp_simps kmem_frame_def)
next
  case (Cons p ps)
  have "wp (kfree p) (\<lambda>_ s'. kmem_inv s' (p # vs) \<and> kmem_frame s s') s"
    by (rule wp_mono [OF kfree_spec [of s vs p]]) (use Cons.prems in auto)
  then show ?case
    unfolding kfor.simps wp_kbind
  proof (rule wp_mono)
    fix s1 assume s1: "kmem_inv s1 (p # vs) \<and> kmem_frame s s1"
    have "wp (kfor ps kfree) (\<lambda>_ s'. kmem_inv s' (rev ps @ p # vs) \<and> kmem_frame s1 s') s1"
      by (rule Cons.IH) (use Cons.prems s1 in \<open>auto simp: kmem_frame_def\<close>)
    then show "wp (kfor ps kfree) (\<lambda>_ s'. kmem_inv s' (rev (p # ps) @ vs) \<and> kmem_frame s s') s1"
      by (rule wp_mono) (use s1 in \<open>auto intro: kmem_frame_trans\<close>)
  qed
qed

section \<open>Page pools\<close>

text \<open>
  What the rest of the kernel relies on: an allocator hands out the first page of its pool, or 0 when the pool is empty, and takes back
  any page that is not in it. \<open>content\<close> is what a page holds.
\<close>

datatype page_op = PAlloc | PFree u32

text \<open>A client that owns the pages \<open>own\<close>. It frees only what it owns.\<close>

fun pool_run :: "('s, u32) K \<Rightarrow> (u32 \<Rightarrow> ('s, unit) K) \<Rightarrow> page_op list \<Rightarrow> u32 list \<Rightarrow> ('s, u32 list) K" where
  "pool_run alloc free [] own = kreturn own"
| "pool_run alloc free (PAlloc # ops) own =
     kbind alloc (\<lambda>r. pool_run alloc free ops (if r = 0 then own else r # own))"
| "pool_run alloc free (PFree v # ops) own =
     (if v \<in> set own then kbind (free v) (\<lambda>_. pool_run alloc free ops (remove1 v own)) else pool_run alloc free ops own)"

locale page_pool =
  fixes pool :: "'s \<Rightarrow> u32 list \<Rightarrow> bool"
    and page :: "'s \<Rightarrow> u32 \<Rightarrow> bool"
    and content :: "'s \<Rightarrow> u32 \<Rightarrow> 'c"
    and alloc :: "('s, u32) K"
    and free :: "u32 \<Rightarrow> ('s, unit) K"
  assumes pool_pages: "pool s vs \<Longrightarrow> page s v \<Longrightarrow> v \<noteq> 0"
    and pool_distinct: "pool s vs \<Longrightarrow> distinct vs"
    and pool_free: "pool s vs \<Longrightarrow> v \<in> set vs \<Longrightarrow> page s v"
    and alloc_law: "pool s vs \<Longrightarrow> wp alloc (\<lambda>r t. r = (case vs of [] \<Rightarrow> 0 | v # _ \<Rightarrow> v) \<and> pool t (tl vs) \<and> page t = page s \<and> content t = content s) s"
    and free_law: "pool s vs \<Longrightarrow> page s v \<Longrightarrow> v \<notin> set vs \<Longrightarrow>
      wp (free v) (\<lambda>_ t. pool t (v # vs) \<and> page t = page s \<and> (\<forall>w. page s w \<and> w \<noteq> v \<longrightarrow> content t w = content s w)) s"
begin

lemma pool_run_ok:
  assumes "pool s vs" "distinct (own @ vs)" "\<forall>v \<in> set own. page s v"
  shows "wp (pool_run alloc free ops own) (\<lambda>own' t. \<exists>vs'. pool t vs' \<and> distinct (own' @ vs') \<and> set (own' @ vs') = set (own @ vs) \<and>
    (\<forall>p \<in> set own. PFree p \<notin> set ops \<longrightarrow> p \<in> set own' \<and> content t p = content s p)) s"
  using assms
proof (induction ops arbitrary: s vs own)
  case Nil
  then show ?case by (auto simp: wp_kreturn)
next
  case (Cons op ops)
  show ?case
  proof (cases op)
    case PAlloc
    show ?thesis unfolding PAlloc pool_run.simps wp_kbind
    proof (rule wp_mono [OF alloc_law [OF Cons.prems(1)]], elim conjE)
      fix r t assume r: "r = (case vs of [] \<Rightarrow> 0 | v # _ \<Rightarrow> v)" and t: "pool t (tl vs)" "page t = page s" "content t = content s"
      let ?own = "if r = 0 then own else r # own"
      have nz: "\<forall>v \<in> set vs. v \<noteq> 0" using pool_free pool_pages Cons.prems(1) by blast
      have own: "distinct (?own @ tl vs)" "set (?own @ tl vs) = set (own @ vs)" "\<forall>v \<in> set ?own. page t v" "set own \<subseteq> set ?own"
        using Cons.prems nz r t pool_free [OF Cons.prems(1)] by (cases vs; auto)+
      show "wp (pool_run alloc free ops ?own) (\<lambda>own' u. \<exists>vs'. pool u vs' \<and> distinct (own' @ vs') \<and> set (own' @ vs') = set (own @ vs) \<and>
          (\<forall>p \<in> set own. PFree p \<notin> set (PAlloc # ops) \<longrightarrow> p \<in> set own' \<and> content u p = content s p)) t"
        by (rule wp_mono [OF Cons.IH [OF t(1) own(1,3)]]) (use own(2,4) t(3) in auto)
    qed
  next
    case (PFree v)
    show ?thesis
    proof (cases "v \<in> set own")
      case True
      have v: "v \<notin> set vs" "page s v" using True Cons.prems by auto
      show ?thesis unfolding PFree pool_run.simps wp_kbind if_P [OF True]
      proof (rule wp_mono [OF free_law [OF Cons.prems(1) v(2,1)]], elim conjE)
        fix t assume t: "pool t (v # vs)" "page t = page s" "\<forall>w. page s w \<and> w \<noteq> v \<longrightarrow> content t w = content s w"
        have own: "distinct (remove1 v own @ v # vs)" "set (remove1 v own @ v # vs) = set (own @ vs)" "\<forall>w \<in> set (remove1 v own). page t w"
          using Cons.prems True v t(2) by (auto simp: distinct_remove1 set_remove1_eq)
        show "wp (pool_run alloc free ops (remove1 v own)) (\<lambda>own' u. \<exists>vs'. pool u vs' \<and> distinct (own' @ vs') \<and> set (own' @ vs') = set (own @ vs) \<and>
            (\<forall>p \<in> set own. PFree p \<notin> set (PFree v # ops) \<longrightarrow> p \<in> set own' \<and> content u p = content s p)) t"
          by (rule wp_mono [OF Cons.IH [OF t(1) own(1,3)]]) (use own(2) t(2,3) Cons.prems(3) in auto)
      qed
    next
      case False
      show ?thesis unfolding PFree pool_run.simps if_not_P [OF False]
        by (rule wp_mono [OF Cons.IH [OF Cons.prems]]) (use False in auto)
    qed
  qed
qed

end

text \<open>The kernel's allocator is such a pool: its pages are those of the free list, threaded through memory.\<close>

definition kpool :: "'r kmem_state_scheme \<Rightarrow> u32 list \<Rightarrow> bool" where
  "kpool s vs \<longleftrightarrow> kmem_inv s vs \<and> LKmem \<notin> held s"

definition page_words :: "'r kmem_state_scheme \<Rightarrow> u32 \<Rightarrow> u32 \<Rightarrow> u32" where
  "page_words s v = (\<lambda>a. if PGROUNDDOWN a = v then mem s a else 0)"

lemma page_words_cong: "mem t = mem s \<Longrightarrow> page_words t = page_words s"
  by (intro ext) (simp add: page_words_def)

lemma page_wordsD: "page_words t p = page_words s p \<Longrightarrow> PGROUNDDOWN a = p \<Longrightarrow> mem t a = mem s a"
  by (drule fun_cong [where x = a]) (simp add: page_words_def)

interpretation kp: page_pool kpool "\<lambda>s. page_ok (kend s)" page_words kalloc kfree
proof
  fix s :: "'a kmem_state_scheme" and vs assume s: "kpool s vs"
  show "distinct vs" using s by (simp add: kpool_def kmem_inv_def)
  show "v \<noteq> 0" if "page_ok (kend s) v" for v using that s by (auto simp: kpool_def kmem_inv_def page_ok_def)
  show "page_ok (kend s) v" if "v \<in> set vs" for v using that s by (auto simp: kpool_def kmem_inv_def)
  show "wp kalloc (\<lambda>r t. r = (case vs of [] \<Rightarrow> 0 | v # _ \<Rightarrow> v) \<and> kpool t (tl vs) \<and> page_ok (kend t) = page_ok (kend s) \<and> page_words t = page_words s) s"
    by (rule wp_mono [OF kalloc_spec [of s vs]]) (use s in \<open>auto simp: kpool_def kmem_frame_def intro: page_words_cong\<close>)
  fix v assume v: "page_ok (kend s) v" "v \<notin> set vs"
  then have "PGROUNDDOWN v = v" by (simp add: page_ok_def page_aligned_down)
  then have "page_words t w = page_words s w" if "mem t = (page_fill v x (mem s))(v := y)" "w \<noteq> v" for t :: "'a kmem_state_scheme" and w x y
    by (intro ext) (use that in \<open>auto simp: page_words_def page_fill_def\<close>)
  then show "wp (kfree v) (\<lambda>_ t. kpool t (v # vs) \<and> page_ok (kend t) = page_ok (kend s) \<and>
      (\<forall>w. page_ok (kend s) w \<and> w \<noteq> v \<longrightarrow> page_words t w = page_words s w)) s"
    by (intro wp_mono [OF kfree_spec [of s vs v]]) (use s v in \<open>auto simp: kpool_def kmem_frame_def\<close>)
qed

text \<open>
  C28. Whatever sequence of \<^verbatim>\<open>kalloc\<close> and \<^verbatim>\<open>kfree\<close> the kernel makes, as long as it frees only pages it owns, no call panics, every
  page has exactly one owner, the caller or the free list, and a page the caller does not free keeps its content.
\<close>

theorem kalloc_exclusive:
  assumes "kmem_inv s vs" "LKmem \<notin> held s" "distinct (own @ vs)" "\<forall>v \<in> set own. page_ok (kend s) v"
  shows "\<exists>own' t vs'. pool_run kalloc kfree ops own s = Ok own' t \<and> kmem_inv t vs' \<and> distinct (own' @ vs') \<and> set (own' @ vs') = set (own @ vs) \<and>
    (\<forall>p \<in> set own. PFree p \<notin> set ops \<longrightarrow> p \<in> set own' \<and> (\<forall>a. PGROUNDDOWN a = p \<longrightarrow> mem t a = mem s a))"
proof -
  have "kpool s vs" using assms(1,2) by (simp add: kpool_def)
  from kp.pool_run_ok [OF this assms(3,4), of ops]
  obtain own' t vs' where r: "pool_run kalloc kfree ops own s = Ok own' t" "kpool t vs'" "distinct (own' @ vs')" "set (own' @ vs') = set (own @ vs)"
    and c: "\<forall>p \<in> set own. PFree p \<notin> set ops \<longrightarrow> p \<in> set own' \<and> page_words t p = page_words s p"
    by (auto simp: wp_iff_Ok)
  have "mem t a = mem s a" if "p \<in> set own" "PFree p \<notin> set ops" "PGROUNDDOWN a = p" for p a
    using c that page_wordsD by blast
  then show ?thesis using r c by (auto simp: kpool_def)
qed


definition ex_kmem :: kmem_state where
  "ex_kmem = \<lparr>ncli = 0, intena = False, int_on = False, held = {}, mem = (\<lambda>_. 0), kend = 0x80100000, freelist = 0x80500000, use_lock = True\<rparr>"

theorem kalloc_exclusive_witness:
  "\<exists>own t vs. pool_run kalloc kfree [PFree 0x80600000, PAlloc, PAlloc] [0x80600000, 0x80700000] ex_kmem = Ok own t \<and> kmem_inv t vs \<and> distinct (own @ vs) \<and>
     set (own @ vs) = {0x80600000, 0x80700000, 0x80500000} \<and> 0x80700000 \<in> set own"
proof -
  have "page_ok 0x80100000 0x80500000" "page_ok 0x80100000 0x80600000" "page_ok 0x80100000 0x80700000" by code_simp+
  then have "kmem_inv ex_kmem [0x80500000]" "LKmem \<notin> held ex_kmem" "distinct ([0x80600000, 0x80700000] @ [0x80500000 :: u32])"
    "\<forall>v \<in> set [0x80600000, 0x80700000]. page_ok (kend ex_kmem) v"
    by (simp_all add: kmem_inv_def ex_kmem_def One_nat_def)
  from kalloc_exclusive [OF this, of "[PFree 0x80600000, PAlloc, PAlloc]"]
  obtain own t vs where r: "pool_run kalloc kfree [PFree 0x80600000, PAlloc, PAlloc] [0x80600000, 0x80700000] ex_kmem = Ok own t" "kmem_inv t vs"
    "distinct (own @ vs)" "set (own @ vs) = set ([0x80600000, 0x80700000] @ [0x80500000])"
    "\<forall>p \<in> set [0x80600000, 0x80700000]. PFree p \<notin> set [PFree 0x80600000, PAlloc, PAlloc] \<longrightarrow> p \<in> set own" by blast
  have "0x80700000 \<in> set own" using r(5) by (simp add: One_nat_def)
  moreover have "set (own @ vs) = {0x80600000, 0x80700000, 0x80500000}" unfolding r(4) by (simp add: insert_commute)
  ultimately show ?thesis using r(1-3) by blast
qed

section \<open>Filling the pool at boot\<close>

lemma aligned_iff: "v mod PGSIZE = 0 \<longleftrightarrow> unat v mod 4096 = 0"
  by (simp add: PGSIZE_def word_unat_eq_iff unat_mod)

lemma page_range_set:
  assumes "p mod PGSIZE = 0" "vend mod PGSIZE = 0" "p \<le> vend"
  shows "distinct (page_range p vend)" "set (page_range p vend) = {v. v mod PGSIZE = 0 \<and> p \<le> v \<and> v < vend}"
proof -
  define n where "n = (unat vend - unat p) div 4096"
  have m: "unat p mod 4096 = 0" "unat vend mod 4096 = 0" "unat p \<le> unat vend"
    using assms by (simp_all add: aligned_iff word_le_nat_alt)
  have n: "unat vend = unat p + n * 4096" unfolding n_def using m by (simp add: mod_0_imp_dvd dvd_diff_nat)
  have lt: "unat vend < 2 ^ 32" using unsigned_less [of vend] by simp
  have u: "unat (p + of_nat i * PGSIZE) = unat p + i * 4096" if "i < n" for i
  proof -
    have "i * 4096 + 4096 \<le> n * 4096" using that by simp
    then have "unat p + i * 4096 < 2 ^ 32" using n lt by linarith
    then show ?thesis by (simp add: PGSIZE_def unat_word_ariths unat_of_nat mod_mult_left_eq)
  qed
  have r: "page_range p vend = map (\<lambda>i. p + of_nat i * PGSIZE) [0 ..< n]" by (simp add: page_range_def n_def)
  have "inj_on (\<lambda>i. p + of_nat i * PGSIZE) {0 ..< n}"
    by (rule inj_on_inverseI [where g = "\<lambda>v. (unat v - unat p) div 4096"]) (simp add: u)
  then show "distinct (page_range p vend)" by (simp add: r distinct_map)
  show "set (page_range p vend) = {v. v mod PGSIZE = 0 \<and> p \<le> v \<and> v < vend}"
  proof (intro set_eqI iffI)
    fix v assume "v \<in> set (page_range p vend)"
    then obtain i where i: "i < n" "v = p + of_nat i * PGSIZE" by (auto simp: r)
    then have "unat v = unat p + i * 4096" "i * 4096 + 4096 \<le> n * 4096" using u by simp_all
    then show "v \<in> {v. v mod PGSIZE = 0 \<and> p \<le> v \<and> v < vend}"
      using m(1) n by (simp add: aligned_iff word_le_nat_alt word_less_nat_alt)
  next
    fix v assume "v \<in> {v. v mod PGSIZE = 0 \<and> p \<le> v \<and> v < vend}"
    then have v: "unat v mod 4096 = 0" "unat p \<le> unat v" "unat v < unat vend"
      by (simp_all add: aligned_iff word_le_nat_alt word_less_nat_alt)
    define i where "i = (unat v - unat p) div 4096"
    have i: "unat v = unat p + i * 4096" unfolding i_def using v(1,2) m(1) by (simp add: mod_0_imp_dvd dvd_diff_nat)
    then have "i < n" using v(3) n by simp
    then have "v = p + of_nat i * PGSIZE" using i u by (simp add: word_unat_eq_iff)
    then show "v \<in> set (page_range p vend)" using \<open>i < n\<close> by (auto simp: r)
  qed
qed

text \<open>
  C29. The two calls of \<^verbatim>\<open>main\<close>, \<^verbatim>\<open>kinit1(end, P2V(4*1024*1024))\<close> and later \<^verbatim>\<open>kinit2(P2V(4*1024*1024), P2V(PHYSTOP))\<close>, return
  with every page between the end of the kernel and \<^verbatim>\<open>PHYSTOP\<close> on the free list, each once, and with the lock in use.
\<close>

theorem kinit_frees_all:
  assumes "freelist s = 0" "KERNBASE \<le> kend s" "kend s \<le> P2V 0x400000" "LKmem \<notin> held s"
  shows "\<exists>t vs. kbind (kinit1 (kend s) (P2V 0x400000)) (\<lambda>_. kinit2 (P2V 0x400000) (P2V PHYSTOP)) s = Ok () t \<and>
    kmem_inv t vs \<and> set vs = {v. page_ok (kend s) v} \<and> use_lock t"
proof -
  define e m p where defs: "e = kend s" "m = P2V 0x400000" "p = P2V PHYSTOP"
  define a where a_def: "a = PGROUNDUP e"
  have e: "0x80000000 \<le> unat e" "unat e \<le> 0x80400000" using assms(2,3) by (simp_all add: addr_defs word_le_nat_alt defs)
  have a: "unat a = (unat e + 4095) div 4096 * 4096" unfolding a_def by (rule PGROUNDUP_unat) (use e in simp)
  have al: "a mod PGSIZE = 0" "e \<le> a" "a \<le> m" "m mod PGSIZE = 0" "p mod PGSIZE = 0" "m \<le> p" "PGROUNDUP m = m" "0 < e"
    using e by (simp_all add: a word_le_nat_alt word_less_nat_alt word_unat_eq_iff unat_mod addr_defs PGROUNDUP_unat defs(2,3)) 
  have up: "page_ok e v \<longleftrightarrow> v mod PGSIZE = 0 \<and> a \<le> v \<and> v < p" for v
  proof -
    have "e \<le> v \<longleftrightarrow> a \<le> v" if v: "unat v mod 4096 = 0"
    proof -
      obtain k where k: "unat v = 4096 * k" using v by (auto simp: mod_eq_0_iff_dvd)
      show ?thesis unfolding word_le_nat_alt a k by simp linarith
    qed
    moreover have "V2P v < PHYSTOP \<longleftrightarrow> v < p" if "e \<le> v"
    proof -
      have "unat (V2P v) = unat v - 0x80000000" using that e by (simp add: V2P_def KERNBASE_def word_le_nat_alt unat_sub)
      then show ?thesis using that e by (simp add: word_le_nat_alt word_less_nat_alt addr_defs less_diff_conv2 defs(3))
    qed
    ultimately show ?thesis using al(2) by (auto simp: page_ok_def aligned_iff)
  qed
  note r1 = page_range_set [OF al(1,4,3)] and r2 = page_range_set [OF al(4,5,6)]
  let ?s = "s\<lparr>use_lock := False\<rparr>"
  have i: "kmem_inv ?s []" "LKmem \<notin> held ?s" using assms al(8) by (simp_all add: kmem_inv_def defs(1))
  have "wp (kfor (page_range a m) kfree) (\<lambda>_ t. kmem_inv t (rev (page_range a m) @ []) \<and> kmem_frame ?s t) ?s"
    by (rule kfor_kfree [OF i(1) r1(1) _ _ i(2)]) (use al(6) in \<open>auto simp: r1(2) up defs(1) [symmetric]\<close>)
  then obtain t where t: "kfor (page_range a m) kfree ?s = Ok () t" "kmem_inv t (rev (page_range a m))" "kmem_frame ?s t"
    unfolding wp_iff_Ok append_Nil2 by (metis old.unit.exhaust)
  have "wp (kfor (page_range m p) kfree) (\<lambda>_ u. kmem_inv u (rev (page_range m p) @ rev (page_range a m)) \<and> kmem_frame t u) t"
    by (rule kfor_kfree [OF t(2) r2(1)]) (use t(3) assms(4) al(2,3) in \<open>auto simp: r1(2) r2(2) up kmem_frame_def defs(1) [symmetric]\<close>)
  then obtain u where u: "kfor (page_range m p) kfree t = Ok () u" "kmem_inv u (rev (page_range m p) @ rev (page_range a m))"
    unfolding wp_iff_Ok by (metis old.unit.exhaust)
  have "set (rev (page_range m p) @ rev (page_range a m)) = {v. page_ok e v}"
    unfolding set_append set_rev r1(2) r2(2) up 
    by (intro set_eqI) (use al(3,6) in \<open>simp only: Un_iff mem_Collect_eq, meson leI le_less_trans order_trans less_le_trans\<close>)
  moreover have "kbind (kinit1 e m) (\<lambda>_. kinit2 m p) s = Ok () (u\<lparr>use_lock := True\<rparr>)"
    using t(1) u(1) al(7) by (simp add: kinit1_def kinit2_def freerange_def k_defs a_def)
  moreover have "kmem_inv (u\<lparr>use_lock := True\<rparr>) (rev (page_range m p) @ rev (page_range a m))"
    using u(2) by (simp add: kmem_inv_def)
  ultimately show ?thesis unfolding defs by fastforce
qed

theorem kinit_frees_all_witness:
  "\<exists>t vs. kbind (kinit1 0x80100000 (P2V 0x400000)) (\<lambda>_. kinit2 (P2V 0x400000) (P2V PHYSTOP)) (ex_kmem\<lparr>freelist := 0\<rparr>) = Ok () t \<and>
    kmem_inv t vs \<and> set vs = {v. page_ok 0x80100000 v} \<and> use_lock t"
proof -
  let ?s = "ex_kmem\<lparr>freelist := 0\<rparr>"
  have k: "kend ?s = 0x80100000" "freelist ?s = 0" "LKmem \<notin> held ?s" by (simp_all add: ex_kmem_def)
  have "KERNBASE \<le> 0x80100000" "0x80100000 \<le> P2V 0x400000" by code_simp+
  then show ?thesis using kinit_frees_all [of ?s, unfolded k(1), OF k(2) _ _ k(3)] by blast
qed
end
