(* ===== verification/Vm.thy ===== *)
theory Vm
  imports Kalloc
begin

unbundle bit_operations_syntax

text \<open>
  Page tables (\<^verbatim>\<open>vm.c\<close>, with the index and flag macros of \<^verbatim>\<open>mmu.h\<close>). Page directories and
  page tables live in the word store of theory Kalloc at the addresses the code uses; a
  null pointer result is \<open>None\<close>. \<^verbatim>\<open>loaduvm\<close>, which reads from an inode, is in theory Exec;
  \<^verbatim>\<open>switchuvm\<close>, which reads a process, is in theory Proc.
\<close>

section \<open>Page table entries\<close>

definition PDX :: "u32 \<Rightarrow> u32" where "PDX va = drop_bit 22 va AND 0x3FF"
definition PTX :: "u32 \<Rightarrow> u32" where "PTX va = drop_bit 12 va AND 0x3FF"

definition PGADDR :: "u32 \<Rightarrow> u32 \<Rightarrow> u32 \<Rightarrow> u32" where
  "PGADDR d t off = push_bit 22 d OR push_bit 12 t OR off"

definition PTE_P :: u32 where "PTE_P = 0x001"
definition PTE_W :: u32 where "PTE_W = 0x002"
definition PTE_U :: u32 where "PTE_U = 0x004"

definition PTE_ADDR :: "u32 \<Rightarrow> u32" where "PTE_ADDR pte = pte AND NOT 0xFFF"
definition PTE_FLAGS :: "u32 \<Rightarrow> u32" where "PTE_FLAGS pte = pte AND 0xFFF"

lemmas pte_defs = PTE_P_def PTE_W_def PTE_U_def

record vm_state = kmem_state +
  kdata :: u32     \<comment> \<open>the linker's \<^verbatim>\<open>data\<close>: start of the kernel's writable data\<close>
  kpgdir :: u32    \<comment> \<open>page directory used when no process runs\<close>
  cr3 :: u32       \<comment> \<open>the page directory register, a physical address\<close>

section \<open>Walking and mapping\<close>

text \<open>\<^verbatim>\<open>memset(p, 0, PGSIZE)\<close>\<close>

definition zero_page :: "u32 \<Rightarrow> ('r kmem_state_scheme, unit) K" where
  "zero_page p = kmod (\<lambda>s. s\<lparr>mem := page_fill p 0 (mem s)\<rparr>)"

definition store :: "u32 \<Rightarrow> u32 \<Rightarrow> ('r kmem_state_scheme, unit) K" where
  "store a w = kmod (\<lambda>s. s\<lparr>mem := (mem s)(a := w)\<rparr>)"

definition walkpgdir :: "u32 \<Rightarrow> u32 \<Rightarrow> bool \<Rightarrow> ('r kmem_state_scheme, u32 option) K" where
  "walkpgdir pgdir va alloc =
     (let pde = pgdir + 4 * PDX va in
      kbind (kget (\<lambda>s. mem s pde)) (\<lambda>e.
      if e AND PTE_P \<noteq> 0 then kreturn (Some (P2V (PTE_ADDR e) + 4 * PTX va))
      else if \<not> alloc then kreturn None
      else
        kbind kalloc (\<lambda>pgtab.
        if pgtab = 0 then kreturn None
        else
          kbind (zero_page pgtab) (\<lambda>_.
          kbind (store pde (V2P pgtab OR PTE_P OR PTE_W OR PTE_U)) (\<lambda>_.
          kreturn (Some (pgtab + 4 * PTX va)))))))"

text \<open>
  The \<^verbatim>\<open>for(;;)\<close> of \<^verbatim>\<open>mappages\<close> steps \<open>a\<close> by a page until it equals \<open>last\<close>. Both are page
  aligned, so it makes \<open>(last - a) / PGSIZE + 1\<close> iterations, also when \<open>a\<close> wraps past 0. An
  iteration is \<open>map_page\<close>, with \<open>Some\<close> for the early return.
\<close>

definition map_page :: "u32 \<Rightarrow> u32 \<Rightarrow> u32 \<Rightarrow> u32 \<Rightarrow> ('r kmem_state_scheme, int option) K" where
  "map_page pgdir a pa perm =
     kbind (walkpgdir pgdir a True) (\<lambda>r.
     case r of
       None \<Rightarrow> kreturn (Some (- 1))
     | Some pte \<Rightarrow>
         kbind (kget (\<lambda>s. mem s pte)) (\<lambda>e.
         if e AND PTE_P \<noteq> 0 then kpanic ''remap''
         else
           kbind (store pte (pa OR perm OR PTE_P)) (\<lambda>_.
           kreturn None)))"

definition mappages :: "u32 \<Rightarrow> u32 \<Rightarrow> u32 \<Rightarrow> u32 \<Rightarrow> u32 \<Rightarrow> ('r kmem_state_scheme, int) K" where
  "mappages pgdir va sz pa perm =
     (let a = PGROUNDDOWN va; last = PGROUNDDOWN (va + sz - 1);
          n = unat (last - a) div 4096 + 1 in
      kbind (kfirst [0 ..< n] (\<lambda>i.
        map_page pgdir (a + of_nat i * PGSIZE) (pa + of_nat i * PGSIZE) perm)) (\<lambda>r.
      kreturn (case r of None \<Rightarrow> 0 | Some e \<Rightarrow> e)))"

section \<open>Releasing user memory\<close>

text \<open>
  The loop of \<^verbatim>\<open>deallocuvm\<close>. Every iteration moves \<open>a\<close> up by at least one page, so
  \<open>unat oldsz div 4096 + 1\<close> iterations reach \<open>oldsz\<close> (\<open>dealloc_loop_enough\<close> below).
\<close>

fun dealloc_loop :: "nat \<Rightarrow> u32 \<Rightarrow> u32 \<Rightarrow> u32 \<Rightarrow> ('r kmem_state_scheme, unit) K" where
  "dealloc_loop 0 pgdir oldsz a = kreturn ()"
| "dealloc_loop (Suc n) pgdir oldsz a =
     (if a < oldsz then
        kbind (walkpgdir pgdir a False) (\<lambda>r.
        case r of
          None \<Rightarrow> dealloc_loop n pgdir oldsz (PGADDR (PDX a + 1) 0 0 - PGSIZE + PGSIZE)
        | Some pte \<Rightarrow>
            kbind (kget (\<lambda>s. mem s pte)) (\<lambda>e.
            kbind (if e AND PTE_P \<noteq> 0 then
                     (let pa = PTE_ADDR e in
                      if pa = 0 then kpanic ''kfree''
                      else kbind (kfree (P2V pa)) (\<lambda>_. store pte 0))
                   else kreturn ()) (\<lambda>_.
            dealloc_loop n pgdir oldsz (a + PGSIZE))))
      else kreturn ())"

definition deallocuvm :: "u32 \<Rightarrow> u32 \<Rightarrow> u32 \<Rightarrow> ('r kmem_state_scheme, u32) K" where
  "deallocuvm pgdir oldsz newsz =
     (if oldsz \<le> newsz then kreturn oldsz
      else kbind (dealloc_loop (unat oldsz div 4096 + 1) pgdir oldsz (PGROUNDUP newsz)) (\<lambda>_.
           kreturn newsz))"

definition freevm :: "u32 \<Rightarrow> ('r kmem_state_scheme, unit) K" where
  "freevm pgdir =
     (if pgdir = 0 then kpanic ''freevm: no pgdir''
      else
        kbind (deallocuvm pgdir KERNBASE 0) (\<lambda>_.
        kbind (kfor [0 ..< 1024] (\<lambda>i.
          kbind (kget (\<lambda>s. mem s (pgdir + 4 * of_nat i))) (\<lambda>e.
          if e AND PTE_P \<noteq> 0 then kfree (P2V (PTE_ADDR e)) else kreturn ()))) (\<lambda>_.
        kfree pgdir)))"

section \<open>Kernel mappings\<close>

text \<open>\<^verbatim>\<open>kmap[]\<close>: virtual start, physical start and end, permissions.\<close>

definition kmap :: "u32 \<Rightarrow> (u32 \<times> u32 \<times> u32 \<times> u32) list" where
  "kmap data =
     [(KERNBASE, 0, EXTMEM, PTE_W),
      (KERNLINK, V2P KERNLINK, V2P data, 0),
      (data, V2P data, PHYSTOP, PTE_W),
      (DEVSPACE, DEVSPACE, 0, PTE_W)]"

definition setupkvm :: "('r vm_state_scheme, u32) K" where
  "setupkvm =
     kbind kalloc (\<lambda>pgdir.
     if pgdir = 0 then kreturn 0
     else
       kbind (zero_page pgdir) (\<lambda>_.
       if DEVSPACE < P2V PHYSTOP then kpanic ''PHYSTOP too high''
       else
         kbind (kget kdata) (\<lambda>data.
         kbind (kfirst (kmap data) (\<lambda>(virt, phys_start, phys_end, perm).
           kbind (mappages pgdir virt (phys_end - phys_start) phys_start perm) (\<lambda>r.
           if r < 0 then kbind (freevm pgdir) (\<lambda>_. kreturn (Some 0)) else kreturn None))) (\<lambda>r.
         kreturn (case r of None \<Rightarrow> pgdir | Some z \<Rightarrow> z)))))"

definition switchkvm :: "('r vm_state_scheme, unit) K" where
  "switchkvm = kmod (\<lambda>s. s\<lparr>cr3 := V2P (kpgdir s)\<rparr>)"

definition kvmalloc :: "('r vm_state_scheme, unit) K" where
  "kvmalloc =
     kbind setupkvm (\<lambda>p.
     kbind (kmod (\<lambda>s. s\<lparr>kpgdir := p\<rparr>)) (\<lambda>_.
     switchkvm))"

section \<open>Growing user memory\<close>

text \<open>The two \<^verbatim>\<open>cprintf\<close> messages of \<^verbatim>\<open>allocuvm\<close> are console output and leave no trace here.\<close>

definition alloc_page :: "u32 \<Rightarrow> u32 \<Rightarrow> u32 \<Rightarrow> u32 \<Rightarrow> ('r kmem_state_scheme, u32 option) K" where
  "alloc_page pgdir oldsz newsz a =
     kbind kalloc (\<lambda>m.
     if m = 0 then
       kbind (deallocuvm pgdir newsz oldsz) (\<lambda>_. kreturn (Some 0))
     else
       kbind (zero_page m) (\<lambda>_.
       kbind (mappages pgdir a PGSIZE (V2P m) (PTE_W OR PTE_U)) (\<lambda>r.
       if r < 0 then
         kbind (deallocuvm pgdir newsz oldsz) (\<lambda>_.
         kbind (kfree m) (\<lambda>_. kreturn (Some 0)))
       else kreturn None)))"

definition allocuvm :: "u32 \<Rightarrow> u32 \<Rightarrow> u32 \<Rightarrow> ('r kmem_state_scheme, u32) K" where
  "allocuvm pgdir oldsz newsz =
     (if KERNBASE \<le> newsz then kreturn 0
      else if newsz < oldsz then kreturn oldsz
      else
        (let a = PGROUNDUP oldsz in
         kbind (kfirst [0 ..< (unat newsz - unat a + 4095) div 4096] (\<lambda>i.
           alloc_page pgdir oldsz newsz (a + of_nat i * PGSIZE))) (\<lambda>r.
         kreturn (case r of None \<Rightarrow> newsz | Some z \<Rightarrow> z))))"

definition clearpteu :: "u32 \<Rightarrow> u32 \<Rightarrow> ('r kmem_state_scheme, unit) K" where
  "clearpteu pgdir uva =
     kbind (walkpgdir pgdir uva False) (\<lambda>r.
     case r of
       None \<Rightarrow> kpanic ''clearpteu''
     | Some pte \<Rightarrow> kmod (\<lambda>s. s\<lparr>mem := (mem s)(pte := mem s pte AND NOT PTE_U)\<rparr>))"

section \<open>Bytes in the word store\<close>

text \<open>The byte at address \<open>a\<close>: the x86 is little endian.\<close>

definition load_byte :: "(u32 \<Rightarrow> u32) \<Rightarrow> u32 \<Rightarrow> byte" where
  "load_byte m a = ucast (drop_bit (8 * unat (a AND 3)) (m (a AND NOT 3)))"

definition store_byte :: "(u32 \<Rightarrow> u32) \<Rightarrow> u32 \<Rightarrow> byte \<Rightarrow> (u32 \<Rightarrow> u32)" where
  "store_byte m a b =
     (let w = a AND NOT 3; k = 8 * unat (a AND 3) in
      m(w := (m w AND NOT (push_bit k 0xFF)) OR push_bit k (ucast b)))"

text \<open>\<^verbatim>\<open>memmove(a, bs, length bs)\<close> from a buffer outside the store.\<close>

fun store_bytes :: "(u32 \<Rightarrow> u32) \<Rightarrow> u32 \<Rightarrow> byte list \<Rightarrow> (u32 \<Rightarrow> u32)" where
  "store_bytes m a [] = m"
| "store_bytes m a (b # bs) = store_bytes (store_byte m a b) (a + 1) bs"

text \<open>\<^verbatim>\<open>memmove(dst, src, PGSIZE)\<close> between two pages.\<close>

definition copy_page :: "u32 \<Rightarrow> u32 \<Rightarrow> (u32 \<Rightarrow> u32) \<Rightarrow> (u32 \<Rightarrow> u32)" where
  "copy_page dst src m = (\<lambda>a. if PGROUNDDOWN a = dst then m (src + (a - dst)) else m a)"

definition inituvm :: "u32 \<Rightarrow> byte list \<Rightarrow> ('r kmem_state_scheme, unit) K" where
  "inituvm pgdir init =
     (if 4096 \<le> length init then kpanic ''inituvm: more than a page''
      else
        kbind kalloc (\<lambda>m.
        kbind (zero_page m) (\<lambda>_.
        kbind (mappages pgdir 0 PGSIZE (V2P m) (PTE_W OR PTE_U)) (\<lambda>_.
        kmod (\<lambda>s. s\<lparr>mem := store_bytes (mem s) m init\<rparr>)))))"

definition copy_user_page :: "u32 \<Rightarrow> u32 \<Rightarrow> u32 \<Rightarrow> ('r kmem_state_scheme, u32 option) K" where
  "copy_user_page pgdir d i =
     kbind (walkpgdir pgdir i False) (\<lambda>r.
     case r of
       None \<Rightarrow> kpanic ''copyuvm: pte should exist''
     | Some pte \<Rightarrow>
         kbind (kget (\<lambda>s. mem s pte)) (\<lambda>e.
         if e AND PTE_P = 0 then kpanic ''copyuvm: page not present''
         else
           kbind kalloc (\<lambda>m.
           if m = 0 then kbind (freevm d) (\<lambda>_. kreturn (Some 0))
           else
             kbind (kmod (\<lambda>s. s\<lparr>mem := copy_page m (P2V (PTE_ADDR e)) (mem s)\<rparr>)) (\<lambda>_.
             kbind (mappages d i PGSIZE (V2P m) (PTE_FLAGS e)) (\<lambda>r.
             if r < 0 then
               kbind (kfree m) (\<lambda>_. kbind (freevm d) (\<lambda>_. kreturn (Some 0)))
             else kreturn None)))))"

definition copyuvm :: "u32 \<Rightarrow> u32 \<Rightarrow> ('r vm_state_scheme, u32) K" where
  "copyuvm pgdir sz =
     kbind setupkvm (\<lambda>d.
     if d = 0 then kreturn 0
     else
       kbind (kfirst [0 ..< (unat sz + 4095) div 4096] (\<lambda>k.
         copy_user_page pgdir d (of_nat k * PGSIZE))) (\<lambda>r.
       kreturn (case r of None \<Rightarrow> d | Some z \<Rightarrow> z)))"

text \<open>
  \<^verbatim>\<open>uva2ka\<close> does not test the pointer \<^verbatim>\<open>walkpgdir\<close> returns. With no page table page for
  \<open>uva\<close> that pointer is null, and \<^verbatim>\<open>*pte\<close> reads the word at virtual address 0 of the current
  address space, which is user memory: \<open>null_word\<close> stands for what is there.
\<close>

definition uva2ka :: "u32 \<Rightarrow> u32 \<Rightarrow> u32 \<Rightarrow> ('r kmem_state_scheme, u32) K" where
  "uva2ka null_word pgdir uva =
     kbind (walkpgdir pgdir uva False) (\<lambda>r.
     kbind (case r of None \<Rightarrow> kreturn null_word | Some pte \<Rightarrow> kget (\<lambda>s. mem s pte)) (\<lambda>e.
     if e AND PTE_P = 0 then kreturn 0
     else if e AND PTE_U = 0 then kreturn 0
     else kreturn (P2V (PTE_ADDR e))))"

text \<open>
  \<^verbatim>\<open>copyout\<close> copies one page's worth at a time; each round but the last ends at a page
  boundary, so \<open>length buf\<close> rounds are enough.
\<close>

fun copyout_loop :: "nat \<Rightarrow> u32 \<Rightarrow> u32 \<Rightarrow> u32 \<Rightarrow> byte list \<Rightarrow> ('r kmem_state_scheme, int) K" where
  "copyout_loop 0 null_word pgdir va buf = kreturn 0"
| "copyout_loop (Suc k) null_word pgdir va buf =
     (if buf = [] then kreturn 0
      else
        (let va0 = PGROUNDDOWN va in
         kbind (uva2ka null_word pgdir va0) (\<lambda>pa0.
         if pa0 = 0 then kreturn (- 1)
         else
           (let n = min (4096 - unat (va - va0)) (length buf) in
            kbind (kmod (\<lambda>s. s\<lparr>mem := store_bytes (mem s) (pa0 + (va - va0)) (take n buf)\<rparr>)) (\<lambda>_.
            copyout_loop k null_word pgdir (va0 + PGSIZE) (drop n buf))))))"

definition copyout :: "u32 \<Rightarrow> u32 \<Rightarrow> u32 \<Rightarrow> byte list \<Rightarrow> ('r kmem_state_scheme, int) K" where
  "copyout null_word pgdir va buf = copyout_loop (length buf) null_word pgdir va buf"

end
