(* ===== verification/Proc.thy ===== *)
theory Proc
  imports Vm
begin

unbundle bit_operations_syntax

text \<open>
  The process table, sleep and wakeup, and the scheduler (\<^verbatim>\<open>proc.c\<close>, \<^verbatim>\<open>proc.h\<close>, and
  \<^verbatim>\<open>switchuvm\<close> of \<^verbatim>\<open>vm.c\<close>). A process pointer is an index into \<^verbatim>\<open>ptable.proc\<close>, a null pointer
  is \<open>None\<close>; the trap frame and the saved context, which the code keeps at the top of the kernel
  stack, are fields of the process. \<^verbatim>\<open>fork\<close>, \<^verbatim>\<open>exit\<close> and \<^verbatim>\<open>wait\<close>, which use the file layer, are
  in theory Process.
\<close>

section \<open>State\<close>

definition NPROC :: nat where "NPROC = 64"
definition NOFILE :: nat where "NOFILE = 16"
definition KSTACKSIZE :: u32 where "KSTACKSIZE = 4096"

datatype procstate = UNUSED | EMBRYO | SLEEPING | RUNNABLE | RUNNING | ZOMBIE

record trapframe =
  tf_edi :: u32  tf_esi :: u32  tf_ebp :: u32  tf_oesp :: u32
  tf_ebx :: u32  tf_edx :: u32  tf_ecx :: u32  tf_eax :: u32
  tf_gs :: u32   tf_fs :: u32   tf_es :: u32   tf_ds :: u32
  tf_trapno :: u32
  tf_err :: u32  tf_eip :: u32  tf_cs :: u32  tf_eflags :: u32
  tf_esp :: u32  tf_ss :: u32

record kcontext = c_edi :: u32  c_esi :: u32  c_ebx :: u32  c_ebp :: u32  c_eip :: u32

definition zero_tf :: trapframe where
  "zero_tf = \<lparr>tf_edi = 0, tf_esi = 0, tf_ebp = 0, tf_oesp = 0, tf_ebx = 0, tf_edx = 0, tf_ecx = 0,
     tf_eax = 0, tf_gs = 0, tf_fs = 0, tf_es = 0, tf_ds = 0, tf_trapno = 0, tf_err = 0, tf_eip = 0,
     tf_cs = 0, tf_eflags = 0, tf_esp = 0, tf_ss = 0\<rparr>"

definition zero_context :: kcontext where
  "zero_context = \<lparr>c_edi = 0, c_esi = 0, c_ebx = 0, c_ebp = 0, c_eip = 0\<rparr>"

record proc =
  p_sz :: u32
  p_pgdir :: u32
  p_kstack :: u32
  p_state :: procstate
  p_pid :: int
  p_parent :: "nat option"
  p_tf :: trapframe
  p_context :: kcontext
  p_chan :: "chan option"
  p_killed :: bool
  p_ofile :: "nat option list"
  p_cwd :: "nat option"
  p_name :: "byte list"

record proc_state = vm_state +
  ptable :: "proc list"      \<comment> \<open>\<^verbatim>\<open>ptable.proc\<close>\<close>
  initproc :: "nat option"
  nextpid :: int
  cur :: "nat option"        \<comment> \<open>\<^verbatim>\<open>mycpu()->proc\<close>\<close>
  ts_esp0 :: u32             \<comment> \<open>\<^verbatim>\<open>mycpu()->ts.esp0\<close>\<close>
  sym_forkret :: u32         \<comment> \<open>address of \<^verbatim>\<open>forkret\<close>\<close>
  sym_trapret :: u32         \<comment> \<open>address of \<^verbatim>\<open>trapret\<close>\<close>
  ticks :: u32

lemma proc_acq_rel [simp]:
  "ptable (acq lk s) = ptable s" "ptable (rel lk s) = ptable s"
  "initproc (acq lk s) = initproc s" "initproc (rel lk s) = initproc s"
  "nextpid (acq lk s) = nextpid s" "nextpid (rel lk s) = nextpid s"
  "cur (acq lk s) = cur s" "cur (rel lk s) = cur s"
  "ticks (acq lk s) = ticks s" "ticks (rel lk s) = ticks s"
  by (simp_all add: acq_def rel_def)

text \<open>\<^verbatim>\<open>p->field = v\<close>\<close>

definition upd_proc :: "nat \<Rightarrow> (proc \<Rightarrow> proc) \<Rightarrow> ('r proc_state_scheme, unit) K" where
  "upd_proc i f = kmod (\<lambda>s. s\<lparr>ptable := (ptable s)[i := f (ptable s ! i)]\<rparr>)"

definition get_proc :: "nat \<Rightarrow> (proc \<Rightarrow> 'a) \<Rightarrow> ('r proc_state_scheme, 'a) K" where
  "get_proc i f = kget (\<lambda>s. f (ptable s ! i))"

text \<open>\<^verbatim>\<open>myproc()\<close> reads \<^verbatim>\<open>mycpu()->proc\<close> between \<^verbatim>\<open>pushcli\<close> and \<^verbatim>\<open>popcli\<close>.\<close>

definition myproc :: "('r proc_state_scheme, nat option) K" where
  "myproc =
     kbind pushcli (\<lambda>_.
     kbind (kget cur) (\<lambda>p.
     kbind popcli (\<lambda>_.
     kreturn p)))"

text \<open>
  \<^verbatim>\<open>mycpu\<close>: the index of the processor whose local APIC has the given id. \<open>apicids\<close> is the
  \<^verbatim>\<open>apicid\<close> column of \<^verbatim>\<open>cpus[0..ncpu)\<close>.
\<close>

definition mycpu :: "nat list \<Rightarrow> nat \<Rightarrow> ('r cpu_state_scheme, nat) K" where
  "mycpu apicids apicid =
     kbind (kget int_on) (\<lambda>ion.
     if ion then kpanic ''mycpu called with interrupts enabled''
     else case List.find (\<lambda>i. apicids ! i = apicid) [0 ..< length apicids] of
            Some i \<Rightarrow> kreturn i
          | None \<Rightarrow> kpanic ''unknown apicid'')"

section \<open>Allocating a process\<close>

text \<open>\<^verbatim>\<open>int\<close> arithmetic wraps at 32 bits.\<close>

definition s32 :: "int \<Rightarrow> int" where
  "s32 x = (x + 2 ^ 31) mod 2 ^ 32 - 2 ^ 31"

text \<open>\<^verbatim>\<open>sizeof(struct trapframe)\<close> is 76.\<close>

definition allocproc :: "('r proc_state_scheme, nat option) K" where
  "allocproc =
     kbind (acquire LPtable) (\<lambda>_.
     kbind (kget (\<lambda>s. List.find (\<lambda>i. p_state (ptable s ! i) = UNUSED) [0 ..< NPROC])) (\<lambda>found.
     case found of
       None \<Rightarrow> kbind (release LPtable) (\<lambda>_. kreturn None)
     | Some p \<Rightarrow>
         kbind (kget nextpid) (\<lambda>pid.
         kbind (upd_proc p (\<lambda>q. q\<lparr>p_state := EMBRYO, p_pid := pid\<rparr>)) (\<lambda>_.
         kbind (kmod (\<lambda>s. s\<lparr>nextpid := s32 (pid + 1)\<rparr>)) (\<lambda>_.
         kbind (release LPtable) (\<lambda>_.
         kbind kalloc (\<lambda>stk.
         kbind (upd_proc p (\<lambda>q. q\<lparr>p_kstack := stk\<rparr>)) (\<lambda>_.
         if stk = 0 then
           kbind (upd_proc p (\<lambda>q. q\<lparr>p_state := UNUSED\<rparr>)) (\<lambda>_. kreturn None)
         else
           kbind (kget sym_trapret) (\<lambda>trapret.
           kbind (store (stk + KSTACKSIZE - 76 - 4) trapret) (\<lambda>_.
           kbind (kget sym_forkret) (\<lambda>forkret.
           kbind (upd_proc p (\<lambda>q. q\<lparr>p_context := zero_context\<lparr>c_eip := forkret\<rparr>\<rparr>)) (\<lambda>_.
           kreturn (Some p)))))))))))))"

section \<open>Switching address spaces, growing a process\<close>

definition switchuvm :: "nat option \<Rightarrow> ('r proc_state_scheme, unit) K" where
  "switchuvm pp =
     (case pp of
        None \<Rightarrow> kpanic ''switchuvm: no process''
      | Some p \<Rightarrow>
          kbind (get_proc p p_kstack) (\<lambda>stk.
          if stk = 0 then kpanic ''switchuvm: no kstack''
          else
            kbind (get_proc p p_pgdir) (\<lambda>pgd.
            if pgd = 0 then kpanic ''switchuvm: no pgdir''
            else
              kbind pushcli (\<lambda>_.
              kbind (kmod (\<lambda>s. s\<lparr>ts_esp0 := stk + KSTACKSIZE\<rparr>)) (\<lambda>_.
              kbind (kmod (\<lambda>s. s\<lparr>cr3 := V2P pgd\<rparr>)) (\<lambda>_.
              popcli))))))"

definition growproc :: "int \<Rightarrow> ('r proc_state_scheme, int) K" where
  "growproc n =
     kbind myproc (\<lambda>cp.
     (let p = the cp in
      kbind (get_proc p p_sz) (\<lambda>sz0.
      kbind (get_proc p p_pgdir) (\<lambda>pgd.
      kbind (if 0 < n then allocuvm pgd sz0 (sz0 + of_int n)
             else if n < 0 then deallocuvm pgd sz0 (sz0 + of_int n)
             else kreturn sz0) (\<lambda>sz.
      if n \<noteq> 0 \<and> sz = 0 then kreturn (- 1)
      else
        kbind (upd_proc p (\<lambda>q. q\<lparr>p_sz := sz\<rparr>)) (\<lambda>_.
        kbind (switchuvm cp) (\<lambda>_.
        kreturn 0)))))))"

section \<open>Giving up the processor\<close>

text \<open>
  \<^verbatim>\<open>sched\<close> checks that the caller holds \<^verbatim>\<open>ptable.lock\<close> and no other lock, that the process is
  not marked as running and that interrupts are off, and switches to the scheduler: the thread
  blocks. \<^verbatim>\<open>intena\<close> belongs to the thread, so the thread's saved value is what it finds again.
\<close>

definition sched :: "('r proc_state_scheme, 'a) K" where
  "sched =
     kbind myproc (\<lambda>cp.
     kbind (holding LPtable) (\<lambda>h.
     if \<not> h then kpanic ''sched ptable.lock''
     else
       kbind (kget ncli) (\<lambda>n.
       if n \<noteq> 1 then kpanic ''sched locks''
       else
         kbind (get_proc (the cp) p_state) (\<lambda>st.
         if st = RUNNING then kpanic ''sched running''
         else
           kbind (kget int_on) (\<lambda>ion.
           if ion then kpanic ''sched interruptible'' else kblock)))))"

text \<open>\<^verbatim>\<open>yield\<close> up to the switch, and what is left to do when the process runs again.\<close>

definition yield :: "('r proc_state_scheme, unit) K" where
  "yield =
     kbind (acquire LPtable) (\<lambda>_.
     kbind myproc (\<lambda>cp.
     kbind (upd_proc (the cp) (\<lambda>q. q\<lparr>p_state := RUNNABLE\<rparr>)) (\<lambda>_.
     kbind sched (\<lambda>_ :: unit.
     release LPtable))))"

text \<open>
  \<^verbatim>\<open>sleep(chan, lk)\<close>: the part before the switch, and \<open>sleep_resume\<close>, the part after it.
\<close>

definition sleep :: "chan \<Rightarrow> lock \<Rightarrow> ('r proc_state_scheme, 'a) K" where
  "sleep ch lk =
     kbind myproc (\<lambda>cp.
     case cp of
       None \<Rightarrow> kpanic ''sleep''
     | Some p \<Rightarrow>
         kbind (if lk \<noteq> LPtable then kbind (acquire LPtable) (\<lambda>_. release lk) else kreturn ()) (\<lambda>_.
         kbind (upd_proc p (\<lambda>q. q\<lparr>p_chan := Some ch, p_state := SLEEPING\<rparr>)) (\<lambda>_.
         sched)))"

definition sleep_resume :: "lock \<Rightarrow> ('r proc_state_scheme, unit) K" where
  "sleep_resume lk =
     kbind myproc (\<lambda>cp.
     kbind (upd_proc (the cp) (\<lambda>q. q\<lparr>p_chan := None\<rparr>)) (\<lambda>_.
     if lk \<noteq> LPtable then kbind (release LPtable) (\<lambda>_. acquire lk) else kreturn ()))"

section \<open>Waking up and killing\<close>

definition wake :: "chan \<Rightarrow> proc \<Rightarrow> proc" where
  "wake ch q = (if p_state q = SLEEPING \<and> p_chan q = Some ch then q\<lparr>p_state := RUNNABLE\<rparr> else q)"

definition wakeup1 :: "chan \<Rightarrow> ('r proc_state_scheme, unit) K" where
  "wakeup1 ch = kfor [0 ..< NPROC] (\<lambda>i. upd_proc i (wake ch))"

definition wakeup :: "chan \<Rightarrow> ('r proc_state_scheme, unit) K" where
  "wakeup ch =
     kbind (acquire LPtable) (\<lambda>_.
     kbind (wakeup1 ch) (\<lambda>_.
     release LPtable))"

definition kill :: "int \<Rightarrow> ('r proc_state_scheme, int) K" where
  "kill pid =
     kbind (acquire LPtable) (\<lambda>_.
     kbind (kget (\<lambda>s. List.find (\<lambda>i. p_pid (ptable s ! i) = pid) [0 ..< NPROC])) (\<lambda>found.
     case found of
       None \<Rightarrow> kbind (release LPtable) (\<lambda>_. kreturn (- 1))
     | Some p \<Rightarrow>
         kbind (upd_proc p (\<lambda>q. q\<lparr>p_killed := True\<rparr>)) (\<lambda>_.
         kbind (upd_proc p (\<lambda>q. if p_state q = SLEEPING then q\<lparr>p_state := RUNNABLE\<rparr> else q)) (\<lambda>_.
         kbind (release LPtable) (\<lambda>_.
         kreturn 0)))))"

section \<open>Effect of the table operations\<close>

text \<open>What a balanced \<^verbatim>\<open>pushcli\<close>, \<^verbatim>\<open>popcli\<close> leaves behind.\<close>

definition cli_touch :: "'r cpu_state_scheme \<Rightarrow> 'r cpu_state_scheme" where
  "cli_touch s = s\<lparr>intena := (if ncli s = 0 then int_on s else intena s),
                   int_on := (int_on s \<and> ncli s = 0)\<rparr>"

lemma cli_touch_sel [simp]:
  "ncli (cli_touch s) = ncli s" "held (cli_touch s) = held s"
  "int_on (cli_touch s) = (int_on s \<and> ncli s = 0)"
  "cpu_state.more (cli_touch s) = cpu_state.more s"
  by (simp_all add: cli_touch_def)

lemma proc_cli_touch [simp]:
  "mem (cli_touch s) = mem s" "kend (cli_touch s) = kend s" "freelist (cli_touch s) = freelist s"
  "ptable (cli_touch s') = ptable s'" "cur (cli_touch s') = cur s'"
  "nextpid (cli_touch s') = nextpid s'" "initproc (cli_touch s') = initproc s'"
  by (simp_all add: cli_touch_def)

lemma holding_eq: "holding lk s = Ok (lk \<in> held s) (cli_touch s)"
  by (auto simp: holding_def pushcli_def popcli_def k_defs cli_touch_def)

lemma myproc_eq: "myproc s = Ok (cur s) (cli_touch s)"
  by (auto simp: myproc_def pushcli_def popcli_def k_defs cli_touch_def)

lemma wp_myproc [wp_simps]: "wp myproc Q = (\<lambda>s. Q (cur s) (cli_touch s))"
  by (simp add: fun_eq_iff wp_def myproc_eq)

lemma wlp_myproc [wp_simps]: "wlp myproc Q = (\<lambda>s. Q (cur s) (cli_touch s))"
  by (simp add: fun_eq_iff wlp_def myproc_eq)

lemma upd_proc_all:
  "kfor [0 ..< n] (\<lambda>i. upd_proc i f) s =
     Ok () (s\<lparr>ptable := map f (take n (ptable s)) @ drop n (ptable s)\<rparr>)"
proof (induction n)
  case 0
  then show ?case by (simp add: kreturn_def)
next
  case (Suc n)
  have "(map f (take n ps) @ drop n ps)[n := f ((map f (take n ps) @ drop n ps) ! n)]
      = map f (take (Suc n) ps) @ drop (Suc n) ps" for ps :: "proc list"
  proof (cases "n < length ps")
    case True
    then have "drop n ps = ps ! n # drop (Suc n) ps" by (simp add: Cons_nth_drop_Suc)
    with True show ?thesis by (simp add: take_Suc_conv_app_nth list_update_append nth_append)
  next
    case False
    then show ?thesis by (simp add: list_update_beyond)
  qed
  with Suc show ?case
    by (simp add: kfor_append kbind_def upd_proc_def kmod_def kreturn_def)
qed

definition wake_all :: "chan \<Rightarrow> proc list \<Rightarrow> proc list" where
  "wake_all ch ps = map (wake ch) (take NPROC ps) @ drop NPROC ps"

lemma wakeup1_eq: "wakeup1 ch s = Ok () (s\<lparr>ptable := wake_all ch (ptable s)\<rparr>)"
  by (simp add: wakeup1_def upd_proc_all wake_all_def)

definition wakes :: "chan \<Rightarrow> 'r proc_state_scheme \<Rightarrow> 'r proc_state_scheme" where
  "wakes ch s = rel LPtable ((acq LPtable s)\<lparr>ptable := wake_all ch (ptable s)\<rparr>)"

lemma wakes_sel [simp]:
  "ptable (wakes ch s) = wake_all ch (ptable s)" "ncli (wakes ch s) = ncli s"
  "LPtable \<notin> held s \<Longrightarrow> held (wakes ch s) = held s" "cur (wakes ch s) = cur s"
  "mem (wakes ch s) = mem s" "kend (wakes ch s) = kend s" "freelist (wakes ch s) = freelist s"
  "nextpid (wakes ch s) = nextpid s" "initproc (wakes ch s) = initproc s"
  "proc_state.more (wakes ch s) = proc_state.more s"
  by (auto simp: wakes_def acq_def rel_def)

lemma wakeup_eq: "LPtable \<notin> held s \<Longrightarrow> wakeup ch s = Ok () (wakes ch s)"
  by (simp add: wakeup_def kbind_def acquire_eq wakeup1_eq release_eq wakes_def)

lemma wakeup_held: "LPtable \<in> held s \<Longrightarrow> wakeup ch s = Panic ''acquire''"
  by (simp add: wakeup_def kbind_def acquire_eq)

lemma wp_wakeup [wp_simps]: "wp (wakeup ch) Q = (\<lambda>s. LPtable \<notin> held s \<and> Q () (wakes ch s))"
proof (rule ext)
  show "wp (wakeup ch) Q s = (LPtable \<notin> held s \<and> Q () (wakes ch s))" for s
    by (cases "LPtable \<in> held s") (simp_all add: wp_def wakeup_eq wakeup_held)
qed

lemma wlp_wakeup [wp_simps]: "wlp (wakeup ch) Q = (\<lambda>s. LPtable \<notin> held s \<longrightarrow> Q () (wakes ch s))"
proof (rule ext)
  show "wlp (wakeup ch) Q s = (LPtable \<notin> held s \<longrightarrow> Q () (wakes ch s))" for s
    by (cases "LPtable \<in> held s") (simp_all add: wlp_def wakeup_eq wakeup_held)
qed

lemma sched_not_Ok: "sched s \<noteq> Ok a t"
  by (auto simp: sched_def k_defs get_proc_def myproc_eq holding_eq split: if_splits)

lemma sleep_not_Ok: "sleep ch lk s \<noteq> Ok a t"
  by (auto simp: sleep_def kbind_Ok_iff sched_not_Ok split: option.splits)
    (auto simp: kpanic_def kbind_Ok_iff sched_not_Ok)

lemma wlp_sleep [wp_simps]: "wlp (sleep ch lk) Q = (\<lambda>s. True)"
  by (auto simp: fun_eq_iff wlp_def sleep_not_Ok split: outcome.split)

lemma wp_sleep [wp_simps]: "wp (sleep ch lk) Q = (\<lambda>s. False)"
  by (auto simp: fun_eq_iff wp_iff_Ok sleep_not_Ok)

lemma wlp_get_proc [wp_simps]: "wlp (get_proc i f) Q = (\<lambda>s. Q (f (ptable s ! i)) s)"
  by (simp add: get_proc_def wp_simps)

lemma wp_get_proc [wp_simps]: "wp (get_proc i f) Q = (\<lambda>s. Q (f (ptable s ! i)) s)"
  by (simp add: get_proc_def wp_simps)

lemma wpb_myproc [wp_simps]: "wpb myproc Q B = (\<lambda>s. Q (cur s) (cli_touch s))"
  by (simp add: fun_eq_iff wpb_def myproc_eq)

lemma wpb_get_proc [wp_simps]: "wpb (get_proc i f) Q B = (\<lambda>s. Q (f (ptable s ! i)) s)"
  by (simp add: get_proc_def wp_simps)

lemma wpb_wakeup [wp_simps]: "wpb (wakeup ch) Q B = (\<lambda>s. LPtable \<notin> held s \<and> Q () (wakes ch s))"
proof (rule ext)
  show "wpb (wakeup ch) Q B s = (LPtable \<notin> held s \<and> Q () (wakes ch s))" for s
    by (cases "LPtable \<in> held s") (simp_all add: wpb_def wakeup_eq wakeup_held)
qed

text \<open>A running process that holds one spin lock and goes to sleep on it: it gives the lock back in the same step.\<close>

definition asleep :: "nat \<Rightarrow> chan \<Rightarrow> 'r proc_state_scheme \<Rightarrow> 'r proc_state_scheme" where
  "asleep p ch s = s\<lparr>int_on := False, held := {LPtable},
     ptable := (ptable s)[p := (ptable s ! p)\<lparr>p_chan := Some ch, p_state := SLEEPING\<rparr>]\<rparr>"

lemma sleep_eq:
  assumes "cur s = Some p" "held s = {lk}" "lk \<noteq> LPtable" "ncli s = 1" "p < length (ptable s)"
  shows "sleep ch lk s = Block (asleep p ch s)"
proof -
  have "{LPtable, lk} - {lk} = {LPtable}" using assms(3) by auto
  then show ?thesis
    using assms
    by (simp add: sleep_def sched_def kbind_def myproc_eq holding_eq acquire_eq release_eq k_defs upd_proc_def get_proc_def)
      (cases s, simp add: acq_def rel_def cli_touch_def asleep_def One_nat_def)
qed

lemma wpb_sleep:
  assumes "cur s = Some p" "held s = {lk}" "lk \<noteq> LPtable" "ncli s = 1" "p < length (ptable s)"
  shows "wpb (sleep ch lk) Q B s = B (asleep p ch s)"
  by (simp add: wpb_def sleep_eq [OF assms])


lemma length_wake_all [simp]: "length (wake_all ch ps) = length ps"
  by (simp add: wake_all_def)

text \<open>A process at the beginning of a system call: it runs and holds no spin lock.\<close>

definition running :: "nat \<Rightarrow> 'r proc_state_scheme \<Rightarrow> bool" where
  "running cp s \<longleftrightarrow> cur s = Some cp \<and> cp < length (ptable s) \<and> held s = {} \<and> ncli s = 0"

text \<open>No process waits on a channel.\<close>

definition none_wait :: "chan \<Rightarrow> proc list \<Rightarrow> bool" where
  "none_wait ch ps \<longleftrightarrow> (\<forall>i < NPROC. i < length ps \<longrightarrow> p_state (ps ! i) = SLEEPING \<longrightarrow> p_chan (ps ! i) \<noteq> Some ch)"

lemma none_wait_wakes [simp]: "none_wait ch (wake_all ch ps)"
  by (auto simp: none_wait_def wake_all_def wake_def nth_append split: if_splits)

lemma none_wait_asleep: "none_wait ch (ptable s) \<Longrightarrow> ch' \<noteq> ch \<Longrightarrow> none_wait ch (ptable (asleep cp ch' s))"
  unfolding none_wait_def
proof (intro allI impI)
  fix i
  assume "\<forall>i<NPROC. i < length (ptable s) \<longrightarrow> p_state (ptable s ! i) = SLEEPING \<longrightarrow> p_chan (ptable s ! i) \<noteq> Some ch"
    and "ch' \<noteq> ch" "i < NPROC" "i < length (ptable (asleep cp ch' s))" "p_state (ptable (asleep cp ch' s) ! i) = SLEEPING"
  then show "p_chan (ptable (asleep cp ch' s) ! i) \<noteq> Some ch" by (cases "i = cp") (auto simp: asleep_def)
qed

definition waits :: "nat \<Rightarrow> chan \<Rightarrow> 'r proc_state_scheme \<Rightarrow> bool" where
  "waits cp ch s \<longleftrightarrow> p_state (ptable s ! cp) = SLEEPING \<and> p_chan (ptable s ! cp) = Some ch \<and> held s = {LPtable}"

lemma waits_asleep: "cp < length (ptable s) \<Longrightarrow> waits cp ch (asleep cp ch s)"
  by (simp add: waits_def asleep_def)

text \<open>A process for the concrete states of the examples.\<close>

definition ex_proc :: proc where
  "ex_proc = \<lparr>p_sz = 0, p_pgdir = 0, p_kstack = 0, p_state = RUNNING, p_pid = 1, p_parent = None, p_tf = zero_tf,
     p_context = zero_context, p_chan = None, p_killed = False, p_ofile = replicate NOFILE None, p_cwd = None, p_name = []\<rparr>"

section \<open>The scheduler\<close>

text \<open>
  One pass of \<^verbatim>\<open>scheduler\<close>'s loop over the process table. \<open>run p\<close> stands for everything that
  happens from \<^verbatim>\<open>swtch(&c->scheduler, p->context)\<close> until control comes back: the process's own
  code, which is user code and kernel calls.
\<close>

definition sched_turn :: "(nat \<Rightarrow> ('r proc_state_scheme, unit) K) \<Rightarrow> nat \<Rightarrow> ('r proc_state_scheme, unit) K" where
  "sched_turn run p =
     kbind (get_proc p p_state) (\<lambda>st.
     if st \<noteq> RUNNABLE then kreturn ()
     else
       kbind (kmod (\<lambda>s. s\<lparr>cur := Some p\<rparr>)) (\<lambda>_.
       kbind (switchuvm (Some p)) (\<lambda>_.
       kbind (upd_proc p (\<lambda>q. q\<lparr>p_state := RUNNING\<rparr>)) (\<lambda>_.
       kbind (run p) (\<lambda>_.
       kbind switchkvm (\<lambda>_.
       kmod (\<lambda>s. s\<lparr>cur := None\<rparr>)))))))"

definition scheduler_pass :: "(nat \<Rightarrow> ('r proc_state_scheme, unit) K) \<Rightarrow> ('r proc_state_scheme, unit) K" where
  "scheduler_pass run =
     kbind (kmod (\<lambda>s. s\<lparr>int_on := True\<rparr>)) (\<lambda>_.
     kbind (acquire LPtable) (\<lambda>_.
     kbind (kfor [0 ..< NPROC] (sched_turn run)) (\<lambda>_.
     release LPtable)))"

end
