(* ===== verification/Sleeplock.thy ===== *)
theory Sleeplock
  imports Proc
begin

text \<open>
  Sleep locks (\<^verbatim>\<open>sleeplock.c\<close>). The C functions take a pointer to a \<^verbatim>\<open>struct sleeplock\<close> inside a
  buffer or an inode; here they take how to read and write that field, the spin lock inside it
  and its channel. The locale \<open>sleep_field\<close> states what such a field has to satisfy; the buffer
  cache and the inode cache interpret it on their own locks.
\<close>

record sleeplock =
  sl_locked :: bool
  sl_pid :: int

definition initsleeplock :: sleeplock where
  "initsleeplock = \<lparr>sl_locked = False, sl_pid = 0\<rparr>"

definition acquiresleep ::
  "('r proc_state_scheme \<Rightarrow> sleeplock) \<Rightarrow> (sleeplock \<Rightarrow> 'r proc_state_scheme \<Rightarrow> 'r proc_state_scheme) \<Rightarrow>
   lock \<Rightarrow> chan \<Rightarrow> ('r proc_state_scheme, unit) K" where
  "acquiresleep get put lk ch =
     kbind (acquire lk) (\<lambda>_.
     kbind (kget get) (\<lambda>l.
     if sl_locked l then sleep ch lk
     else
       kbind myproc (\<lambda>cp.
       kbind (get_proc (the cp) p_pid) (\<lambda>pid.
       kbind (kmod (put \<lparr>sl_locked = True, sl_pid = pid\<rparr>)) (\<lambda>_.
       release lk)))))"

definition releasesleep ::
  "(sleeplock \<Rightarrow> 'r proc_state_scheme \<Rightarrow> 'r proc_state_scheme) \<Rightarrow> lock \<Rightarrow> chan \<Rightarrow>
   ('r proc_state_scheme, unit) K" where
  "releasesleep put lk ch =
     kbind (acquire lk) (\<lambda>_.
     kbind (kmod (put \<lparr>sl_locked = False, sl_pid = 0\<rparr>)) (\<lambda>_.
     kbind (wakeup ch) (\<lambda>_.
     release lk)))"

definition holdingsleep ::
  "('r proc_state_scheme \<Rightarrow> sleeplock) \<Rightarrow> lock \<Rightarrow> ('r proc_state_scheme, bool) K" where
  "holdingsleep get lk =
     kbind (acquire lk) (\<lambda>_.
     kbind (kget get) (\<lambda>l.
     kbind myproc (\<lambda>cp.
     kbind (get_proc (the cp) p_pid) (\<lambda>pid.
     kbind (release lk) (\<lambda>_.
     kreturn (sl_locked l \<and> sl_pid l = pid))))))"

section \<open>What the lock calls do not touch\<close>

text \<open>The pid of the running process, what \<^verbatim>\<open>myproc()->pid\<close> reads.\<close>

definition cur_pid :: "'r proc_state_scheme \<Rightarrow> int" where
  "cur_pid s = p_pid (ptable s ! the (cur s))"

text \<open>
  Everything of the state up to the process table except the interrupt flags and the run
  states that a \<^verbatim>\<open>wakeup\<close> may change. \<open>low s' = low s\<close> is the frame condition of an operation
  that takes and releases locks and wakes sleepers.
\<close>

definition low :: "'r proc_state_scheme \<Rightarrow> proc_state" where
  "low s = (proc_state.truncate s)\<lparr>intena := False, int_on := False,
     ptable := map (\<lambda>p. p\<lparr>p_state := UNUSED\<rparr>) (ptable s)\<rparr>"

lemmas low_defs = low_def proc_state.defs

lemma low_cli [simp]: "low (cli_touch s) = low s"
  by (simp add: low_defs cli_touch_def)

lemma low_wakes [simp]: "LPtable \<notin> held s \<Longrightarrow> low (wakes c s) = low s"
proof -
  have "(\<lambda>p. p\<lparr>p_state := UNUSED\<rparr>) \<circ> wake c = (\<lambda>p. p\<lparr>p_state := UNUSED\<rparr>)"
    by (auto simp: wake_def fun_eq_iff)
  then have "map (\<lambda>p. p\<lparr>p_state := UNUSED\<rparr>) (wake_all c ps) = map (\<lambda>p. p\<lparr>p_state := UNUSED\<rparr>) ps" for ps
    by (simp add: wake_all_def) (metis append_take_drop_id map_append)
  then show "LPtable \<notin> held s \<Longrightarrow> low (wakes c s) = low s"
    by (simp add: low_defs wakes_def rel_def acq_def)
qed

lemma low_acq: "low s' = low s \<Longrightarrow> low (acq lk s') = low (acq lk s)"
  by (simp add: low_defs acq_def)

lemma low_rel: "low s' = low s \<Longrightarrow> low (rel lk s') = low (rel lk s)"
  by (simp add: low_defs rel_def)

lemma low_rel_acq [simp]: "lk \<notin> held s \<Longrightarrow> low (rel lk (acq lk s)) = low s"
  by (simp add: low_defs acq_def rel_def)

lemma low_bracket: "lk \<notin> held t \<Longrightarrow> low u = low (acq lk t) \<Longrightarrow> low (rel lk u) = low t"
  using low_rel [of u "acq lk t" lk] by simp

text \<open>The same as rewrite rules, for states built from several such steps.\<close>

lemma low_acq_eq: "low (acq lk s) = (low s)\<lparr>ncli := ncli s + 1, held := insert lk (held s)\<rparr>"
  by (simp add: low_defs acq_def)

lemma low_rel_eq: "low (rel lk s) = (low s)\<lparr>ncli := ncli s - 1, held := held s - {lk}\<rparr>"
  by (simp add: low_defs rel_def)

lemma low_idem: "(low s)\<lparr>ncli := ncli s, held := held s\<rparr> = low s"
  by (simp add: low_defs)

lemmas low_simps = low_acq_eq low_rel_eq low_idem

lemma lowD:
  assumes "low s' = low s"
  shows "held s' = held s" "ncli s' = ncli s" "cur s' = cur s" "mem s' = mem s"
    "kend s' = kend s" "freelist s' = freelist s" "use_lock s' = use_lock s"
    "initproc s' = initproc s" "nextpid s' = nextpid s"
    "map (\<lambda>p. p\<lparr>p_state := UNUSED\<rparr>) (ptable s') = map (\<lambda>p. p\<lparr>p_state := UNUSED\<rparr>) (ptable s)"
  using assms by (simp_all add: low_defs)

lemma nth_beyond_same: "length xs = length ys \<Longrightarrow> length xs \<le> i \<Longrightarrow> xs ! i = ys ! i"
proof (induction xs ys arbitrary: i rule: list_induct2)
  case Nil
  then show ?case by simp
next
  case (Cons x xs y ys)
  then show ?case by (cases i) auto
qed

lemma low_cur_pid: "low s' = low s \<Longrightarrow> cur_pid s' = cur_pid s"
proof -
  assume l: "low s' = low s"
  let ?i = "the (cur s)"
  from lowD(10) [OF l] have len: "length (ptable s') = length (ptable s)" by (rule map_eq_imp_length_eq)
  have "p_pid (ptable s' ! ?i) = p_pid (ptable s ! ?i)"
  proof (cases "?i < length (ptable s)")
    case True
    with lowD(10) [OF l] len have
      "(ptable s' ! ?i)\<lparr>p_state := UNUSED\<rparr> = (ptable s ! ?i)\<lparr>p_state := UNUSED\<rparr>"
      by (metis nth_map)
    then show ?thesis by (metis proc.select_convs(5) proc.surjective proc.update_convs(4))
  next
    case False
    then show ?thesis using nth_beyond_same [OF len, of ?i] len by simp
  qed
  then show ?thesis by (simp add: cur_pid_def lowD(3) [OF l])
qed

section \<open>The contract\<close>

text \<open>The effect of a call that returns.\<close>

definition sl_take :: "(sleeplock \<Rightarrow> 'r proc_state_scheme \<Rightarrow> 'r proc_state_scheme) \<Rightarrow> lock \<Rightarrow>
    'r proc_state_scheme \<Rightarrow> 'r proc_state_scheme" where
  "sl_take put lk s = rel lk (put \<lparr>sl_locked = True, sl_pid = cur_pid s\<rparr> (cli_touch (acq lk s)))"

definition sl_drop :: "(sleeplock \<Rightarrow> 'r proc_state_scheme \<Rightarrow> 'r proc_state_scheme) \<Rightarrow> lock \<Rightarrow> chan \<Rightarrow>
    'r proc_state_scheme \<Rightarrow> 'r proc_state_scheme" where
  "sl_drop put lk ch s = rel lk (wakes ch (put \<lparr>sl_locked = False, sl_pid = 0\<rparr> (acq lk s)))"

definition sl_touch :: "lock \<Rightarrow> 'r proc_state_scheme \<Rightarrow> 'r proc_state_scheme" where
  "sl_touch lk s = rel lk (cli_touch (acq lk s))"

text \<open>
  A sleep-lock field: writing it is read back, and it is apart from the processor's
  bookkeeping and the process table.
\<close>

locale sleep_field =
  fixes get :: "'r proc_state_scheme \<Rightarrow> sleeplock"
    and put :: "sleeplock \<Rightarrow> 'r proc_state_scheme \<Rightarrow> 'r proc_state_scheme"
    and valid :: "'r proc_state_scheme \<Rightarrow> bool"
    and lk :: lock and ch :: chan
  assumes get_put: "valid s \<Longrightarrow> get (put l s) = l"
    and put_low [simp]: "low (put l s) = low s"
    and get_acq [simp]: "get (acq m s) = get s" "get (rel m s) = get s" "get (cli_touch s) = get s"
      "get (wakes c s) = get s"
    and valid_acq [simp]: "valid (acq m s) = valid s" "valid (rel m s) = valid s"
      "valid (cli_touch s) = valid s" "valid (wakes c s) = valid s" "valid (put l s) = valid s"
    and lk_not_ptable: "lk \<noteq> LPtable"
begin

lemma put_held [simp]: "held (put l s) = held s" "ncli (put l s) = ncli s"
  by (simp_all add: lowD [OF put_low])

text \<open>\<^verbatim>\<open>acquiresleep\<close> returns exactly when the lock is free.\<close>

lemma acquiresleep_wlp:
  "wlp (acquiresleep get put lk ch) Q =
     (\<lambda>s. lk \<notin> held s \<longrightarrow> \<not> sl_locked (get s) \<longrightarrow> Q () (sl_take put lk s))"
  by (auto simp: acquiresleep_def wp_simps cur_pid_def sl_take_def)

lemma acquiresleep_wp:
  "wp (acquiresleep get put lk ch) Q =
     (\<lambda>s. lk \<notin> held s \<and> \<not> sl_locked (get s) \<and> Q () (sl_take put lk s))"
  by (auto simp: fun_eq_iff acquiresleep_def wp_simps cur_pid_def sl_take_def)

lemma holdingsleep_wlp:
  "wlp (holdingsleep get lk) Q =
     (\<lambda>s. lk \<notin> held s \<longrightarrow> Q (sl_locked (get s) \<and> sl_pid (get s) = cur_pid s) (sl_touch lk s))"
  by (auto simp: fun_eq_iff holdingsleep_def wp_simps cur_pid_def sl_touch_def)

lemma holdingsleep_wp:
  "wp (holdingsleep get lk) Q =
     (\<lambda>s. lk \<notin> held s \<and> Q (sl_locked (get s) \<and> sl_pid (get s) = cur_pid s) (sl_touch lk s))"
  by (auto simp: fun_eq_iff holdingsleep_def wp_simps cur_pid_def sl_touch_def)

lemma releasesleep_wlp:
  "wlp (releasesleep put lk ch) Q =
     (\<lambda>s. lk \<notin> held s \<longrightarrow> LPtable \<notin> held s \<longrightarrow> Q () (sl_drop put lk ch s))"
  using lk_not_ptable by (auto simp: fun_eq_iff releasesleep_def wp_simps sl_drop_def)

lemma releasesleep_wp:
  "wp (releasesleep put lk ch) Q =
     (\<lambda>s. lk \<notin> held s \<and> LPtable \<notin> held s \<and> Q () (sl_drop put lk ch s))"
  using lk_not_ptable by (auto simp: fun_eq_iff releasesleep_def wp_simps sl_drop_def)

text \<open>The three effects keep \<open>low\<close>, and take and drop set the lock.\<close>

lemma low_take: "lk \<notin> held s \<Longrightarrow> low (sl_take put lk s) = low s"
  unfolding sl_take_def by (subst low_rel [where s = "acq lk s"]) simp_all

lemma low_touch: "lk \<notin> held s \<Longrightarrow> low (sl_touch lk s) = low s"
  unfolding sl_touch_def by (subst low_rel [where s = "acq lk s"]) simp_all

lemma low_drop: "lk \<notin> held s \<Longrightarrow> LPtable \<notin> held s \<Longrightarrow> low (sl_drop put lk ch s) = low s"
  unfolding sl_drop_def using lk_not_ptable
  by (subst low_rel [where s = "acq lk s"]) simp_all

lemma get_take: "valid s \<Longrightarrow> get (sl_take put lk s) = \<lparr>sl_locked = True, sl_pid = cur_pid s\<rparr>"
  by (simp add: sl_take_def get_put)

lemma get_drop: "valid s \<Longrightarrow> \<not> sl_locked (get (sl_drop put lk ch s))"
  by (simp add: sl_drop_def get_put)

text \<open>A second \<^verbatim>\<open>acquiresleep\<close> never succeeds while the lock is held.\<close>

lemma acquiresleep_excludes:
  assumes "sl_locked (get s)"
  shows "acquiresleep get put lk ch s \<noteq> Ok u t"
  using assms by (auto simp: acquiresleep_def kbind_Ok_iff acquire_eq kget_def sleep_not_Ok)

end

end
