(* ===== verification/Bio.thy ===== *)
theory Bio
  imports Sleeplock
begin

text \<open>
  The buffer cache (\<^verbatim>\<open>bio.c\<close>) over the synchronous disk driver of the \<^verbatim>\<open>kernelmemfs\<close> build
  (\<^verbatim>\<open>memide.c\<close>). A buffer pointer is an index into \<^verbatim>\<open>bcache.buf\<close>; the doubly linked list is the
  list of indices from \<^verbatim>\<open>head.next\<close> on, most recently used first.
  \<^verbatim>\<open>B_VALID\<close> and \<^verbatim>\<open>B_DIRTY\<close> are the only bits of \<^verbatim>\<open>flags\<close> and are two fields.

  The disk also records the sequence of writes it received, which theory Log uses to say
  what a crash leaves behind.
\<close>

section \<open>State\<close>

definition BSIZE :: nat where "BSIZE = 512"
definition NBUF :: nat where "NBUF = 30"
definition ROOTDEV :: nat where "ROOTDEV = 1"

record buf =
  b_valid :: bool
  b_dirty :: bool
  b_dev :: nat
  b_blockno :: nat
  b_lock :: sleeplock
  b_refcnt :: nat
  b_data :: "byte list"

type_synonym diskimg = "nat \<Rightarrow> byte list"

record bio_state = proc_state +
  bufs :: "buf list"                       \<comment> \<open>\<^verbatim>\<open>bcache.buf\<close>\<close>
  lru :: "nat list"                        \<comment> \<open>the list through \<^verbatim>\<open>head\<close>, most recent first\<close>
  disk :: diskimg                          \<comment> \<open>\<^verbatim>\<open>memdisk\<close>, one entry per block\<close>
  disksize :: nat                          \<comment> \<open>in blocks\<close>
  dwrites :: "(nat \<times> byte list) list"      \<comment> \<open>the block writes the disk has received, in order\<close>

lemma bio_acq_rel [simp]:
  "bufs (acq lk s) = bufs s" "bufs (rel lk s) = bufs s" "bufs (cli_touch s) = bufs s"
  "bufs (wakes c s) = bufs s"
  "lru (acq lk s) = lru s" "lru (rel lk s) = lru s" "lru (cli_touch s) = lru s" "lru (wakes c s) = lru s"
  "disk (acq lk s) = disk s" "disk (rel lk s) = disk s" "disk (cli_touch s) = disk s"
  "disk (wakes c s) = disk s"
  "disksize (acq lk s) = disksize s" "disksize (rel lk s) = disksize s"
  "disksize (cli_touch s) = disksize s" "disksize (wakes c s) = disksize s"
  "dwrites (acq lk s) = dwrites s" "dwrites (rel lk s) = dwrites s"
  "dwrites (cli_touch s) = dwrites s" "dwrites (wakes c s) = dwrites s"
  by (simp_all add: acq_def rel_def cli_touch_def wakes_def)

definition get_buf :: "nat \<Rightarrow> (buf \<Rightarrow> 'a) \<Rightarrow> ('r bio_state_scheme, 'a) K" where
  "get_buf b f = kget (\<lambda>s. f (bufs s ! b))"

definition upd_buf :: "nat \<Rightarrow> (buf \<Rightarrow> buf) \<Rightarrow> ('r bio_state_scheme, unit) K" where
  "upd_buf b f = kmod (\<lambda>s. s\<lparr>bufs := (bufs s)[b := f (bufs s ! b)]\<rparr>)"

text \<open>The buffer's sleep lock \<^verbatim>\<open>b->lock\<close>.\<close>

definition buf_lock :: "nat \<Rightarrow> 'r bio_state_scheme \<Rightarrow> sleeplock" where
  "buf_lock b s = b_lock (bufs s ! b)"

definition set_buf_lock :: "nat \<Rightarrow> sleeplock \<Rightarrow> 'r bio_state_scheme \<Rightarrow> 'r bio_state_scheme" where
  "set_buf_lock b l s = s\<lparr>bufs := (bufs s)[b := (bufs s ! b)\<lparr>b_lock := l\<rparr>]\<rparr>"

definition acquiresleep_buf :: "nat \<Rightarrow> ('r bio_state_scheme, unit) K" where
  "acquiresleep_buf b = acquiresleep (buf_lock b) (set_buf_lock b) (LBufSl b) (ChanBufLock b)"

definition releasesleep_buf :: "nat \<Rightarrow> ('r bio_state_scheme, unit) K" where
  "releasesleep_buf b = releasesleep (set_buf_lock b) (LBufSl b) (ChanBufLock b)"

definition holdingsleep_buf :: "nat \<Rightarrow> ('r bio_state_scheme, bool) K" where
  "holdingsleep_buf b = holdingsleep (buf_lock b) (LBufSl b)"

section \<open>The disk driver\<close>

text \<open>\<^verbatim>\<open>iderw\<close> of \<^verbatim>\<open>memide.c\<close>.\<close>

definition iderw :: "nat \<Rightarrow> ('r bio_state_scheme, unit) K" where
  "iderw b =
     kbind (holdingsleep_buf b) (\<lambda>h.
     if \<not> h then kpanic ''iderw: buf not locked''
     else
       kbind (kget (\<lambda>s. (bufs s ! b, disksize s))) (\<lambda>(bf, dsz).
       if b_valid bf \<and> \<not> b_dirty bf then kpanic ''iderw: nothing to do''
       else if b_dev bf \<noteq> 1 then kpanic ''iderw: request not for disk 1''
       else if dsz \<le> b_blockno bf then kpanic ''iderw: block out of range''
       else
         kbind (if b_dirty bf then
                  kbind (upd_buf b (\<lambda>f. f\<lparr>b_dirty := False\<rparr>)) (\<lambda>_.
                  kmod (\<lambda>s. s\<lparr>disk := (disk s)(b_blockno bf := b_data bf),
                              dwrites := dwrites s @ [(b_blockno bf, b_data bf)]\<rparr>))
                else kbind (kget disk) (\<lambda>d. upd_buf b (\<lambda>f. f\<lparr>b_data := d (b_blockno bf)\<rparr>))) (\<lambda>_.
         upd_buf b (\<lambda>f. f\<lparr>b_valid := True\<rparr>))))"

section \<open>The cache\<close>

text \<open>\<^verbatim>\<open>binit\<close>: each buffer is linked in at the head, so the last one comes first.\<close>

definition binit :: "('r bio_state_scheme, unit) K" where
  "binit =
     kfor [0 ..< NBUF] (\<lambda>b.
       kbind (kmod (\<lambda>s. s\<lparr>lru := b # lru s\<rparr>)) (\<lambda>_.
       upd_buf b (\<lambda>f. f\<lparr>b_lock := initsleeplock\<rparr>)))"

definition bget :: "nat \<Rightarrow> nat \<Rightarrow> ('r bio_state_scheme, nat) K" where
  "bget dev blockno =
     kbind (acquire LBcache) (\<lambda>_.
     kbind (kget (\<lambda>s. List.find (\<lambda>b. b_dev (bufs s ! b) = dev \<and> b_blockno (bufs s ! b) = blockno)
                                (lru s))) (\<lambda>hit.
     case hit of
       Some b \<Rightarrow>
         kbind (upd_buf b (\<lambda>f. f\<lparr>b_refcnt := b_refcnt f + 1\<rparr>)) (\<lambda>_.
         kbind (release LBcache) (\<lambda>_.
         kbind (acquiresleep_buf b) (\<lambda>_.
         kreturn b)))
     | None \<Rightarrow>
         kbind (kget (\<lambda>s. List.find (\<lambda>b. b_refcnt (bufs s ! b) = 0 \<and> \<not> b_dirty (bufs s ! b))
                                    (rev (lru s)))) (\<lambda>free.
         case free of
           Some b \<Rightarrow>
             kbind (upd_buf b (\<lambda>f. f\<lparr>b_dev := dev, b_blockno := blockno, b_valid := False,
                                     b_dirty := False, b_refcnt := 1\<rparr>)) (\<lambda>_.
             kbind (release LBcache) (\<lambda>_.
             kbind (acquiresleep_buf b) (\<lambda>_.
             kreturn b)))
         | None \<Rightarrow> kpanic ''bget: no buffers'')))"

definition bread :: "nat \<Rightarrow> nat \<Rightarrow> ('r bio_state_scheme, nat) K" where
  "bread dev blockno =
     kbind (bget dev blockno) (\<lambda>b.
     kbind (get_buf b b_valid) (\<lambda>v.
     kbind (if \<not> v then iderw b else kreturn ()) (\<lambda>_.
     kreturn b)))"

definition bwrite :: "nat \<Rightarrow> ('r bio_state_scheme, unit) K" where
  "bwrite b =
     kbind (holdingsleep_buf b) (\<lambda>h.
     if \<not> h then kpanic ''bwrite''
     else
       kbind (upd_buf b (\<lambda>f. f\<lparr>b_dirty := True\<rparr>)) (\<lambda>_.
       iderw b))"

definition brelse :: "nat \<Rightarrow> ('r bio_state_scheme, unit) K" where
  "brelse b =
     kbind (holdingsleep_buf b) (\<lambda>h.
     if \<not> h then kpanic ''brelse''
     else
       kbind (releasesleep_buf b) (\<lambda>_.
       kbind (acquire LBcache) (\<lambda>_.
       kbind (upd_buf b (\<lambda>f. f\<lparr>b_refcnt := b_refcnt f - 1\<rparr>)) (\<lambda>_.
       kbind (get_buf b b_refcnt) (\<lambda>n.
       kbind (if n = 0 then kmod (\<lambda>s. s\<lparr>lru := b # remove1 b (lru s)\<rparr>) else kreturn ()) (\<lambda>_.
       release LBcache))))))"

section \<open>Invariant and abstraction\<close>

text \<open>
  Two buffers never hold the same block of a disk other than device 0 (which is what an unused
  buffer carries); a buffer not in use is unlocked; only blocks of the disk are dirty; a valid buffer that is neither dirty nor in
  some process's hands agrees with the disk.
\<close>

definition buf_ok :: "diskimg \<Rightarrow> buf \<Rightarrow> bool" where
  "buf_ok d f \<longleftrightarrow> length (b_data f) = BSIZE \<and>
     (sl_locked (b_lock f) \<longrightarrow> 0 < b_refcnt f) \<and>
     (b_dirty f \<longrightarrow> b_valid f \<and> b_dev f = 1) \<and>
     (\<not> sl_locked (b_lock f) \<longrightarrow> b_valid f \<longrightarrow> \<not> b_dirty f \<longrightarrow> b_dev f = 1 \<longrightarrow>
        b_data f = d (b_blockno f))"

definition bufs_uniq :: "buf list \<Rightarrow> bool" where
  "bufs_uniq bs \<longleftrightarrow>
     (\<forall>b < NBUF. \<forall>c < NBUF. b_dev (bs ! b) \<noteq> 0 \<longrightarrow> b_dev (bs ! b) = b_dev (bs ! c) \<longrightarrow>
        b_blockno (bs ! b) = b_blockno (bs ! c) \<longrightarrow> b = c)"

definition cache_inv :: "buf list \<Rightarrow> nat list \<Rightarrow> diskimg \<Rightarrow> bool" where
  "cache_inv bs l d \<longleftrightarrow>
     length bs = NBUF \<and> distinct l \<and> set l = {..< NBUF} \<and>
     (\<forall>b < NBUF. buf_ok d (bs ! b)) \<and> bufs_uniq bs \<and> (\<forall>n. length (d n) = BSIZE)"

abbreviation bio_inv :: "'r bio_state_scheme \<Rightarrow> bool" where
  "bio_inv s \<equiv> cache_inv (bufs s) (lru s) (disk s)"

text \<open>The logical content of block \<open>n\<close> of the file system disk.\<close>

definition holds :: "buf \<Rightarrow> nat \<Rightarrow> bool" where
  "holds f n \<longleftrightarrow> b_dev f = 1 \<and> b_blockno f = n"

definition cache_blk :: "buf list \<Rightarrow> diskimg \<Rightarrow> nat \<Rightarrow> byte list" where
  "cache_blk bs d n = (case List.find (\<lambda>b. holds (bs ! b) n \<and> b_valid (bs ! b)) [0 ..< NBUF] of
                         Some b \<Rightarrow> b_data (bs ! b)
                       | None \<Rightarrow> d n)"

abbreviation blk :: "'r bio_state_scheme \<Rightarrow> nat \<Rightarrow> byte list" where
  "blk s \<equiv> cache_blk (bufs s) (disk s)"

lemma find_Some_iff2:
  "List.find P xs = Some x \<Longrightarrow> P x \<and> x \<in> set xs"
  by (induction xs) (auto split: if_splits)

lemma cache_inv_uniq:
  assumes "cache_inv bs l d" and "b < NBUF" "c < NBUF" "b_dev (bs ! b) \<noteq> 0"
    "b_dev (bs ! b) = b_dev (bs ! c)" "b_blockno (bs ! b) = b_blockno (bs ! c)"
  shows "b = c"
  using assms unfolding cache_inv_def bufs_uniq_def by metis

lemma cache_invD:
  assumes "cache_inv bs l d"
  shows "length bs = NBUF" "distinct l" "set l = {..< NBUF}" "b < NBUF \<Longrightarrow> buf_ok d (bs ! b)"
    "length (d n) = BSIZE"
  using assms unfolding cache_inv_def by blast+

lemma cache_blk_none: "(\<And>b. b < NBUF \<Longrightarrow> \<not> holds (bs ! b) n) \<Longrightarrow> cache_blk bs d n = d n"
  by (auto simp: cache_blk_def split: option.split dest!: find_Some_iff2)

lemma cache_blk_held:
  assumes "cache_inv bs l d'" and b: "b < NBUF" "holds (bs ! b) n"
  shows "cache_blk bs d n = (if b_valid (bs ! b) then b_data (bs ! b) else d n)"
proof -
  have uniq: "c = b" if "c < NBUF" "holds (bs ! c) n" for c
    using cache_inv_uniq [OF assms(1) that(1) b(1)] that b by (simp add: holds_def)
  show ?thesis
  proof (cases "List.find (\<lambda>b. holds (bs ! b) n \<and> b_valid (bs ! b)) [0 ..< NBUF]")
    case None
    then have "\<not> b_valid (bs ! b)" using b by (auto simp: find_None_iff)
    with None show ?thesis by (simp add: cache_blk_def)
  next
    case (Some c)
    from find_Some_iff2 [OF Some] uniq [of c] have "c = b" "b_valid (bs ! b)" by auto
    with Some show ?thesis by (simp add: cache_blk_def)
  qed
qed

lemma cache_blk_length: "cache_inv bs l d \<Longrightarrow> length (cache_blk bs d n) = BSIZE"
  by (auto simp: cache_blk_def cache_invD buf_ok_def split: option.split
      dest!: find_Some_iff2 dest: cache_invD(4))

lemma cache_inv_upd:
  assumes "cache_inv bs l d" and "b < NBUF" and "buf_ok d f"
    and "\<And>c. c < NBUF \<Longrightarrow> c \<noteq> b \<Longrightarrow> b_dev f \<noteq> 0 \<Longrightarrow> b_dev (bs ! c) = b_dev f \<Longrightarrow>
           b_blockno (bs ! c) = b_blockno f \<Longrightarrow> False"
  shows "cache_inv (bs[b := f]) l d"
proof -
  note len = cache_invD(1) [OF assms(1)]
  have n: "bs[b := f] ! c = (if c = b then f else bs ! c)" for c
    using assms(2) len by (auto simp: nth_list_update)
  have u': "b' = c" if "b' < NBUF" "c < NBUF" "b_dev (bs[b := f] ! b') \<noteq> 0"
      "b_dev (bs[b := f] ! b') = b_dev (bs[b := f] ! c)"
      "b_blockno (bs[b := f] ! b') = b_blockno (bs[b := f] ! c)" for b' c
  proof (rule ccontr)
    assume "b' \<noteq> c"
    then consider "b' = b" "c \<noteq> b" | "b' \<noteq> b" "c = b" | "b' \<noteq> b" "c \<noteq> b" by blast
    then show False
    proof cases
      case 1
      with that show False by (intro assms(4) [of c]) (simp_all add: n)
    next
      case 2
      with that show False by (intro assms(4) [of b']) (simp_all add: n)
    next
      case 3
      with that \<open>b' \<noteq> c\<close> show False using cache_inv_uniq [OF assms(1), of b' c] by (simp add: n)
    qed
  qed
  have ok: "buf_ok d (bs[b := f] ! c)" if "c < NBUF" for c
    using cache_invD(4) [OF assms(1) that] assms(3) by (simp add: n)
  have "length (bs[b := f]) = NBUF" using len by simp
  then show ?thesis
    unfolding cache_inv_def bufs_uniq_def
    by (intro conjI allI impI)
      (assumption | rule cache_invD(2,3,5) [OF assms(1)] | rule ok, assumption | rule u', assumption+)+
qed

text \<open>An update that leaves the buffer on its block.\<close>

lemma cache_inv_upd_same:
  assumes inv: "cache_inv bs l d" and "b < NBUF" and "buf_ok d f"
    and "b_dev f = b_dev (bs ! b)" and "b_blockno f = b_blockno (bs ! b)"
  shows "cache_inv (bs[b := f]) l d"
proof (rule cache_inv_upd [OF assms(1-3)])
  fix c
  assume "c < NBUF" "c \<noteq> b" "b_dev f \<noteq> 0" "b_dev (bs ! c) = b_dev f" "b_blockno (bs ! c) = b_blockno f"
  moreover from this assms(4,5) have "c = b" by (intro cache_inv_uniq [OF inv _ assms(2)]) auto
  ultimately show False by simp
qed

lemma cache_blk_upd:
  assumes inv: "cache_inv bs l d" and b: "b < NBUF" and inv': "cache_inv (bs[b := f]) l' d'"
  shows "cache_blk (bs[b := f]) d n =
    (if holds f n then if b_valid f then b_data f else d n
     else if holds (bs ! b) n then d n else cache_blk bs d n)"
proof -
  have nth: "bs[b := f] ! c = (if c = b then f else bs ! c)" for c
    using b cache_invD(1) [OF inv] by (auto simp: nth_list_update)
  have cond: "List.find (\<lambda>c. holds (bs[b := f] ! c) n \<and> b_valid (bs[b := f] ! c)) [0 ..< NBUF] =
      List.find (\<lambda>c. holds (bs ! c) n \<and> b_valid (bs ! c)) [0 ..< NBUF]" (is "?l = ?r")
    if "\<not> holds f n" "\<not> holds (bs ! b) n"
    by (rule find_cong [OF refl]) (use that in \<open>auto simp: nth\<close>)
  consider "holds f n" | "\<not> holds f n" "holds (bs ! b) n" | "\<not> holds f n" "\<not> holds (bs ! b) n" by blast
  then show ?thesis
  proof cases
    case 1
    then show ?thesis using cache_blk_held [OF inv' b, of n d] by (simp add: nth)
  next
    case 2
    have "\<not> holds (bs[b := f] ! c) n" if "c < NBUF" for c
      using cache_inv_uniq [OF inv b that] 2 by (auto simp: nth holds_def)
    then show ?thesis using 2 by (simp add: cache_blk_none)
  next
    case 3
    from cond [OF 3] have "cache_blk (bs[b := f]) d n = cache_blk bs d n"
      using 3 by (cases ?r) (auto simp: cache_blk_def nth dest!: find_Some_iff2)
    then show ?thesis using 3 by simp
  qed
qed

section \<open>Effects of the lock and disk calls\<close>

lemma bio_more_acq_rel [simp]:
  "bio_state.more (acq lk s) = bio_state.more s" "bio_state.more (rel lk s) = bio_state.more s"
  "bio_state.more (cli_touch s) = bio_state.more s" "bio_state.more (wakes c s) = bio_state.more s"
  by (simp_all add: acq_def rel_def cli_touch_def wakes_def)

interpretation bl: sleep_field "buf_lock b" "set_buf_lock b" "\<lambda>s. b < length (bufs s)"
    "LBufSl b" "ChanBufLock b" for b
  by unfold_locales (simp_all add: buf_lock_def set_buf_lock_def low_defs)

lemmas buf_lock_wp [wp_simps] =
  bl.acquiresleep_wlp [folded acquiresleep_buf_def] bl.acquiresleep_wp [folded acquiresleep_buf_def]
  bl.releasesleep_wlp [folded releasesleep_buf_def] bl.releasesleep_wp [folded releasesleep_buf_def]
  bl.holdingsleep_wlp [folded holdingsleep_buf_def] bl.holdingsleep_wp [folded holdingsleep_buf_def]

abbreviation take_buf :: "nat \<Rightarrow> 'r bio_state_scheme \<Rightarrow> 'r bio_state_scheme" where
  "take_buf b \<equiv> sl_take (set_buf_lock b) (LBufSl b)"

abbreviation drop_buf :: "nat \<Rightarrow> 'r bio_state_scheme \<Rightarrow> 'r bio_state_scheme" where
  "drop_buf b \<equiv> sl_drop (set_buf_lock b) (LBufSl b) (ChanBufLock b)"

lemma take_buf_sel [simp]:
  "bufs (take_buf b s) =
     (bufs s)[b := (bufs s ! b)\<lparr>b_lock := \<lparr>sl_locked = True, sl_pid = cur_pid s\<rparr>\<rparr>]"
  "lru (take_buf b s) = lru s" "disk (take_buf b s) = disk s" "disksize (take_buf b s) = disksize s"
  "dwrites (take_buf b s) = dwrites s" "bio_state.more (take_buf b s) = bio_state.more s"
  by (simp_all add: sl_take_def set_buf_lock_def)

lemma drop_buf_sel [simp]:
  "bufs (drop_buf b s) = (bufs s)[b := (bufs s ! b)\<lparr>b_lock := \<lparr>sl_locked = False, sl_pid = 0\<rparr>\<rparr>]"
  "lru (drop_buf b s) = lru s" "disk (drop_buf b s) = disk s" "disksize (drop_buf b s) = disksize s"
  "dwrites (drop_buf b s) = dwrites s" "bio_state.more (drop_buf b s) = bio_state.more s"
  by (simp_all add: sl_drop_def set_buf_lock_def)

lemma touch_buf_sel [simp]:
  "bufs (sl_touch lk s) = bufs s"
  "lru (sl_touch lk s) = lru s" "disk (sl_touch lk s) = disk s" "disksize (sl_touch lk s) = disksize s"
  "dwrites (sl_touch lk s) = dwrites s" "bio_state.more (sl_touch lk s) = bio_state.more s"
  by (simp_all add: sl_touch_def)

lemma low_bufs [simp]:
  "low (s\<lparr>bufs := x\<rparr>) = low s" "low (s\<lparr>lru := y\<rparr>) = low s" "low (s\<lparr>disk := z\<rparr>) = low s"
  "low (s\<lparr>dwrites := w\<rparr>) = low s"
  by (simp_all add: low_defs)

lemma buf_lock_nth [simp]: "buf_lock b s = b_lock (bufs s ! b)"
  by (simp add: buf_lock_def)

lemma upd_get_buf_wp [wp_simps]:
  "wp (upd_buf b f) Q = (\<lambda>s. Q () (s\<lparr>bufs := (bufs s)[b := f (bufs s ! b)]\<rparr>))"
  "wlp (upd_buf b f) Q = (\<lambda>s. Q () (s\<lparr>bufs := (bufs s)[b := f (bufs s ! b)]\<rparr>))"
  "wp (get_buf b g) R = (\<lambda>s. R (g (bufs s ! b)) s)"
  "wlp (get_buf b g) R = (\<lambda>s. R (g (bufs s ! b)) s)"
  by (simp_all add: upd_buf_def get_buf_def wp_simps)

text \<open>What everything below the cache's own operations keeps.\<close>

definition bio_frame :: "'r bio_state_scheme \<Rightarrow> 'r bio_state_scheme \<Rightarrow> bool" where
  "bio_frame s s' \<longleftrightarrow> low s' = low s \<and> bio_state.more s' = bio_state.more s \<and> disksize s' = disksize s"

lemma bio_frame_refl [simp]: "bio_frame s s"
  by (simp add: bio_frame_def)

lemma bio_frame_trans [trans]: "bio_frame s t \<Longrightarrow> bio_frame t u \<Longrightarrow> bio_frame s u"
  by (simp add: bio_frame_def)

text \<open>
  \<open>has_buf s b n\<close>: the running process holds the lock of buffer \<open>b\<close>, which caches block \<open>n\<close>.
  \<open>pinned s\<close> are the blocks whose cached copy is marked dirty, so that it may not be recycled.
\<close>

definition has_buf :: "'r bio_state_scheme \<Rightarrow> nat \<Rightarrow> nat \<Rightarrow> bool" where
  "has_buf s b n \<longleftrightarrow> b < NBUF \<and> holds (bufs s ! b) n \<and> b_valid (bufs s ! b) \<and>
     b_lock (bufs s ! b) = \<lparr>sl_locked = True, sl_pid = cur_pid s\<rparr>"

definition pinned_of :: "buf list \<Rightarrow> nat set" where
  "pinned_of bs = {n. \<exists>b < NBUF. holds (bs ! b) n \<and> b_dirty (bs ! b)}"

abbreviation pinned :: "'r bio_state_scheme \<Rightarrow> nat set" where
  "pinned s \<equiv> pinned_of (bufs s)"

definition locked_bufs :: "'r bio_state_scheme \<Rightarrow> nat set" where
  "locked_bufs s = {b. b < NBUF \<and> sl_locked (b_lock (bufs s ! b))}"

definition ide_done :: "nat \<Rightarrow> 'r bio_state_scheme \<Rightarrow> 'r bio_state_scheme" where
  "ide_done b s =
     (let f = bufs s ! b; t = sl_touch (LBufSl b) s in
      if b_dirty f
      then t\<lparr>disk := (disk s)(b_blockno f := b_data f), dwrites := dwrites s @ [(b_blockno f, b_data f)],
             bufs := (bufs s)[b := f\<lparr>b_dirty := False, b_valid := True\<rparr>]\<rparr>
      else t\<lparr>bufs := (bufs s)[b := f\<lparr>b_data := disk s (b_blockno f), b_valid := True\<rparr>]\<rparr>)"

definition ide_ready :: "nat \<Rightarrow> 'r bio_state_scheme \<Rightarrow> bool" where
  "ide_ready b s \<longleftrightarrow> b < length (bufs s) \<and> sl_locked (b_lock (bufs s ! b)) \<and>
     sl_pid (b_lock (bufs s ! b)) = cur_pid s \<and> (b_dirty (bufs s ! b) \<or> \<not> b_valid (bufs s ! b)) \<and>
     b_dev (bufs s ! b) = 1 \<and> b_blockno (bufs s ! b) < disksize s"

lemma iderw_wlp:
  assumes "b < length (bufs s)" and "LBufSl b \<notin> held s \<Longrightarrow> ide_ready b s \<Longrightarrow> Q () (ide_done b s)"
  shows "wlp (iderw b) Q s"
  using assms
  by (auto simp: iderw_def wp_simps ide_done_def ide_ready_def Let_def nth_list_update)

lemma iderw_wp:
  assumes "LBufSl b \<notin> held s" "ide_ready b s" "Q () (ide_done b s)"
  shows "wp (iderw b) Q s"
  using assms
  by (auto simp: iderw_def wp_simps ide_done_def ide_ready_def Let_def nth_list_update)

text \<open>The state \<^verbatim>\<open>bget\<close> leaves, given the buffer it chose.\<close>

definition bget_hit :: "buf list \<Rightarrow> nat list \<Rightarrow> nat \<Rightarrow> nat \<Rightarrow> nat option" where
  "bget_hit bs l dev n = List.find (\<lambda>b. b_dev (bs ! b) = dev \<and> b_blockno (bs ! b) = n) l"

definition bget_free :: "buf list \<Rightarrow> nat list \<Rightarrow> nat option" where
  "bget_free bs l = List.find (\<lambda>b. b_refcnt (bs ! b) = 0 \<and> \<not> b_dirty (bs ! b)) (rev l)"

definition bget_done :: "nat \<Rightarrow> buf \<Rightarrow> 'r bio_state_scheme \<Rightarrow> 'r bio_state_scheme" where
  "bget_done b f s = take_buf b (rel LBcache ((acq LBcache s)\<lparr>bufs := (bufs s)[b := f]\<rparr>))"

definition bget_choice :: "nat \<Rightarrow> nat \<Rightarrow> 'r bio_state_scheme \<Rightarrow> nat \<Rightarrow> buf \<Rightarrow> bool" where
  "bget_choice dev n s b f \<longleftrightarrow>
     bget_hit (bufs s) (lru s) dev n = Some b \<and> f = (bufs s ! b)\<lparr>b_refcnt := b_refcnt (bufs s ! b) + 1\<rparr>
   \<or> bget_hit (bufs s) (lru s) dev n = None \<and> bget_free (bufs s) (lru s) = Some b \<and>
     f = (bufs s ! b)\<lparr>b_dev := dev, b_blockno := n, b_valid := False, b_dirty := False, b_refcnt := 1\<rparr>"

lemma bget_wlp:
  assumes "\<And>b f. LBcache \<notin> held s \<Longrightarrow> LBufSl b \<notin> held s \<Longrightarrow> bget_choice dev n s b f \<Longrightarrow>
     \<not> sl_locked (b_lock ((bufs s)[b := f] ! b)) \<Longrightarrow> Q b (bget_done b f s)"
  shows "wlp (bget dev n) Q s"
  using assms
  by (auto simp: bget_def wp_simps bget_done_def bget_choice_def bget_hit_def bget_free_def
      split: option.split cong: option.case_cong)

lemma bget_wp:
  assumes "LBcache \<notin> held s" "LBufSl b \<notin> held s" "bget_choice dev n s b f"
     "\<not> sl_locked (b_lock ((bufs s)[b := f] ! b))" "Q b (bget_done b f s)"
  shows "wp (bget dev n) Q s"
  using assms
  by (auto simp: bget_def wp_simps bget_done_def bget_choice_def bget_hit_def bget_free_def
      split: option.split cong: option.case_cong)

lemma pinned_held:
  assumes "cache_inv bs l d" "b < NBUF" "holds (bs ! b) n"
  shows "n \<in> pinned_of bs \<longleftrightarrow> b_dirty (bs ! b)"
proof
  assume "n \<in> pinned_of bs"
  then obtain c where c: "c < NBUF" "holds (bs ! c) n" "b_dirty (bs ! c)" by (auto simp: pinned_of_def)
  with assms cache_inv_uniq [OF assms(1), of c b] have "c = b" by (simp add: holds_def)
  with c show "b_dirty (bs ! b)" by simp
qed (use assms in \<open>auto simp: pinned_of_def\<close>)

lemma pinned_upd:
  assumes "cache_inv bs l d" "b < NBUF"
  shows "n \<in> pinned_of (bs[b := f]) \<longleftrightarrow>
    holds f n \<and> b_dirty f \<or> n \<in> pinned_of bs \<and> \<not> holds (bs ! b) n"
proof -
  have nth: "bs[b := f] ! c = (if c = b then f else bs ! c)" for c
    using assms(2) cache_invD(1) [OF assms(1)] by (auto simp: nth_list_update)
  have "c = b" if "c < NBUF" "holds (bs ! c) n" "holds (bs ! b) n" for c
    using cache_inv_uniq [OF assms(1) that(1) assms(2)] that by (simp add: holds_def)
  then show ?thesis using assms(2) by (auto simp: pinned_of_def nth)
qed

text \<open>What \<^verbatim>\<open>bread\<close> promises: the block's buffer, locked, with the block's content.\<close>

definition bread_rel :: "nat \<Rightarrow> nat \<Rightarrow> 'r bio_state_scheme \<Rightarrow> 'r bio_state_scheme \<Rightarrow> bool" where
  "bread_rel n b s s' \<longleftrightarrow>
     bio_inv s' \<and> has_buf s' b n \<and> blk s' = blk s \<and> pinned s' = pinned s \<and>
     disk s' = disk s \<and> dwrites s' = dwrites s \<and> bio_frame s s' \<and>
     b_data (bufs s' ! b) = blk s n \<and> b_refcnt (bufs s' ! b) = b_refcnt (bufs s ! b) + 1 \<and>
     b \<notin> locked_bufs s \<and> (\<forall>c. c \<noteq> b \<longrightarrow> bufs s' ! c = bufs s ! c)"

lemma bget_hitD: "bget_hit bs l dev n = Some b \<Longrightarrow> b \<in> set l \<and> b_dev (bs ! b) = dev \<and> b_blockno (bs ! b) = n"
  unfolding bget_hit_def by (drule find_Some_iff2) blast

lemma bget_hit_None: "bget_hit bs l 1 n = None \<Longrightarrow> c \<in> set l \<Longrightarrow> \<not> holds (bs ! c) n"
  unfolding bget_hit_def holds_def by (auto simp: find_None_iff)

lemma bget_freeD: "bget_free bs l = Some b \<Longrightarrow> b \<in> set l \<and> b_refcnt (bs ! b) = 0 \<and> \<not> b_dirty (bs ! b)"
  unfolding bget_free_def by (drule find_Some_iff2) simp

lemma bget_choice_cases:
  assumes inv: "bio_inv s" and ch: "bget_choice 1 n s b f"
  obtains
    (hit) "b < NBUF" "holds (bufs s ! b) n" "f = (bufs s ! b)\<lparr>b_refcnt := b_refcnt (bufs s ! b) + 1\<rparr>"
  | (miss) "b < NBUF" "\<And>c. c < NBUF \<Longrightarrow> \<not> holds (bufs s ! c) n"
      "b_refcnt (bufs s ! b) = 0" "\<not> b_dirty (bufs s ! b)"
      "f = (bufs s ! b)\<lparr>b_dev := 1, b_blockno := n, b_valid := False, b_dirty := False, b_refcnt := 1\<rparr>"
proof -
  have set: "c \<in> set (lru s) \<longleftrightarrow> c < NBUF" for c using cache_invD(3) [OF inv] by simp
  from ch consider
      (1) "bget_hit (bufs s) (lru s) 1 n = Some b" "f = (bufs s ! b)\<lparr>b_refcnt := b_refcnt (bufs s ! b) + 1\<rparr>"
    | (2) "bget_hit (bufs s) (lru s) 1 n = None" "bget_free (bufs s) (lru s) = Some b"
      "f = (bufs s ! b)\<lparr>b_dev := 1, b_blockno := n, b_valid := False, b_dirty := False, b_refcnt := 1\<rparr>"
    unfolding bget_choice_def by (elim disjE conjE)
  then show thesis
  proof cases
    case 1
    with bget_hitD [OF 1(1)] show thesis by (intro hit) (simp_all add: set holds_def)
  next
    case 2
    with bget_hit_None [OF 2(1)] bget_freeD [OF 2(2)] show thesis by (intro miss) (simp_all add: set)
  qed
qed

lemma bget_choiceD:
  assumes inv: "bio_inv s" and ch: "bget_choice 1 n s b f"
  shows "b < NBUF" and "holds f n" and "b_refcnt f = b_refcnt (bufs s ! b) + 1"
    and "b_lock f = b_lock (bufs s ! b)"
    and "bio_inv (s\<lparr>bufs := (bufs s)[b := f]\<rparr>)" and "blk (s\<lparr>bufs := (bufs s)[b := f]\<rparr>) = blk s"
    and "pinned (s\<lparr>bufs := (bufs s)[b := f]\<rparr>) = pinned s"
proof -
  show b: "b < NBUF" using inv ch by (cases rule: bget_choice_cases)
  show f: "holds f n" "b_refcnt f = b_refcnt (bufs s ! b) + 1" "b_lock f = b_lock (bufs s ! b)" using inv ch
    by (cases rule: bget_choice_cases; simp add: holds_def)+
  have ok: "buf_ok (disk s) (bufs s ! b)" using inv b by (rule cache_invD)
  have okf: "buf_ok (disk s) f" using inv ch
    by (cases rule: bget_choice_cases) (use ok in \<open>auto simp: buf_ok_def\<close>)
  have hit: "holds (bufs s ! b) n \<and> b_valid f = b_valid (bufs s ! b) \<and> b_data f = b_data (bufs s ! b) \<and>
      b_dirty f = b_dirty (bufs s ! b) \<or>
    \<not> b_valid f \<and> \<not> b_dirty f \<and> \<not> b_dirty (bufs s ! b) \<and> \<not> sl_locked (b_lock (bufs s ! b)) \<and>
      (\<forall>c < NBUF. \<not> holds (bufs s ! c) n)"
    using inv ch by (cases rule: bget_choice_cases) (use ok in \<open>auto simp: buf_ok_def\<close>)
  show inv': "bio_inv (s\<lparr>bufs := (bufs s)[b := f]\<rparr>)"
  proof (simp, rule cache_inv_upd [OF inv b okf])
    fix c assume c: "c < NBUF" "c \<noteq> b" "b_dev (bufs s ! c) = b_dev f" "b_blockno (bufs s ! c) = b_blockno f"
    then have "holds (bufs s ! c) n" using f by (simp add: holds_def)
    with hit c(1) have "holds (bufs s ! b) n" by blast
    with \<open>holds (bufs s ! c) n\<close> have "c = b"
      by (intro cache_inv_uniq [OF inv c(1) b]) (simp_all add: holds_def)
    with c(2) show False by simp
  qed
  have inv'': "cache_inv ((bufs s)[b := f]) (lru s) (disk s)" using inv' by simp
  have "cache_blk ((bufs s)[b := f]) (disk s) m = cache_blk (bufs s) (disk s) m" for m
  proof (cases "holds f m")
    case True
    then have m: "m = n" using f(1) by (simp add: holds_def)
    from hit show ?thesis
    proof
      assume "holds (bufs s ! b) n \<and> b_valid f = b_valid (bufs s ! b) \<and>
        b_data f = b_data (bufs s ! b) \<and> b_dirty f = b_dirty (bufs s ! b)"
      then show ?thesis
        using True m by (simp add: cache_blk_upd [OF inv b inv''] cache_blk_held [OF inv b])
    qed (use True m in \<open>simp add: cache_blk_upd [OF inv b inv''] cache_blk_none\<close>)
  next
    case False
    have "b_data (bufs s ! b) = disk s m" if "holds (bufs s ! b) m" "b_valid (bufs s ! b)"
      using hit ok that False f(1) by (auto simp: buf_ok_def holds_def)
    then show ?thesis
      using False by (auto simp: cache_blk_upd [OF inv b inv''] cache_blk_held [OF inv b])
  qed
  then show "blk (s\<lparr>bufs := (bufs s)[b := f]\<rparr>) = blk s" by (simp add: fun_eq_iff)
  have "m \<in> pinned_of ((bufs s)[b := f]) \<longleftrightarrow> m \<in> pinned_of (bufs s)" for m
  proof (cases "holds f m")
    case True
    then have "m = n" using f(1) by (simp add: holds_def)
    then show ?thesis
      using hit f(1) by (auto simp: pinned_upd [OF inv b] pinned_held [OF inv b])
  next
    case False
    then show ?thesis
      using hit f(1) pinned_held [OF inv b, of m] unfolding pinned_upd [OF inv b]
      by (auto simp: holds_def)
  qed
  then show "pinned (s\<lparr>bufs := (bufs s)[b := f]\<rparr>) = pinned s" by (simp add: set_eq_iff)
qed

lemma bget_done_sel [simp]:
  "bufs (bget_done b f s) =
     (bufs s)[b := f, b := ((bufs s)[b := f] ! b)\<lparr>b_lock := \<lparr>sl_locked = True, sl_pid = cur_pid s\<rparr>\<rparr>]"
  "lru (bget_done b f s) = lru s" "disk (bget_done b f s) = disk s"
  "disksize (bget_done b f s) = disksize s" "dwrites (bget_done b f s) = dwrites s"
  "bio_state.more (bget_done b f s) = bio_state.more s"
  by (simp_all add: bget_done_def cur_pid_def)

lemma low_bget_done:
  "LBcache \<notin> held s \<Longrightarrow> LBufSl b \<notin> held s \<Longrightarrow> low (bget_done b f s) = low s"
  unfolding bget_done_def by (subst bl.low_take) (simp_all add: low_simps)

text \<open>Replacing the content of a cached block.\<close>

lemma cache_set:
  assumes inv: "cache_inv bs l d" and b: "b < NBUF" and old: "holds (bs ! b) n"
    and g: "holds g n" "b_valid g" "buf_ok d g"
  shows "cache_inv (bs[b := g]) l d"
    and "cache_blk (bs[b := g]) d = (cache_blk bs d)(n := b_data g)"
    and "pinned_of (bs[b := g]) = (if b_dirty g then insert n (pinned_of bs) else pinned_of bs - {n})"
proof -
  show inv': "cache_inv (bs[b := g]) l d"
    by (rule cache_inv_upd_same [OF inv b g(3)]) (use old g(1) in \<open>simp_all add: holds_def\<close>)
  have "cache_blk (bs[b := g]) d m = ((cache_blk bs d)(n := b_data g)) m" for m
    using g old by (simp add: cache_blk_upd [OF inv b inv'] holds_def)
  then show "cache_blk (bs[b := g]) d = (cache_blk bs d)(n := b_data g)" by (rule ext)
  have "m \<in> pinned_of (bs[b := g]) \<longleftrightarrow> (if m = n then b_dirty g else m \<in> pinned_of bs)" for m
    using g old by (auto simp: pinned_upd [OF inv b] holds_def)
  then show "pinned_of (bs[b := g]) = (if b_dirty g then insert n (pinned_of bs) else pinned_of bs - {n})"
    by (cases "b_dirty g") (simp_all add: set_eq_iff)
qed

text \<open>Writing the content of a cached block to the disk.\<close>

lemma cache_flush:
  assumes inv: "cache_inv bs l d" and b: "b < NBUF" and old: "holds (bs ! b) n" "b_valid (bs ! b)"
  shows "cache_inv bs l (d(n := b_data (bs ! b)))"
    and "cache_blk bs (d(n := b_data (bs ! b))) = cache_blk bs d"
proof -
  let ?d = "d(n := b_data (bs ! b))"
  have ok: "buf_ok ?d (bs ! c)" if c: "c < NBUF" for c
  proof (cases "b_dev (bs ! c) = 1 \<and> b_blockno (bs ! c) = n")
    case True
    then have "c = b" using old by (intro cache_inv_uniq [OF inv c b]) (simp_all add: holds_def)
    then show ?thesis using cache_invD(4) [OF inv b] True by (simp add: buf_ok_def)
  next
    case False
    then show ?thesis using cache_invD(4) [OF inv c] by (auto simp: buf_ok_def)
  qed
  have "length (b_data (bs ! b)) = BSIZE" using cache_invD(4) [OF inv b] by (simp add: buf_ok_def)
  then have "length (?d m) = BSIZE" for m using cache_invD(5) [OF inv] by simp
  with ok inv show "cache_inv bs l ?d" by (simp add: cache_inv_def)
  have "cache_blk bs ?d m = cache_blk bs d m" for m
  proof (cases "m = n")
    case True
    then show ?thesis using old by (simp add: cache_blk_held [OF inv b])
  next
    case False
    then show ?thesis by (simp add: cache_blk_def split: option.split)
  qed
  then show "cache_blk bs ?d = cache_blk bs d" by (rule ext)
qed

text \<open>
  \<^verbatim>\<open>bread\<close> in terms of the buffer it leaves: \<open>f\<close> is what \<^verbatim>\<open>bget\<close> made of buffer \<open>b\<close>, \<open>g\<close> what is in
  it at the end.
\<close>

lemma bread_rel_intro:
  assumes inv: "bio_inv s" and ch: "bget_choice 1 n s b f" and un: "\<not> sl_locked (b_lock f)"
    and u: "bufs u = (bufs s)[b := g]" "lru u = lru s" "disk u = disk s" "dwrites u = dwrites s"
      "bio_frame s u"
    and g: "holds g n" "b_valid g" "buf_ok (disk s) g" "b_data g = blk s n" "b_dirty g = b_dirty f"
      "b_lock g = \<lparr>sl_locked = True, sl_pid = cur_pid s\<rparr>" "b_refcnt g = b_refcnt (bufs s ! b) + 1"
  shows "bread_rel n b s u"
proof -
  note cD = bget_choiceD [OF inv ch]
  define bs where "bs = (bufs s)[b := f]"
  have inv0: "cache_inv bs (lru s) (disk s)" and blk0: "cache_blk bs (disk s) = blk s"
    and pin0: "pinned_of bs = pinned s" using cD(5-7) by (simp_all add: bs_def)
  note b = cD(1) and len = cache_invD(1) [OF inv]
  have hb: "holds (bs ! b) n" and nb: "bs ! b = f" using cD(2) b len by (simp_all add: bs_def)
  have bu: "bufs u = bs[b := g]" using u(1) by (simp add: bs_def)
  note cs = cache_set [OF inv0 b hb g(1-3)]
  have "cache_inv (bufs u) (lru u) (disk u)" using cs(1) bu u by simp
  moreover have "blk u = blk s" using cs(2) bu u g(4) blk0 by simp
  moreover have "pinned u = pinned s"
    using cs(3) bu g(5) pin0 pinned_held [OF inv0 b hb] nb by auto
  moreover have "has_buf u b n"
    using b len u g low_cur_pid [of u s] by (simp add: has_buf_def bio_frame_def)
  ultimately show ?thesis
    using u g(4,7) b len un cD(4) by (simp add: bread_rel_def locked_bufs_def)
qed

lemma bread_wlp:
  assumes inv: "bio_inv s"
  shows "wlp (bread 1 n) (\<lambda>b s'. bread_rel n b s s') s"
  unfolding bread_def wlp_kbind [of "bget 1 n"]
proof (rule bget_wlp)
  fix b f
  assume held: "LBcache \<notin> held s" "LBufSl b \<notin> held s" and ch: "bget_choice 1 n s b f"
    and un: "\<not> sl_locked (b_lock ((bufs s)[b := f] ! b))"
  note cD = bget_choiceD [OF inv ch]
  note b = cD(1) and len = cache_invD(1) [OF inv]
  have inv0: "cache_inv ((bufs s)[b := f]) (lru s) (disk s)"
    and blk0: "cache_blk ((bufs s)[b := f]) (disk s) = blk s" using cD(5,6) by simp_all
  have okf: "buf_ok (disk s) f" using cache_invD(4) [OF inv0 b] b len by simp
  have un': "\<not> sl_locked (b_lock f)" using un b len by simp
  have bl: "blk s n = (if b_valid f then b_data f else disk s n)"
    using cache_blk_held [OF inv0 b, of n "disk s"] cD(2) blk0 b len by simp
  let ?me = "\<lparr>sl_locked = True, sl_pid = cur_pid s\<rparr>"
  let ?t = "bget_done b f s"
  have low: "low ?t = low s" using held by (rule low_bget_done)
  show "wlp (kbind (get_buf b b_valid) (\<lambda>v. kbind (if \<not> v then iderw b else kreturn ()) (\<lambda>_. kreturn b)))
      (\<lambda>b. bread_rel n b s) ?t"
  proof (cases "b_valid f")
    case True
    have "bread_rel n b s ?t"
      by (rule bread_rel_intro [OF inv ch un', where g = "f\<lparr>b_lock := ?me\<rparr>"])
        (use b len low True cD bl okf in \<open>simp_all add: holds_def buf_ok_def bio_frame_def\<close>)
    then show ?thesis using True b len by (simp add: wp_simps)
  next
    case False
    then have nd: "\<not> b_dirty f" using okf by (auto simp: buf_ok_def)
    have dn: "b_blockno f = n" "b_dev f = 1" using cD(2) by (simp_all add: holds_def)
    have "wlp (iderw b) (\<lambda>_. bread_rel n b s) ?t"
    proof (rule iderw_wlp)
      assume "LBufSl b \<notin> held ?t"
      then have "low (ide_done b ?t) = low s"
        using bl.low_touch [of b ?t] low by (simp add: ide_done_def Let_def)
      then show "bread_rel n b s (ide_done b ?t)"
        by (intro bread_rel_intro [OF inv ch un', where g = "f\<lparr>b_lock := ?me, b_data := disk s n, b_valid := True\<rparr>"])
          (use b len nd dn bl okf cD False cache_invD(5) [OF inv] in
            \<open>simp_all add: ide_done_def Let_def bio_frame_def holds_def buf_ok_def\<close>)
    qed (use b len in simp)
    then show ?thesis using False b len by (simp add: wp_simps)
  qed
qed

lemma has_bufD:
  "has_buf s b n \<Longrightarrow> b < NBUF" "has_buf s b n \<Longrightarrow> holds (bufs s ! b) n"
  "has_buf s b n \<Longrightarrow> b_valid (bufs s ! b)" "has_buf s b n \<Longrightarrow> b \<in> locked_bufs s"
  "has_buf s b n \<Longrightarrow> b_lock (bufs s ! b) = \<lparr>sl_locked = True, sl_pid = cur_pid s\<rparr>"
  by (simp_all add: has_buf_def locked_bufs_def)

lemma has_buf_blk: "bio_inv s \<Longrightarrow> has_buf s b n \<Longrightarrow> blk s n = b_data (bufs s ! b)"
  using cache_blk_held [of "bufs s" "lru s" "disk s" b n "disk s"] by (simp add: has_buf_def)

lemma has_buf_pinned: "bio_inv s \<Longrightarrow> has_buf s b n \<Longrightarrow> n \<in> pinned s \<longleftrightarrow> b_dirty (bufs s ! b)"
  using pinned_held [of "bufs s" "lru s" "disk s" b n] by (simp add: has_buf_def)

text \<open>Two buffers a process holds are on different blocks, and \<^verbatim>\<open>bread\<close> never returns a held one.\<close>

lemma has_buf_inj: "bio_inv s \<Longrightarrow> has_buf s b n \<Longrightarrow> has_buf s c n \<Longrightarrow> b = c"
  by (rule cache_inv_uniq [of "bufs s" "lru s" "disk s"]) (auto simp: has_buf_def holds_def)

lemma bread_rel_keeps:
  assumes "bread_rel n b s s'" and "has_buf s c m"
  shows "has_buf s' c m" and "bufs s' ! c = bufs s ! c" and "c \<noteq> b"
proof -
  show ne: "c \<noteq> b" using assms by (auto simp: bread_rel_def has_buf_def locked_bufs_def)
  then show eq: "bufs s' ! c = bufs s ! c" using assms by (simp add: bread_rel_def)
  have "cur_pid s' = cur_pid s" using assms
    by (intro low_cur_pid) (simp add: bread_rel_def bio_frame_def)
  with eq assms(2) show "has_buf s' c m" by (simp add: has_buf_def)
qed

text \<open>\<^verbatim>\<open>memmove(bp->data, ...)\<close> or a store into a buffer the process holds.\<close>

lemma set_data:
  assumes inv: "bio_inv s" and has: "has_buf s b n" and len: "length x = BSIZE"
    and bs: "bs = (bufs s)[b := (bufs s ! b)\<lparr>b_data := x\<rparr>]"
  shows "cache_inv bs (lru s) (disk s)" and "cache_blk bs (disk s) = (blk s)(n := x)"
    and "pinned_of bs = pinned s" and "has_buf (s\<lparr>bufs := bs\<rparr>) b n"
proof -
  note b = has_bufD(1) [OF has] and h = has_bufD(2) [OF has]
  have ok: "buf_ok (disk s) ((bufs s ! b)\<lparr>b_data := x\<rparr>)"
    using cache_invD(4) [OF inv b] has len by (simp add: buf_ok_def has_buf_def)
  note cs = cache_set [OF inv b h _ _ ok]
  show "cache_inv bs (lru s) (disk s)" and "cache_blk bs (disk s) = (blk s)(n := x)"
    and "pinned_of bs = pinned s"
    using cs has pinned_held [OF inv b h] by (auto simp: bs holds_def has_buf_def)
  show "has_buf (s\<lparr>bufs := bs\<rparr>) b n"
    using has cache_invD(1) [OF inv] by (simp add: bs has_buf_def holds_def cur_pid_def)
qed

definition brelse_rel :: "nat \<Rightarrow> 'r bio_state_scheme \<Rightarrow> 'r bio_state_scheme \<Rightarrow> bool" where
  "brelse_rel b s s' \<longleftrightarrow>
     bio_inv s' \<and> blk s' = blk s \<and> pinned s' = pinned s \<and>
     disk s' = disk s \<and> dwrites s' = dwrites s \<and> bio_frame s s' \<and>
     locked_bufs s' = locked_bufs s - {b} \<and> b_refcnt (bufs s' ! b) = b_refcnt (bufs s ! b) - 1 \<and>
     (\<forall>c. c \<noteq> b \<longrightarrow> bufs s' ! c = bufs s ! c)"

definition brelse_done :: "nat \<Rightarrow> 'r bio_state_scheme \<Rightarrow> 'r bio_state_scheme" where
  "brelse_done b s =
     (let t = acq LBcache (drop_buf b (sl_touch (LBufSl b) s));
          u = t\<lparr>bufs := (bufs t)[b := (bufs t ! b)\<lparr>b_refcnt := b_refcnt (bufs t ! b) - 1\<rparr>]\<rparr>
      in rel LBcache (if b_refcnt (bufs u ! b) = 0 then u\<lparr>lru := b # remove1 b (lru u)\<rparr> else u))"

definition brelse_free :: "nat \<Rightarrow> 'r bio_state_scheme \<Rightarrow> bool" where
  "brelse_free b s \<longleftrightarrow> LBufSl b \<notin> held s \<and> LPtable \<notin> held s \<and> LBcache \<notin> held s"

lemma held_sl_touch [simp]: "lk \<notin> held s \<Longrightarrow> held (sl_touch lk s) = held s" "ncli (sl_touch lk s) = ncli s"
  by (simp_all add: sl_touch_def)

lemma held_drop_buf [simp]:
  "LBufSl b \<notin> held s \<Longrightarrow> LPtable \<notin> held s \<Longrightarrow> held (drop_buf b s) = held s"
  by (simp add: lowD [OF bl.low_drop])

lemma brelse_wlp:
  assumes "sl_locked (b_lock (bufs s ! b)) \<Longrightarrow> sl_pid (b_lock (bufs s ! b)) = cur_pid s \<Longrightarrow>
      brelse_free b s \<Longrightarrow> Q () (brelse_done b s)"
  shows "wlp (brelse b) Q s"
  using assms
  by (auto simp: brelse_def wp_simps brelse_done_def brelse_free_def Let_def)

lemma brelse_wp:
  assumes "sl_locked (b_lock (bufs s ! b))" "sl_pid (b_lock (bufs s ! b)) = cur_pid s"
      "brelse_free b s" "Q () (brelse_done b s)"
  shows "wp (brelse b) Q s"
  using assms
  by (auto simp: brelse_def wp_simps brelse_done_def brelse_free_def Let_def)

lemma cache_inv_lru:
  "cache_inv bs l d \<Longrightarrow> distinct l' \<Longrightarrow> set l' = set l \<Longrightarrow> cache_inv bs l' d"
  by (simp add: cache_inv_def)

lemma brelse_done_sel [simp]:
  "bufs (brelse_done b s) = (if b < length (bufs s) then (bufs s)[b := (bufs s ! b)\<lparr>b_lock := \<lparr>sl_locked = False, sl_pid = 0\<rparr>,
     b_refcnt := b_refcnt (bufs s ! b) - 1\<rparr>] else bufs s)"
  "disk (brelse_done b s) = disk s" "disksize (brelse_done b s) = disksize s"
  "dwrites (brelse_done b s) = dwrites s" "bio_state.more (brelse_done b s) = bio_state.more s"
  by (simp_all add: brelse_done_def Let_def list_update_beyond)

lemma lru_brelse_done:
  assumes "b \<in> set (lru s)" and "distinct (lru s)"
  shows "distinct (lru (brelse_done b s))" and "set (lru (brelse_done b s)) = set (lru s)"
  using assms by (auto simp: brelse_done_def Let_def set_remove1_eq)

lemma low_brelse_done: "brelse_free b s \<Longrightarrow> low (brelse_done b s) = low s"
proof -
  assume f: "brelse_free b s"
  let ?t = "drop_buf b (sl_touch (LBufSl b) s)"
  have "low (brelse_done b s) = low ?t"
    unfolding brelse_done_def Let_def
    by (rule low_bracket) (use f in \<open>simp_all add: brelse_free_def\<close>)
  also have "\<dots> = low s" using f bl.low_touch [of b s] by (simp add: bl.low_drop brelse_free_def)
  finally show ?thesis .
qed

lemma brelse_done_rel:
  assumes inv: "bio_inv s" and has: "has_buf s b n" and free: "brelse_free b s"
    and coh: "n \<in> pinned s \<or> blk s n = disk s n"
  shows "brelse_rel b s (brelse_done b s)"
proof -
  note b = has_bufD(1) [OF has] and h = has_bufD(2) [OF has] and len = cache_invD(1) [OF inv]
  let ?f = "bufs s ! b"
  define g where "g = ?f\<lparr>b_lock := \<lparr>sl_locked = False, sl_pid = 0\<rparr>, b_refcnt := b_refcnt ?f - 1\<rparr>"
  have g: "holds g n" "b_valid g" "buf_ok (disk s) g"
    using h has_bufD(3) [OF has] cache_invD(4) [OF inv b] coh has_buf_blk [OF inv has]
      has_buf_pinned [OF inv has]
    by (auto simp: g_def holds_def buf_ok_def)
  note cs = cache_set [OF inv b h g]
  have bs: "bufs (brelse_done b s) = (bufs s)[b := g]" using b len by (simp add: g_def)
  have gs: "b_data g = blk s n" "b_dirty g \<longleftrightarrow> n \<in> pinned s"
    using has_buf_blk [OF inv has] has_buf_pinned [OF inv has] by (simp_all add: g_def)
  have "cache_inv ((bufs s)[b := g]) (lru (brelse_done b s)) (disk s)"
    by (rule cache_inv_lru [OF cs(1)])
      (use cache_invD(2,3) [OF inv] b in \<open>simp_all add: lru_brelse_done\<close>)
  moreover have "cache_blk ((bufs s)[b := g]) (disk s) = blk s"
    and "pinned_of ((bufs s)[b := g]) = pinned s" using cs(2,3) gs by auto
  moreover have "locked_bufs (brelse_done b s) = locked_bufs s - {b}"
    using b len by (auto simp: locked_bufs_def bs g_def nth_list_update)
  ultimately show ?thesis using low_brelse_done [OF free] b len
    by (simp add: brelse_rel_def bs bio_frame_def g_def del: brelse_done_sel(1))
qed

lemma brelse_spec:
  assumes "bio_inv s" and "has_buf s b n" and "n \<in> pinned s \<or> blk s n = disk s n"
  shows "wlp (brelse b) (\<lambda>_. brelse_rel b s) s"
  by (rule brelse_wlp) (rule brelse_done_rel [OF assms(1,2) _ assms(3)])

lemma brelse_total:
  assumes "bio_inv s" and "has_buf s b n" and "n \<in> pinned s \<or> blk s n = disk s n" and "held s = {}"
  shows "wp (brelse b) (\<lambda>_. brelse_rel b s) s"
  by (rule brelse_wp)
    (use assms in \<open>auto simp: has_buf_def brelse_free_def intro: brelse_done_rel\<close>)

definition bwrite_rel :: "nat \<Rightarrow> nat \<Rightarrow> 'r bio_state_scheme \<Rightarrow> 'r bio_state_scheme \<Rightarrow> bool" where
  "bwrite_rel n b s s' \<longleftrightarrow>
     bio_inv s' \<and> has_buf s' b n \<and> blk s' = blk s \<and> pinned s' = pinned s - {n} \<and>
     disk s' = (disk s)(n := blk s n) \<and> dwrites s' = dwrites s @ [(n, blk s n)] \<and> bio_frame s s' \<and>
     b_data (bufs s' ! b) = b_data (bufs s ! b) \<and> b_refcnt (bufs s' ! b) = b_refcnt (bufs s ! b) \<and>
     locked_bufs s' = locked_bufs s \<and>
     (\<forall>c. c \<noteq> b \<longrightarrow> bufs s' ! c = bufs s ! c)"

definition bwrite_done :: "nat \<Rightarrow> 'r bio_state_scheme \<Rightarrow> 'r bio_state_scheme" where
  "bwrite_done b s = ide_done b ((sl_touch (LBufSl b) s)\<lparr>bufs := (bufs s)[b := (bufs s ! b)\<lparr>b_dirty := True\<rparr>]\<rparr>)"

lemma bwrite_done_rel:
  assumes inv: "bio_inv s" and has: "has_buf s b n" and free: "LBufSl b \<notin> held s"
  shows "bwrite_rel n b s (bwrite_done b s)"
proof -
  note b = has_bufD(1) [OF has] and h = has_bufD(2) [OF has] and len = cache_invD(1) [OF inv]
  let ?f = "bufs s ! b"
  define g where "g = ?f\<lparr>b_dirty := False, b_valid := True\<rparr>"
  have x: "b_data ?f = blk s n" and dn: "b_blockno ?f = n"
    using has_buf_blk [OF inv has] h by (simp_all add: holds_def)
  have sel: "bufs (bwrite_done b s) = (bufs s)[b := g]" "lru (bwrite_done b s) = lru s"
    "disk (bwrite_done b s) = (disk s)(n := blk s n)"
    "dwrites (bwrite_done b s) = dwrites s @ [(n, blk s n)]"
    "disksize (bwrite_done b s) = disksize s" "bio_state.more (bwrite_done b s) = bio_state.more s"
    using b len x dn by (simp_all add: bwrite_done_def ide_done_def Let_def g_def)
  have low: "low (bwrite_done b s) = low s"
    using bl.low_touch [of b s] free b len
      bl.low_touch [of b "(sl_touch (LBufSl b) s)\<lparr>bufs := (bufs s)[b := ?f\<lparr>b_dirty := True\<rparr>]\<rparr>"]
    by (simp add: bwrite_done_def ide_done_def Let_def)
  note fl = cache_flush [OF inv b h has_bufD(3) [OF has], unfolded x]
  have g: "holds g n" "b_valid g" "buf_ok ((disk s)(n := blk s n)) g"
    using h cache_invD(4) [OF fl(1) b] x dn by (auto simp: g_def holds_def buf_ok_def)
  note cs = cache_set [OF fl(1) b h g]
  have "b_data g = blk s n" "\<not> b_dirty g" using x by (simp_all add: g_def)
  with cs fl(2) have "cache_inv ((bufs s)[b := g]) (lru s) ((disk s)(n := blk s n))"
    "cache_blk ((bufs s)[b := g]) ((disk s)(n := blk s n)) = blk s"
    "pinned_of ((bufs s)[b := g]) = pinned s - {n}" by simp_all
  moreover have "has_buf (bwrite_done b s) b n"
    using has low_cur_pid [OF low] b len by (simp add: has_buf_def sel g_def holds_def)
  moreover have "locked_bufs (bwrite_done b s) = locked_bufs s"
    using b len by (auto simp: locked_bufs_def sel g_def nth_list_update)
  ultimately show ?thesis using low b len by (simp add: bwrite_rel_def sel bio_frame_def g_def)
qed

lemma bwrite_spec:
  assumes "bio_inv s" and "has_buf s b n"
  shows "wlp (bwrite b) (\<lambda>_. bwrite_rel n b s) s"
proof -
  have "wlp (iderw b) (\<lambda>_. bwrite_rel n b s)
      ((sl_touch (LBufSl b) s)\<lparr>bufs := (bufs s)[b := (bufs s ! b)\<lparr>b_dirty := True\<rparr>]\<rparr>)"
    if "LBufSl b \<notin> held s"
    by (rule iderw_wlp)
      (use bwrite_done_rel [OF assms that] has_bufD(1) [OF assms(2)] cache_invD(1) [OF assms(1)] in
        \<open>simp_all add: bwrite_done_def\<close>)
  then show ?thesis by (simp add: bwrite_def wp_simps)
qed

lemma bwrite_total:
  assumes inv: "bio_inv s" and has: "has_buf s b n" and "LBufSl b \<notin> held s" and "n < disksize s"
  shows "wp (bwrite b) (\<lambda>_. bwrite_rel n b s) s"
proof -
  let ?t = "(sl_touch (LBufSl b) s)\<lparr>bufs := (bufs s)[b := (bufs s ! b)\<lparr>b_dirty := True\<rparr>]\<rparr>"
  note b = has_bufD(1) [OF has] and len = cache_invD(1) [OF inv]
  have "low ?t = low s" using bl.low_touch assms(3) by simp
  then have "cur_pid ?t = cur_pid s" by (rule low_cur_pid)
  then have "ide_ready b ?t" using has len assms(4) by (simp add: ide_ready_def has_buf_def holds_def)
  then have "wp (iderw b) (\<lambda>_. bwrite_rel n b s) ?t"
    by (intro iderw_wp) (use bwrite_done_rel [OF assms(1-3)] assms(3) in \<open>simp_all add: bwrite_done_def\<close>)
  then show ?thesis using assms(3) has_bufD(5) [OF has] by (simp add: bwrite_def wp_simps)
qed

lemma bread_rel_locked: "bread_rel n b s s' \<Longrightarrow> locked_bufs s' = insert b (locked_bufs s)"
proof -
  assume r: "bread_rel n b s s'"
  then have "c \<in> locked_bufs s' \<longleftrightarrow> c = b \<or> c \<in> locked_bufs s" for c
    by (cases "c = b") (simp_all add: bread_rel_def locked_bufs_def has_buf_def)
  then show ?thesis by blast
qed

text \<open>
  When \<^verbatim>\<open>bread\<close> returns: the block exists, its buffer is not locked, and if it has none there is
  an unused one that is not dirty.
\<close>

definition bread_ready :: "nat \<Rightarrow> 'r bio_state_scheme \<Rightarrow> bool" where
  "bread_ready n s \<longleftrightarrow> held s = {} \<and> n < disksize s \<and>
     (\<forall>b < NBUF. holds (bufs s ! b) n \<longrightarrow> \<not> sl_locked (b_lock (bufs s ! b))) \<and>
     ((\<exists>b < NBUF. holds (bufs s ! b) n) \<or> (\<exists>b < NBUF. b_refcnt (bufs s ! b) = 0 \<and> \<not> b_dirty (bufs s ! b)))"

lemma bget_choice_ex:
  assumes inv: "bio_inv s" and rdy: "bread_ready n s"
  obtains b f where "bget_choice 1 n s b f" and "\<not> sl_locked (b_lock f)"
proof -
  have set: "c \<in> set (lru s) \<longleftrightarrow> c < NBUF" for c using cache_invD(3) [OF inv] by simp
  show thesis
  proof (cases "bget_hit (bufs s) (lru s) 1 n")
    case (Some b)
    then have "bget_choice 1 n s b ((bufs s ! b)\<lparr>b_refcnt := b_refcnt (bufs s ! b) + 1\<rparr>)"
      by (simp add: bget_choice_def)
    moreover have "\<not> sl_locked (b_lock (bufs s ! b))"
      using bget_hitD [OF Some] rdy by (simp add: set bread_ready_def holds_def)
    ultimately show thesis using that by simp
  next
    case None
    have "\<not> holds (bufs s ! b) n" if "b < NBUF" for b using bget_hit_None [OF None, of b] that set by simp
    with rdy obtain c where "c < NBUF" "b_refcnt (bufs s ! c) = 0" "\<not> b_dirty (bufs s ! c)"
      by (auto simp: bread_ready_def)
    then have "bget_free (bufs s) (lru s) \<noteq> None"
      using set [of c] by (auto simp: bget_free_def find_None_iff)
    then obtain b where b: "bget_free (bufs s) (lru s) = Some b" by blast
    have "\<not> sl_locked (b_lock (bufs s ! b))"
      using bget_freeD [OF b] cache_invD(4) [OF inv, of b] by (auto simp: set buf_ok_def)
    moreover have "bget_choice 1 n s b ((bufs s ! b)\<lparr>b_dev := 1, b_blockno := n, b_valid := False,
        b_dirty := False, b_refcnt := 1\<rparr>)" using None b by (simp add: bget_choice_def)
    ultimately show thesis using that by simp
  qed
qed

lemma bread_Ok:
  assumes inv: "bio_inv s" and rdy: "bread_ready n s"
  shows "wp (bread 1 n) (\<lambda>_ _. True) s"
proof -
  from bget_choice_ex [OF assms] obtain b f where ch: "bget_choice 1 n s b f" and un: "\<not> sl_locked (b_lock f)" .
  note cD = bget_choiceD [OF inv ch] and len = cache_invD(1) [OF inv]
  have h: "held s = {}" and n: "n < disksize s" using rdy by (simp_all add: bread_ready_def)
  let ?t = "bget_done b f s"
  have low: "low ?t = low s" using h by (simp add: low_bget_done)
  have ht: "held ?t = {}" using lowD(1) [OF low] h by simp
  have "ide_ready b ?t" if "\<not> b_valid f"
    using that cD len n low_cur_pid [OF low] by (simp add: ide_ready_def holds_def)
  then have "wp (iderw b) (\<lambda>_ _. True) ?t" if "\<not> b_valid f"
    using that ht by (intro iderw_wp) simp_all
  then have "wp (kbind (get_buf b b_valid) (\<lambda>v. kbind (if \<not> v then iderw b else kreturn ()) (\<lambda>_. kreturn b)))
      (\<lambda>_ _. True) ?t"
    using cD(1) len by (auto simp: wp_simps)
  then show ?thesis
    unfolding bread_def wp_kbind [of "bget 1 n"]
    by (intro bget_wp [OF _ _ ch]) (use h un cD(1) len in simp_all)
qed

lemma bread_total:
  "bio_inv s \<Longrightarrow> bread_ready n s \<Longrightarrow> wp (bread 1 n) (\<lambda>b s'. bread_rel n b s s') s"
  by (rule wp_wlp_Ok [OF bread_Ok bread_wlp])

section \<open>The interface of the cache\<close>

text \<open>
  What the layers above see: the content of the disk's blocks and the set of pinned blocks, as
  opaque functions of the state.
\<close>

definition bio_ok :: "'r bio_state_scheme \<Rightarrow> bool" where
  "bio_ok s \<longleftrightarrow> bio_inv s"

definition content :: "'r bio_state_scheme \<Rightarrow> diskimg" where
  "content s = blk s"

definition pins :: "'r bio_state_scheme \<Rightarrow> nat set" where
  "pins s = pinned s"

lemmas iface_defs = bio_ok_def content_def pins_def

lemma iface_acq_rel [simp]:
  "bio_ok (acq lk s) = bio_ok s" "bio_ok (rel lk s) = bio_ok s" "bio_ok (cli_touch s) = bio_ok s"
  "bio_ok (wakes c s) = bio_ok s"
  "content (acq lk s) = content s" "content (rel lk s) = content s"
  "content (cli_touch s) = content s" "content (wakes c s) = content s"
  "pins (acq lk s) = pins s" "pins (rel lk s) = pins s"
  "pins (cli_touch s) = pins s" "pins (wakes c s) = pins s"
  by (simp_all add: iface_defs)

lemma content_length [simp]: "bio_ok s \<Longrightarrow> length (content s n) = BSIZE"
  by (simp add: iface_defs cache_blk_length)

lemma disk_length: "bio_ok s \<Longrightarrow> length (disk s n) = BSIZE"
  by (simp add: iface_defs cache_invD)

lemma has_buf_content: "bio_ok s \<Longrightarrow> has_buf s b n \<Longrightarrow> b_data (bufs s ! b) = content s n"
  by (simp add: iface_defs has_buf_blk)

lemma has_buf_pins: "bio_ok s \<Longrightarrow> has_buf s b n \<Longrightarrow> b_dirty (bufs s ! b) \<longleftrightarrow> n \<in> pins s"
  by (simp add: iface_defs has_buf_pinned)

lemma bread_relD:
  assumes "bread_rel n b s s'"
  shows "bio_ok s'" "has_buf s' b n" "content s' = content s" "pins s' = pins s" "disk s' = disk s"
    "dwrites s' = dwrites s" "bio_frame s s'" "b_data (bufs s' ! b) = content s n"
    "b_refcnt (bufs s' ! b) = b_refcnt (bufs s ! b) + 1" "b \<notin> locked_bufs s"
    "c \<noteq> b \<Longrightarrow> bufs s' ! c = bufs s ! c"
  using assms unfolding bread_rel_def iface_defs by blast+

lemma brelse_relD:
  assumes "brelse_rel b s s'"
  shows "bio_ok s'" "content s' = content s" "pins s' = pins s" "disk s' = disk s"
    "dwrites s' = dwrites s" "bio_frame s s'" "locked_bufs s' = locked_bufs s - {b}"
    "b_refcnt (bufs s' ! b) = b_refcnt (bufs s ! b) - 1"
    "c \<noteq> b \<Longrightarrow> bufs s' ! c = bufs s ! c"
  using assms unfolding brelse_rel_def iface_defs by blast+

lemma bwrite_relD:
  assumes "bwrite_rel n b s s'"
  shows "bio_ok s'" "has_buf s' b n" "content s' = content s" "pins s' = pins s - {n}"
    "disk s' = (disk s)(n := content s n)" "dwrites s' = dwrites s @ [(n, content s n)]" "bio_frame s s'"
    "b_data (bufs s' ! b) = b_data (bufs s ! b)" "b_refcnt (bufs s' ! b) = b_refcnt (bufs s ! b)"
    "locked_bufs s' = locked_bufs s" "c \<noteq> b \<Longrightarrow> bufs s' ! c = bufs s ! c"
  using assms unfolding bwrite_rel_def iface_defs by blast+

lemma bread_ok: "bio_ok s \<Longrightarrow> wlp (bread 1 n) (\<lambda>b s'. bread_rel n b s s') s"
  by (simp add: bio_ok_def bread_wlp)

lemma brelse_ok:
  "bio_ok s \<Longrightarrow> has_buf s b n \<Longrightarrow> n \<in> pins s \<or> content s n = disk s n \<Longrightarrow> wlp (brelse b) (\<lambda>_. brelse_rel b s) s"
  by (rule brelse_spec) (simp_all add: iface_defs)

lemma bwrite_ok: "bio_ok s \<Longrightarrow> has_buf s b n \<Longrightarrow> wlp (bwrite b) (\<lambda>_. bwrite_rel n b s) s"
  by (rule bwrite_spec) (simp_all add: iface_defs)

text \<open>A store into a buffer the process holds.\<close>

definition stored :: "nat \<Rightarrow> byte list \<Rightarrow> 'r bio_state_scheme \<Rightarrow> 'r bio_state_scheme \<Rightarrow> bool" where
  "stored b x s s' \<longleftrightarrow> s' = s\<lparr>bufs := (bufs s)[b := (bufs s ! b)\<lparr>b_data := x\<rparr>]\<rparr>"

lemma storedD:
  assumes st: "stored b x s s'" and "bio_ok s" "has_buf s b n" "length x = BSIZE"
  shows "bio_ok s'" "has_buf s' b n" "content s' = (content s)(n := x)" "pins s' = pins s"
    "disk s' = disk s" "dwrites s' = dwrites s" "bio_frame s s'" "b_data (bufs s' ! b) = x"
    "b_refcnt (bufs s' ! c) = b_refcnt (bufs s ! c)" "locked_bufs s' = locked_bufs s"
    "d \<noteq> b \<Longrightarrow> bufs s' ! d = bufs s ! d"
proof -
  have inv: "bio_inv s" and s': "s' = s\<lparr>bufs := (bufs s)[b := (bufs s ! b)\<lparr>b_data := x\<rparr>]\<rparr>"
    using assms by (simp_all add: bio_ok_def stored_def)
  note sd = set_data [OF inv assms(3,4) refl]
  show "bio_ok s'" "has_buf s' b n" "content s' = (content s)(n := x)" "pins s' = pins s"
    using sd by (simp_all add: s' iface_defs)
  have b: "b < length (bufs s)" using cache_invD(1) [OF inv] has_bufD(1) [OF assms(3)] by simp
  then show "b_data (bufs s' ! b) = x" "b_refcnt (bufs s' ! c) = b_refcnt (bufs s ! c)"
    "locked_bufs s' = locked_bufs s" "d \<noteq> b \<Longrightarrow> bufs s' ! d = bufs s ! d"
    by (auto simp: s' nth_list_update locked_bufs_def)
  show "disk s' = disk s" "dwrites s' = dwrites s" "bio_frame s s'" by (simp_all add: s' bio_frame_def)
qed

lemma wp_store [wp_simps]:
  "wp (upd_buf b (b_data_update (\<lambda>_. x))) Q = (\<lambda>s. \<forall>t. stored b x s t \<longrightarrow> Q () t)"
  "wlp (upd_buf b (b_data_update (\<lambda>_. x))) Q = (\<lambda>s. \<forall>t. stored b x s t \<longrightarrow> Q () t)"
  by (simp_all add: upd_buf_def wp_simps stored_def)

lemma bio_frame_pid: "bio_frame s s' \<Longrightarrow> cur_pid s' = cur_pid s"
  by (rule low_cur_pid) (simp add: bio_frame_def)

lemma bio_frame_held: "bio_frame s s' \<Longrightarrow> held s' = held s"
  by (rule lowD(1)) (simp add: bio_frame_def)

text \<open>An operation on one buffer leaves the others a process holds in its hands.\<close>

lemma has_buf_other:
  assumes "has_buf s c m" and "bufs s' ! c = bufs s ! c" and "bio_frame s s'"
  shows "has_buf s' c m"
  using assms bio_frame_pid [OF assms(3)] by (simp add: has_buf_def)

section \<open>An empty cache\<close>

text \<open>The static \<^verbatim>\<open>bcache\<close> is all zero when the kernel starts.\<close>

definition free_buf :: buf where
  "free_buf = \<lparr>b_valid = False, b_dirty = False, b_dev = 0, b_blockno = 0, b_lock = initsleeplock,
     b_refcnt = 0, b_data = replicate BSIZE 0\<rparr>"

lemma free_buf_sel [simp]:
  "b_valid free_buf = False" "b_dirty free_buf = False" "b_dev free_buf = 0" "b_lock free_buf = initsleeplock"
  "b_refcnt free_buf = 0" "length (b_data free_buf) = BSIZE"
  by (simp_all add: free_buf_def)

lemma free_cache:
  assumes bufs: "bufs s = replicate NBUF free_buf" and lru: "distinct (lru s)" "set (lru s) = {..< NBUF}"
    and disk: "\<And>n. length (disk s n) = BSIZE"
  shows "bio_ok s" and "content s = disk s" and "pins s = {}" and "locked_bufs s = {}"
proof -
  have nth: "b < NBUF \<Longrightarrow> bufs s ! b = free_buf" for b by (simp add: bufs)
  have "buf_ok d free_buf" for d by (simp add: buf_ok_def initsleeplock_def)
  moreover have "bufs_uniq (bufs s)" by (simp add: bufs_uniq_def nth)
  ultimately show "bio_ok s" using lru disk by (simp add: bio_ok_def cache_inv_def nth bufs)
  show "content s = disk s"
    by (rule ext) (simp add: content_def cache_blk_none nth holds_def)
  show "pins s = {}" by (auto simp: pins_def pinned_of_def nth holds_def)
  show "locked_bufs s = {}" by (auto simp: locked_bufs_def nth initsleeplock_def)
qed


definition ex_bio_state :: bio_state where
  "ex_bio_state = \<lparr>ncli = 0, intena = False, int_on = True, held = {}, mem = (\<lambda>_. 0), kend = 0, freelist = 0,
     use_lock = True, kdata = 0, kpgdir = 0, cr3 = 0, ptable = [ex_proc], initproc = None, nextpid = 2, cur = Some 0,
     ts_esp0 = 0, sym_forkret = 0, sym_trapret = 0, ticks = 0,
     bufs = replicate NBUF free_buf, lru = [], disk = (\<lambda>_. replicate BSIZE 7), disksize = 1000, dwrites = []\<rparr>"


end
