(* ===== verification/Blocks.thy ===== *)
theory Blocks
  imports Bio
begin

text \<open>
  Total correctness of block operations when nothing else is in flight: the buffer cache as a
  map from block numbers to contents, with the list of disk writes a run performs. Theory Log
  builds commit and recovery on it.
\<close>

section \<open>The cache with nothing in flight\<close>

text \<open>
  \<open>idle H s\<close>: no spin lock is held and the buffers in use are those in \<open>H\<close>, once each. Then
  \<^verbatim>\<open>bread\<close> returns as long as there is room beside the pinned blocks.
\<close>

definition idle :: "nat set \<Rightarrow> 'r bio_state_scheme \<Rightarrow> bool" where
  "idle H s \<longleftrightarrow> bio_ok s \<and> held s = {} \<and> H = locked_bufs s \<and>
     (\<forall>b < NBUF. b_refcnt (bufs s ! b) = (if b \<in> H then 1 else 0))"

lemma idle_inv: "idle H s \<Longrightarrow> bio_inv s"
  by (simp add: idle_def bio_ok_def)

lemma idle_unlocked: "idle H s \<Longrightarrow> b < NBUF \<Longrightarrow> b \<notin> H \<Longrightarrow> \<not> sl_locked (b_lock (bufs s ! b))"
  using cache_invD(4) [of "bufs s" "lru s" "disk s" b] by (auto simp: idle_def buf_ok_def bio_ok_def)

lemma idle_coherent:
  assumes "idle H s" and "\<And>b. b \<in> H \<Longrightarrow> \<not> holds (bufs s ! b) n"
  shows "n \<in> pins s \<or> content s n = disk s n"
proof (cases "\<exists>b < NBUF. holds (bufs s ! b) n")
  case True
  then obtain b where b: "b < NBUF" "holds (bufs s ! b) n" by blast
  then have "b \<notin> H" using assms(2) by blast
  then have "\<not> sl_locked (b_lock (bufs s ! b))" using idle_unlocked assms(1) b(1) by blast
  moreover note cache_invD(4) [OF idle_inv [OF assms(1)] b(1)]
  ultimately show ?thesis
    using pinned_held [OF idle_inv [OF assms(1)] b] cache_blk_held [OF idle_inv [OF assms(1)] b, of "disk s"] b(2)
    by (auto simp: buf_ok_def holds_def iface_defs)
next
  case False
  then show ?thesis by (simp add: cache_blk_none iface_defs)
qed

lemma card_dirty:
  assumes "bio_inv s"
  shows "card {b. b < NBUF \<and> b_dirty (bufs s ! b)} \<le> card (pinned s)"
proof (rule card_inj_on_le)
  have d: "b_dev (bufs s ! b) = 1" if "b < NBUF" "b_dirty (bufs s ! b)" for b
    using cache_invD(4) [OF assms that(1)] that(2) by (simp add: buf_ok_def)
  show "inj_on (\<lambda>b. b_blockno (bufs s ! b)) {b. b < NBUF \<and> b_dirty (bufs s ! b)}"
    by (rule inj_onI) (use d cache_inv_uniq [OF assms] in auto)
  show "(\<lambda>b. b_blockno (bufs s ! b)) ` {b. b < NBUF \<and> b_dirty (bufs s ! b)} \<subseteq> pinned s"
    using d by (auto simp: pinned_of_def holds_def)
  have "pinned s \<subseteq> (\<lambda>b. b_blockno (bufs s ! b)) ` {..< NBUF}" by (auto simp: pinned_of_def holds_def)
  then show "finite (pinned s)" by (rule finite_subset) simp
qed

lemma idle_bread_ready:
  assumes idle: "idle H s" and n: "n < disksize s" and new: "\<And>b. b \<in> H \<Longrightarrow> \<not> holds (bufs s ! b) n"
    and room: "card (pins s) + card H < NBUF \<or> n \<in> pins s"
  shows "bread_ready n s"
proof -
  have un: "\<not> sl_locked (b_lock (bufs s ! b))" if "b < NBUF" "holds (bufs s ! b) n" for b
    using idle_unlocked [OF idle that(1)] new that(2) by blast
  have free: "\<exists>b < NBUF. b_refcnt (bufs s ! b) = 0 \<and> \<not> b_dirty (bufs s ! b)"
    if room: "card (pins s) + card H < NBUF"
  proof -
    let ?D = "{b. b < NBUF \<and> b_dirty (bufs s ! b)}"
    have fin: "finite H" using idle finite_subset [of H "{..< NBUF}"] by (auto simp: idle_def locked_bufs_def)
    have "card (?D \<union> H) < NBUF"
      using card_Un_le [of ?D H] card_dirty [OF idle_inv [OF idle]] room [unfolded pins_def] by linarith
    then have "\<not> {..< NBUF} \<subseteq> ?D \<union> H"
      using card_mono [of "?D \<union> H" "{..< NBUF}"] fin by auto
    then obtain b where "b < NBUF" "\<not> b_dirty (bufs s ! b)" "b \<notin> H" by auto
    then show ?thesis using idle by (auto simp: idle_def)
  qed
  have "(\<exists>b < NBUF. holds (bufs s ! b) n) \<or> (\<exists>b < NBUF. b_refcnt (bufs s ! b) = 0 \<and> \<not> b_dirty (bufs s ! b))"
    using room free by (auto simp: pins_def pinned_of_def)
  then show ?thesis using un idle n by (simp add: bread_ready_def idle_def)
qed

lemma bread_rel_idle:
  assumes "idle H s" and r: "bread_rel n b s s'"
  shows "idle (insert b H) s'" and "b \<notin> H"
proof -
  show bH: "b \<notin> H" using bread_relD(10) [OF r] assms(1) by (simp add: idle_def)
  have "b_refcnt (bufs s' ! c) = (if c \<in> insert b H then 1 else 0)" if "c < NBUF" for c
    using bread_relD(9,11) [OF r] assms(1) that bH by (cases "c = b") (simp_all add: idle_def)
  then show "idle (insert b H) s'"
    using bio_frame_held [OF bread_relD(7) [OF r]] bread_relD(1) [OF r] bread_rel_locked [OF r] assms(1)
    by (simp add: idle_def)
qed

lemma brelse_rel_idle:
  assumes "idle H s" and r: "brelse_rel b s s'" and "b \<in> H"
  shows "idle (H - {b}) s'"
proof -
  have "b_refcnt (bufs s' ! c) = (if c \<in> H - {b} then 1 else 0)" if "c < NBUF" for c
    using brelse_relD(8,9) [OF r] assms(1,3) that by (cases "c = b") (simp_all add: idle_def)
  then show ?thesis
    using bio_frame_held [OF brelse_relD(6) [OF r]] brelse_relD(1,7) [OF r] assms(1) by (simp add: idle_def)
qed

lemma bwrite_rel_idle:
  assumes "idle H s" and r: "bwrite_rel n b s s'"
  shows "idle H s'"
proof -
  have "b_refcnt (bufs s' ! c) = b_refcnt (bufs s ! c)" for c
    using bwrite_relD(9,11) [OF r] by (cases "c = b") simp_all
  then show ?thesis
    using bio_frame_held [OF bwrite_relD(7) [OF r]] bwrite_relD(1,10) [OF r] assms(1) by (simp add: idle_def)
qed

text \<open>Disk writes, as a list of block numbers and contents, and what a run of the cache that
  performs them leaves.\<close>

definition apply_writes :: "(nat \<times> byte list) list \<Rightarrow> diskimg \<Rightarrow> diskimg" where
  "apply_writes ws d = fold (\<lambda>(n, x) d. d(n := x)) ws d"

lemma apply_writes_simps [simp]:
  "apply_writes [] d = d" "apply_writes ((n, x) # ws) d = apply_writes ws (d(n := x))"
  "apply_writes (ws @ vs) d = apply_writes vs (apply_writes ws d)"
  by (simp_all add: apply_writes_def)

definition wrote :: "(nat \<times> byte list) list \<Rightarrow> 'r bio_state_scheme \<Rightarrow> 'r bio_state_scheme \<Rightarrow> bool" where
  "wrote ws s s' \<longleftrightarrow> content s' = apply_writes ws (content s) \<and> disk s' = apply_writes ws (disk s) \<and>
     pins s' = pins s - fst ` set ws \<and> dwrites s' = dwrites s @ ws \<and> bio_frame s s'"

lemma wrote_Nil [simp]: "wrote [] s s"
  by (simp add: wrote_def)

lemma wrote_trans: "wrote ws s t \<Longrightarrow> wrote vs t u \<Longrightarrow> wrote (ws @ vs) s u"
  by (auto simp: wrote_def intro: bio_frame_trans)

lemma wrote_Nil_trans: "wrote [] s t \<Longrightarrow> wrote vs t u \<Longrightarrow> wrote vs s u"
    "wrote vs s t \<Longrightarrow> wrote [] t u \<Longrightarrow> wrote vs s u"
  using wrote_trans [of "[]" s t vs u] wrote_trans [of vs s t "[]" u] by simp_all

lemma bread_rel_wrote: "bread_rel n b s s' \<Longrightarrow> wrote [] s s'"
  by (simp add: wrote_def bread_relD)

lemma brelse_rel_wrote: "brelse_rel b s s' \<Longrightarrow> wrote [] s s'"
  by (simp add: wrote_def brelse_relD)

lemma bread_idle:
  assumes idle: "idle H s" and "n < disksize s" and "card (pins s) + card H < NBUF \<or> n \<in> pins s"
    and "\<And>b. b \<in> H \<Longrightarrow> \<not> holds (bufs s ! b) n"
  shows "wp (bread 1 n) (\<lambda>b s'. bread_rel n b s s' \<and> idle (insert b H) s' \<and> b \<notin> H) s"
  by (rule wp_mono [OF bread_total [OF idle_inv [OF idle] idle_bread_ready [OF idle]]])
    (use assms in \<open>auto dest: bread_rel_idle [OF idle]\<close>)

lemma brelse_idle:
  assumes "idle H s" and "has_buf s b n" and coh: "n \<in> pins s \<or> content s n = disk s n"
  shows "wp (brelse b) (\<lambda>_ s'. brelse_rel b s s' \<and> idle (H - {b}) s') s"
proof -
  have h: "b \<in> H" "held s = {}" using has_bufD(4) [OF assms(2)] assms(1) by (simp_all add: idle_def)
  show ?thesis
    by (rule wp_mono [OF brelse_total [OF idle_inv [OF assms(1)] assms(2) coh [unfolded iface_defs] h(2)]])
      (use brelse_rel_idle [OF assms(1) _ h(1)] in blast)
qed

lemma bwrite_idle:
  assumes "idle H s" and "has_buf s b n" and "n < disksize s"
  shows "wp (bwrite b) (\<lambda>_ s'. bwrite_rel n b s s' \<and> idle H s') s"
proof -
  have "LBufSl b \<notin> held s" using assms(1) by (simp add: idle_def)
  then show ?thesis
    by (intro wp_mono [OF bwrite_total [OF idle_inv [OF assms(1)] assms(2) _ assms(3)]])
      (use bwrite_rel_idle [OF assms(1)] in blast)+
qed

lemma stored_idle:
  assumes "stored b x s s'" "has_buf s b n" "length x = BSIZE" "idle H s"
  shows "idle H s'"
proof -
  have ok: "bio_ok s" using assms(4) by (simp add: idle_def)
  note D = storedD [OF assms(1) ok assms(2,3)]
  show ?thesis using D(1,9,10) bio_frame_held [OF D(7)] assms(4) by (simp add: idle_def)
qed

text \<open>Storing into a held buffer and writing it back writes the block.\<close>

lemma store_bwrite:
  assumes idle: "idle H s" and has: "has_buf s b n" and len: "length x = BSIZE" and n: "n < disksize s"
    and st: "stored b x s t"
  shows "wp (bwrite b) (\<lambda>_ s'. wrote [(n, x)] s s' \<and> idle H s' \<and> has_buf s' b n \<and>
      (\<forall>c. c \<noteq> b \<longrightarrow> bufs s' ! c = bufs s ! c)) t"
proof -
  have ok: "bio_ok s" using idle by (simp add: idle_def)
  note D = storedD [OF st ok has len]
  have t: "idle H t" by (rule stored_idle [OF st has len idle])
  have nt: "n < disksize t" using D(7) n by (simp add: bio_frame_def)
  show ?thesis
  proof (rule wp_mono [OF bwrite_idle [OF t D(2) nt]], elim conjE)
    fix s' assume r: "bwrite_rel n b t s'" and i: "idle H s'"
    note E = bwrite_relD [OF r]
    have "wrote [(n, x)] s s'" using D E by (auto simp: wrote_def intro: bio_frame_trans)
    then show "wrote [(n, x)] s s' \<and> idle H s' \<and> has_buf s' b n \<and> (\<forall>c. c \<noteq> b \<longrightarrow> bufs s' ! c = bufs s ! c)"
      using i E(2,11) D(11) by simp
  qed
qed

text \<open>The common tail of \<^verbatim>\<open>write_log\<close> and \<^verbatim>\<open>install_trans\<close>: copy one held buffer to another, write
  that one, release both.\<close>

lemma copy_tail:
  assumes idle: "idle {src, dst} s" and hs: "has_buf s src m" and hd: "has_buf s dst n" and ne: "m \<noteq> n"
    and n: "n < disksize s" and coh: "m \<in> pins s \<or> content s m = disk s m" and st: "stored dst (content s m) s t"
  shows "wp (kbind (bwrite dst) (\<lambda>_. kbind (brelse src) (\<lambda>_. brelse dst)))
    (\<lambda>_ s'. wrote [(n, content s m)] s s' \<and> idle {} s') t"
proof -
  have ok: "bio_ok s" using idle by (simp add: idle_def)
  have sd: "src \<noteq> dst" using hs hd ne by (auto simp: has_buf_def holds_def)
  show ?thesis
  proof (rule wp_seq [OF store_bwrite [OF idle hd content_length [OF ok] n st]], elim conjE)
    fix t1 assume w1: "wrote [(n, content s m)] s t1" and i1: "idle {src, dst} t1" and h1: "has_buf t1 dst n"
      and o1: "\<forall>c. c \<noteq> dst \<longrightarrow> bufs t1 ! c = bufs s ! c"
    have hs1: "has_buf t1 src m" using has_buf_other [OF hs] o1 sd w1 by (simp add: wrote_def)
    have coh1: "m \<in> pins t1 \<or> content t1 m = disk t1 m" using w1 coh ne by (simp add: wrote_def)
    show "wp (kbind (brelse src) (\<lambda>_. brelse dst)) (\<lambda>_ s'. wrote [(n, content s m)] s s' \<and> idle {} s') t1"
    proof (rule wp_seq [OF brelse_idle [OF i1 hs1 coh1]], elim conjE)
      fix t2 assume r2: "brelse_rel src t1 t2" and i2: "idle ({src, dst} - {src}) t2"
      have h2: "has_buf t2 dst n"
        using has_buf_other [OF h1] brelse_relD(9) [OF r2, of dst] brelse_relD(6) [OF r2] sd by simp
      have coh2: "n \<in> pins t2 \<or> content t2 n = disk t2 n"
        using w1 brelse_relD [OF r2] by (simp add: wrote_def)
      have "wrote [(n, content s m)] s t2" by (rule wrote_Nil_trans(2) [OF w1 brelse_rel_wrote [OF r2]])
      then show "wp (brelse dst) (\<lambda>_ s'. wrote [(n, content s m)] s s' \<and> idle {} s') t2"
        by (intro wp_mono [OF brelse_idle [OF i2 h2 coh2]])
          (use sd in \<open>auto dest!: brelse_rel_wrote intro: wrote_Nil_trans(2)\<close>)
    qed
  qed
qed

text \<open>Their common head: two blocks are read.\<close>

lemma two_breads:
  assumes idle: "idle {} s" and n: "n < disksize s" "m < disksize s" "n \<noteq> m"
    and room: "card (pins s) < NBUF" "card (pins s) + 1 < NBUF \<or> m \<in> pins s"
    and rest: "\<And>b c t. idle {b, c} t \<Longrightarrow> has_buf t b n \<Longrightarrow> has_buf t c m \<Longrightarrow> wrote [] s t \<Longrightarrow>
      b_data (bufs t ! b) = content s n \<Longrightarrow> b_data (bufs t ! c) = content s m \<Longrightarrow> wp (F b c) Q t"
  shows "wp (kbind (bread 1 n) (\<lambda>b. kbind (bread 1 m) (F b))) Q s"
proof (rule wp_seq [OF bread_idle [OF idle n(1)]], goal_cases)
  case (3 b t)
  then have r: "bread_rel n b s t" and i: "idle {b} t" by simp_all
  note D = bread_relD [OF r]
  have m: "m < disksize t" "card (pins t) + card {b} < NBUF \<or> m \<in> pins t"
    using D(4,7) n(2) room(2) by (auto simp: bio_frame_def)
  have "wp (bread 1 m) (\<lambda>c u. bread_rel m c t u \<and> idle (insert c {b}) u \<and> c \<notin> {b}) t"
    by (rule bread_idle [OF i m]) (use has_bufD(2) [OF D(2)] n(3) in \<open>simp add: holds_def\<close>)
  then show ?case
  proof (rule wp_seq, elim conjE)
    fix c u assume r2: "bread_rel m c t u" and i2: "idle (insert c {b}) u" and cb: "c \<notin> {b}"
    note E = bread_relD [OF r2]
    have "has_buf u b n" using has_buf_other [OF D(2)] E(7) E(11) [of b] cb by auto
    moreover have "idle {b, c} u" using i2 by (simp add: insert_commute)
    moreover have "wrote [] s u"
      by (rule wrote_Nil_trans(1) [OF bread_rel_wrote [OF r] bread_rel_wrote [OF r2]])
    ultimately show "wp (F b c) Q u" using rest [of b c u] E(2,8) E(11) [of b] cb D(3,8) by simp
  qed
qed (use room in auto)

end
