(* ===== verification/Log.thy ===== *)
theory Log
  imports Blocks
begin

text \<open>
  The write-ahead log (\<^verbatim>\<open>log.c\<close>), and \<^verbatim>\<open>readsb\<close> of \<^verbatim>\<open>fs.c\<close>, which it uses. The log header block
  and the super block are the little-endian images of the C structures. Proved here: what
  a commit writes, and in which order. Theory Crash shows that a transaction is atomic with respect
  to crashes, theory Reserve that the reservation scheme of \<^verbatim>\<open>begin_op\<close> keeps the log from
  overflowing under every interleaving.
\<close>

section \<open>State\<close>

definition MAXOPBLOCKS :: int where "MAXOPBLOCKS = 10"
definition LOGSIZE :: int where "LOGSIZE = MAXOPBLOCKS * 3"

record superblock =
  sb_size :: nat
  sb_nblocks :: nat
  sb_ninodes :: nat
  sb_nlog :: nat
  sb_logstart :: nat
  sb_inodestart :: nat
  sb_bmapstart :: nat

record log_state = bio_state +
  log_start :: nat
  log_size :: int
  log_outstanding :: int
  log_committing :: bool
  log_dev :: nat
  lh_n :: int               \<comment> \<open>\<^verbatim>\<open>log.lh.n\<close>\<close>
  lh_block :: "nat list"    \<comment> \<open>\<^verbatim>\<open>log.lh.block\<close>, \<^verbatim>\<open>LOGSIZE\<close> entries\<close>

text \<open>The \<open>i\<close>th 32-bit field of a structure in a block.\<close>

definition get32 :: "byte list \<Rightarrow> nat \<Rightarrow> nat" where
  "get32 d i = le_dec (take 4 (drop (4 * i) d))"

definition put32 :: "nat \<Rightarrow> nat \<Rightarrow> byte list \<Rightarrow> byte list" where
  "put32 i x d = splice (4 * i) (le_enc 4 x) d"

section \<open>Super block\<close>

definition readsb :: "nat \<Rightarrow> ('r log_state_scheme, superblock) K" where
  "readsb dev =
     kbind (bread dev 1) (\<lambda>bp.
     kbind (get_buf bp b_data) (\<lambda>d.
     kbind (brelse bp) (\<lambda>_.
     kreturn \<lparr>sb_size = get32 d 0, sb_nblocks = get32 d 1, sb_ninodes = get32 d 2,
              sb_nlog = get32 d 3, sb_logstart = get32 d 4, sb_inodestart = get32 d 5,
              sb_bmapstart = get32 d 6\<rparr>)))"

section \<open>Log operations\<close>

text \<open>\<^verbatim>\<open>memmove(dst->data, src->data, BSIZE)\<close>\<close>

definition copy_buf :: "nat \<Rightarrow> nat \<Rightarrow> ('r bio_state_scheme, unit) K" where
  "copy_buf dst src = kbind (get_buf src b_data) (\<lambda>d. upd_buf dst (\<lambda>f. f\<lparr>b_data := d\<rparr>))"

definition install_trans :: "('r log_state_scheme, unit) K" where
  "install_trans =
     kbind (kget lh_n) (\<lambda>n.
     kfor [0 ..< nat n] (\<lambda>tail.
       kbind (kget (\<lambda>s. (log_dev s, log_start s, lh_block s ! tail))) (\<lambda>(dev, start, home).
       kbind (bread dev (start + tail + 1)) (\<lambda>lbuf.
       kbind (bread dev home) (\<lambda>dbuf.
       kbind (copy_buf dbuf lbuf) (\<lambda>_.
       kbind (bwrite dbuf) (\<lambda>_.
       kbind (brelse lbuf) (\<lambda>_.
       brelse dbuf))))))))"

definition read_head :: "('r log_state_scheme, unit) K" where
  "read_head =
     kbind (kget (\<lambda>s. (log_dev s, log_start s))) (\<lambda>(dev, start).
     kbind (bread dev start) (\<lambda>b.
     kbind (get_buf b b_data) (\<lambda>lh.
     kbind (kmod (\<lambda>s. s\<lparr>lh_n := s32 (int (get32 lh 0))\<rparr>)) (\<lambda>_.
     kbind (kget lh_n) (\<lambda>n.
     kbind (kfor [0 ..< nat n] (\<lambda>i.
       kmod (\<lambda>s. s\<lparr>lh_block := (lh_block s)[i := get32 lh (1 + i)]\<rparr>))) (\<lambda>_.
     brelse b))))))"

definition write_head :: "('r log_state_scheme, unit) K" where
  "write_head =
     kbind (kget (\<lambda>s. (log_dev s, log_start s))) (\<lambda>(dev, start).
     kbind (bread dev start) (\<lambda>b.
     kbind (kget lh_n) (\<lambda>n.
     kbind (upd_buf b (\<lambda>f. f\<lparr>b_data := put32 0 (nat (n mod 2 ^ 32)) (b_data f)\<rparr>)) (\<lambda>_.
     kbind (kfor [0 ..< nat n] (\<lambda>i.
       kbind (kget (\<lambda>s. lh_block s ! i)) (\<lambda>bn.
       upd_buf b (\<lambda>f. f\<lparr>b_data := put32 (1 + i) bn (b_data f)\<rparr>)))) (\<lambda>_.
     kbind (bwrite b) (\<lambda>_.
     brelse b))))))"

definition recover_from_log :: "('r log_state_scheme, unit) K" where
  "recover_from_log =
     kbind read_head (\<lambda>_.
     kbind install_trans (\<lambda>_.
     kbind (kmod (\<lambda>s. s\<lparr>lh_n := 0\<rparr>)) (\<lambda>_.
     write_head)))"

text \<open>\<^verbatim>\<open>sizeof(struct logheader)\<close> is \<open>4 + 4 * LOGSIZE\<close>.\<close>

definition initlog :: "nat \<Rightarrow> ('r log_state_scheme, unit) K" where
  "initlog dev =
     (if int BSIZE \<le> 4 + 4 * LOGSIZE then kpanic ''initlog: too big logheader''
      else
        kbind (readsb dev) (\<lambda>sb.
        kbind (kmod (\<lambda>s. s\<lparr>log_start := sb_logstart sb, log_size := s32 (int (sb_nlog sb)), log_dev := dev\<rparr>)) (\<lambda>_.
        recover_from_log)))"

definition begin_op :: "('r log_state_scheme, unit) K" where
  "begin_op =
     kbind (acquire LLog) (\<lambda>_.
     kbind (kget (\<lambda>s. s)) (\<lambda>s.
     if log_committing s then sleep ChanLog LLog
     else if lh_n s + (log_outstanding s + 1) * MAXOPBLOCKS > LOGSIZE then sleep ChanLog LLog
     else
       kbind (kmod (\<lambda>s. s\<lparr>log_outstanding := log_outstanding s + 1\<rparr>)) (\<lambda>_.
       release LLog)))"

definition write_log :: "('r log_state_scheme, unit) K" where
  "write_log =
     kbind (kget lh_n) (\<lambda>n.
     kfor [0 ..< nat n] (\<lambda>tail.
       kbind (kget (\<lambda>s. (log_dev s, log_start s, lh_block s ! tail))) (\<lambda>(dev, start, home).
       kbind (bread dev (start + tail + 1)) (\<lambda>to.
       kbind (bread dev home) (\<lambda>from.
       kbind (copy_buf to from) (\<lambda>_.
       kbind (bwrite to) (\<lambda>_.
       kbind (brelse from) (\<lambda>_.
       brelse to))))))))"

definition commit :: "('r log_state_scheme, unit) K" where
  "commit =
     kbind (kget lh_n) (\<lambda>n.
     if 0 < n then
       kbind write_log (\<lambda>_.
       kbind write_head (\<lambda>_.
       kbind install_trans (\<lambda>_.
       kbind (kmod (\<lambda>s. s\<lparr>lh_n := 0\<rparr>)) (\<lambda>_.
       write_head))))
     else kreturn ())"

definition end_op :: "('r log_state_scheme, unit) K" where
  "end_op =
     kbind (acquire LLog) (\<lambda>_.
     kbind (kmod (\<lambda>s. s\<lparr>log_outstanding := log_outstanding s - 1\<rparr>)) (\<lambda>_.
     kbind (kget log_committing) (\<lambda>c.
     if c then kpanic ''log.committing''
     else
       kbind (kget log_outstanding) (\<lambda>o'.
       kbind (if o' = 0 then kmod (\<lambda>s. s\<lparr>log_committing := True\<rparr>) else wakeup ChanLog) (\<lambda>_.
       kbind (release LLog) (\<lambda>_.
       if o' = 0 then
         kbind commit (\<lambda>_.
         kbind (acquire LLog) (\<lambda>_.
         kbind (kmod (\<lambda>s. s\<lparr>log_committing := False\<rparr>)) (\<lambda>_.
         kbind (wakeup ChanLog) (\<lambda>_.
         release LLog))))
       else kreturn ()))))))"

text \<open>The index at which the search of \<^verbatim>\<open>log_write\<close> for the block stops.\<close>

definition log_index :: "nat list \<Rightarrow> nat \<Rightarrow> nat \<Rightarrow> nat" where
  "log_index bl n bn = (case List.find (\<lambda>i. bl ! i = bn) [0 ..< n] of Some i \<Rightarrow> i | None \<Rightarrow> n)"

definition log_write :: "nat \<Rightarrow> ('r log_state_scheme, unit) K" where
  "log_write b =
     kbind (kget (\<lambda>s. s)) (\<lambda>s.
     if LOGSIZE \<le> lh_n s \<or> log_size s - 1 \<le> lh_n s then kpanic ''too big a transaction''
     else if log_outstanding s < 1 then kpanic ''log_write outside of trans''
     else
       kbind (acquire LLog) (\<lambda>_.
       kbind (get_buf b b_blockno) (\<lambda>bn.
       kbind (kget (\<lambda>s. log_index (lh_block s) (nat (lh_n s)) bn)) (\<lambda>i.
       kbind (kmod (\<lambda>s. s\<lparr>lh_block := (lh_block s)[i := bn]\<rparr>)) (\<lambda>_.
       kbind (kmod (\<lambda>s. if int i = lh_n s then s\<lparr>lh_n := lh_n s + 1\<rparr> else s)) (\<lambda>_.
       kbind (upd_buf b (\<lambda>f. f\<lparr>b_dirty := True\<rparr>)) (\<lambda>_.
       release LLog)))))))"

section \<open>Fields of a block\<close>

lemma length_put32 [simp]: "4 * i + 4 \<le> length d \<Longrightarrow> length (put32 i x d) = length d"
  by (simp add: put32_def)

lemma get32_put32:
  assumes "4 * i + 4 \<le> length d" and "4 * j + 4 \<le> length d"
  shows "get32 (put32 j x d) i = (if i = j then x mod 2 ^ 32 else get32 d i)"
proof (cases "i = j")
  case True
  then show ?thesis using assms slice_splice_same [of "4 * j" "le_enc 4 x" d]
    by (simp add: get32_def put32_def le_dec_enc)
next
  case False
  then have "4 * i + 4 \<le> 4 * j \<or> 4 * j + 4 \<le> 4 * i" by linarith
  then show ?thesis using assms False slice_splice_other [of "4 * j" "le_enc 4 x" d "4 * i" 4]
    by (simp add: get32_def put32_def)
qed

text \<open>The header block after \<^verbatim>\<open>write_head\<close>.\<close>

definition head_image :: "nat \<Rightarrow> nat list \<Rightarrow> byte list \<Rightarrow> byte list" where
  "head_image n bs x = fold (\<lambda>i d. put32 (1 + i) (bs ! i) d) [0 ..< n] (put32 0 n x)"

lemma head_image_fold:
  assumes "4 * n + 4 \<le> length x" and "k \<le> n"
  shows "length (fold (\<lambda>i d. put32 (1 + i) (bs ! i) d) [0 ..< k] (put32 0 m x)) = length x"
    and "i \<le> n \<Longrightarrow> get32 (fold (\<lambda>i d. put32 (1 + i) (bs ! i) d) [0 ..< k] (put32 0 m x)) i =
      (if i = 0 then m mod 2 ^ 32 else if i \<le> k then bs ! (i - 1) mod 2 ^ 32 else get32 x i)"
  using assms(2)
proof (induction k)
  case 0
  { case 1
    then show ?case using assms by simp
  next
    case 2
    then show ?case using assms by (simp add: get32_put32)
  }
next
  case (Suc k)
  { case 1
    then show ?case using Suc.IH(1) assms by simp
  next
    case 2
    then show ?case using Suc.IH assms by (auto simp: get32_put32)
  }
qed

lemma head_image_length: "4 * n + 4 \<le> length x \<Longrightarrow> length (head_image n bs x) = length x"
  by (simp add: head_image_def head_image_fold)

lemma head_image_n: "4 * n + 4 \<le> length x \<Longrightarrow> get32 (head_image n bs x) 0 = n mod 2 ^ 32"
  by (simp add: head_image_def head_image_fold)

lemma head_image_block:
  "4 * n + 4 \<le> length x \<Longrightarrow> i < n \<Longrightarrow> get32 (head_image n bs x) (1 + i) = bs ! i mod 2 ^ 32"
  using head_image_fold(2) [of n x n "1 + i" bs n] by (simp add: head_image_def)

section \<open>Commit\<close>

lemma log_fields:
  assumes "bio_state.more s' = bio_state.more s"
  shows "log_start s' = log_start s" "log_size s' = log_size s" "log_outstanding s' = log_outstanding s"
    "log_committing s' = log_committing s" "log_dev s' = log_dev s" "lh_n s' = lh_n s"
    "lh_block s' = lh_block s" "log_state.more s' = log_state.more s"
  using assms by (cases s; cases s'; simp)+

lemma wrote_fields:
  assumes "wrote ws s s'"
  shows "log_start s' = log_start s" "log_size s' = log_size s" "log_outstanding s' = log_outstanding s"
    "log_committing s' = log_committing s" "log_dev s' = log_dev s" "lh_n s' = lh_n s"
    "lh_block s' = lh_block s" "log_state.more s' = log_state.more s" "disksize s' = disksize s"
    "low s' = low s"
proof -
  have m: "bio_state.more s' = bio_state.more s" using assms by (simp add: wrote_def bio_frame_def)
  show "log_start s' = log_start s" "log_size s' = log_size s" "log_outstanding s' = log_outstanding s"
    "log_committing s' = log_committing s" "log_dev s' = log_dev s" "lh_n s' = lh_n s"
    "lh_block s' = lh_block s" "log_state.more s' = log_state.more s"
    by (rule log_fields [OF m])+
  show "disksize s' = disksize s" "low s' = low s" using assms by (simp_all add: wrote_def bio_frame_def)
qed

text \<open>The blocks of the running transaction, and the blocks the log itself occupies.\<close>

definition txn :: "'r log_state_scheme \<Rightarrow> nat list" where
  "txn s = take (nat (lh_n s)) (lh_block s)"

definition log_region :: "'r log_state_scheme \<Rightarrow> nat set" where
  "log_region s = {log_start s ..< log_start s + nat (log_size s)}"

definition log_ok :: "'r log_state_scheme \<Rightarrow> bool" where
  "log_ok s \<longleftrightarrow> log_dev s = 1 \<and> length (lh_block s) = nat LOGSIZE \<and>
     0 \<le> lh_n s \<and> lh_n s \<le> LOGSIZE \<and> lh_n s < log_size s \<and>
     log_start s + nat (log_size s) \<le> disksize s \<and> disksize s \<le> 2 ^ 31 \<and>
     distinct (txn s) \<and> (\<forall>b \<in> set (txn s). b < disksize s \<and> b \<notin> log_region s)"

lemma length_txn: "log_ok s \<Longrightarrow> length (txn s) = nat (lh_n s)"
  by (auto simp: txn_def log_ok_def min_def)

lemma txn_nth: "log_ok s \<Longrightarrow> i < nat (lh_n s) \<Longrightarrow> txn s ! i = lh_block s ! i"
  by (simp add: txn_def)

lemma finite_pins: "finite (pins s)"
proof -
  have "pins s \<subseteq> (\<lambda>b. b_blockno (bufs s ! b)) ` {..< NBUF}"
    by (auto simp: pins_def pinned_of_def holds_def)
  then show ?thesis by (rule finite_subset) simp
qed

lemma wrote_pins_card: "wrote ws s s' \<Longrightarrow> card (pins s') \<le> card (pins s)"
  by (rule card_mono [OF finite_pins]) (auto simp: wrote_def)

lemma apply_writes_other: "n \<notin> fst ` set ws \<Longrightarrow> apply_writes ws d n = d n"
  by (induction ws arbitrary: d) auto

text \<open>A loop of which every turn writes one block.\<close>

lemma wrote_loop:
  assumes "idle {} s"
    and "\<And>i t. i < k \<Longrightarrow> idle {} t \<Longrightarrow> wrote (map f [0 ..< i]) s t \<Longrightarrow>
      wp (body i) (\<lambda>_ u. wrote [f i] t u \<and> idle {} u) t"
  shows "wp (kfor [0 ..< k] body) (\<lambda>_ s'. wrote (map f [0 ..< k]) s s' \<and> idle {} s') s"
  using assms
proof (induction k)
  case 0
  then show ?case by (simp add: wp_simps)
next
  case (Suc k)
  have "wp (kfor [0 ..< k] body) (\<lambda>_ s'. wrote (map f [0 ..< k]) s s' \<and> idle {} s') s"
    by (rule Suc.IH [OF Suc.prems(1)]) (use Suc.prems(2) in simp)
  then have "wp (kbind (kfor [0 ..< k] body) (\<lambda>_. kbind (body k) (\<lambda>_. kreturn ())))
      (\<lambda>_ s'. wrote (map f [0 ..< k] @ [f k]) s s' \<and> idle {} s') s"
  proof (rule wp_seq, elim conjE)
    fix t assume t: "wrote (map f [0 ..< k]) s t" "idle {} t"
    then have "wp (body k) (\<lambda>_ u. wrote [f k] t u \<and> idle {} u) t" using Suc.prems(2) by simp
    then show "wp (kbind (body k) (\<lambda>_. kreturn ()))
        (\<lambda>_ s'. wrote (map f [0 ..< k] @ [f k]) s s' \<and> idle {} s') t"
      by (simp add: wp_simps) (erule wp_mono, use t wrote_trans in blast)
  qed
  then show ?case by (simp add: kfor_append)
qed

text \<open>The disk writes of the three phases of a commit.\<close>

definition log_writes :: "'r log_state_scheme \<Rightarrow> diskimg \<Rightarrow> (nat \<times> byte list) list" where
  "log_writes s c = map (\<lambda>i. (log_start s + i + 1, c (txn s ! i))) [0 ..< nat (lh_n s)]"

definition home_writes :: "'r log_state_scheme \<Rightarrow> diskimg \<Rightarrow> (nat \<times> byte list) list" where
  "home_writes s c = map (\<lambda>i. (txn s ! i, c (log_start s + i + 1))) [0 ..< nat (lh_n s)]"

lemma log_region_nth: "log_ok s \<Longrightarrow> i < nat (lh_n s) \<Longrightarrow> log_start s + i + 1 \<in> log_region s"
  by (auto simp: log_ok_def log_region_def)

lemma log_block_in_disk: "log_ok s \<Longrightarrow> i < nat (lh_n s) \<Longrightarrow> log_start s + i + 1 < disksize s"
  by (auto simp: log_ok_def)

lemma txn_home:
  assumes "log_ok s" and "i < nat (lh_n s)"
  shows "txn s ! i < disksize s" and "txn s ! i \<notin> log_region s"
  using assms length_txn [OF assms(1)] by (auto simp: log_ok_def)

text \<open>One turn of \<^verbatim>\<open>write_log\<close> and one of \<^verbatim>\<open>install_trans\<close>: block \<open>m\<close> is copied to block \<open>n\<close>.\<close>

lemma copy_held:
  assumes t: "idle {} t" and u: "idle {src, dst} u" "has_buf u src m" "has_buf u dst n" "wrote [] t u"
    and ne: "m \<noteq> n" and n: "n < disksize t"
  shows "wp (kbind (copy_buf dst src) (\<lambda>_. kbind (bwrite dst) (\<lambda>_. kbind (brelse src) (\<lambda>_. brelse dst))))
    (\<lambda>_ s'. wrote [(n, content t m)] t s' \<and> idle {} s') u"
proof -
  have ok: "bio_ok u" using u(1) by (simp add: idle_def)
  have c: "content u m = content t m" "pins u = pins t" "disk u = disk t" "disksize u = disksize t"
    using u(4) by (simp_all add: wrote_def bio_frame_def)
  have "wp (kbind (bwrite dst) (\<lambda>_. kbind (brelse src) (\<lambda>_. brelse dst)))
      (\<lambda>_ s'. wrote [(n, content t m)] t s' \<and> idle {} s') v"
    if st: "stored dst (content u m) u v" for v
    by (rule wp_mono [OF copy_tail [OF u(1-3) ne _ _ st]])
      (use idle_coherent [OF t, of m] n c u(4) in \<open>auto intro: wrote_Nil_trans(1)\<close>)
  then show ?thesis
    using has_buf_content [OF ok u(2)]
    by (simp add: copy_buf_def kbind_assoc wp_kbind [of "get_buf src b_data"]
        wp_kbind [of "upd_buf dst x" for x] wp_store upd_get_buf_wp(3))
qed

lemma log_turn:
  assumes t: "idle {} t" and ne: "m \<noteq> n" and "n < disksize t" "m < disksize t"
    and room: "card (pins t) < NBUF" "card (pins t) + 1 < NBUF \<or> m \<in> pins t"
  shows "wp (kbind (bread 1 n) (\<lambda>to. kbind (bread 1 m) (\<lambda>from.
      kbind (copy_buf to from) (\<lambda>_. kbind (bwrite to) (\<lambda>_. kbind (brelse from) (\<lambda>_. brelse to))))))
    (\<lambda>_ u. wrote [(n, content t m)] t u \<and> idle {} u) t"
proof (rule two_breads [OF t assms(3,4) _ room])
  fix b c u
  assume u: "idle {b, c} u" "has_buf u b n" "has_buf u c m" "wrote [] t u"
  then have "idle {c, b} u" by (simp add: insert_commute)
  then show "wp (kbind (copy_buf b c) (\<lambda>_. kbind (bwrite b) (\<lambda>_. kbind (brelse c) (\<lambda>_. brelse b))))
      (\<lambda>_ s'. wrote [(n, content t m)] t s' \<and> idle {} s') u"
    using u by (intro copy_held [OF t _ _ _ _ ne assms(3)])
qed (use ne in simp)

lemma install_turn:
  assumes t: "idle {} t" and ne: "m \<noteq> n" and "n < disksize t" "m < disksize t"
    and room: "card (pins t) < NBUF" "card (pins t) + 1 < NBUF \<or> n \<in> pins t"
  shows "wp (kbind (bread 1 m) (\<lambda>lbuf. kbind (bread 1 n) (\<lambda>dbuf.
      kbind (copy_buf dbuf lbuf) (\<lambda>_. kbind (bwrite dbuf) (\<lambda>_. kbind (brelse lbuf) (\<lambda>_. brelse dbuf))))))
    (\<lambda>_ u. wrote [(n, content t m)] t u \<and> idle {} u) t"
  by (rule two_breads [OF t assms(4,3) ne room], rule copy_held [OF t _ _ _ _ ne assms(3)])

lemma write_log_spec:
  assumes idle: "idle {} s" and ok: "log_ok s" and room: "card (pins s) < NBUF" "set (txn s) \<subseteq> pins s"
  shows "wp write_log (\<lambda>_ s'. wrote (log_writes s (content s)) s s' \<and> idle {} s') s"
  unfolding write_log_def log_writes_def wp_kbind [of "kget lh_n"] wp_kget
proof (rule wrote_loop [OF idle])
  let ?f = "\<lambda>i. (log_start s + i + 1, content s (txn s ! i))"
  fix i t assume i: "i < nat (lh_n s)" and t: "idle {} t" and w: "wrote (map ?f [0 ..< i]) s t"
  note F = wrote_fields [OF w]
  have home: "lh_block t ! i = txn s ! i" "log_start t = log_start s" "log_dev t = 1" "disksize t = disksize s"
    using F txn_nth [OF ok i] ok by (simp_all add: log_ok_def)
  have ne: "txn s ! i \<noteq> log_start s + i + 1"
    using log_region_nth [OF ok i] txn_home(2) [OF ok i] by metis
  have new: "txn s ! i \<notin> fst ` set (map ?f [0 ..< i])"
    using log_region_nth [OF ok] i txn_home(2) [OF ok i] by auto
  have pin: "txn s ! i \<in> pins t"
    using new w room(2) i length_txn [OF ok] by (auto simp: wrote_def)
  from new have c: "content t (txn s ! i) = content s (txn s ! i)"
    using w by (simp add: wrote_def apply_writes_other)
  show "wp (kbind (kget (\<lambda>s. (log_dev s, log_start s, lh_block s ! i))) (\<lambda>(dev, start, home).
       kbind (bread dev (start + i + 1)) (\<lambda>to. kbind (bread dev home) (\<lambda>from.
       kbind (copy_buf to from) (\<lambda>_. kbind (bwrite to) (\<lambda>_. kbind (brelse from) (\<lambda>_. brelse to)))))))
      (\<lambda>_ u. wrote [?f i] t u \<and> idle {} u) t"
    using log_turn [OF t ne] txn_home(1) [OF ok i] log_block_in_disk [OF ok i] wrote_pins_card [OF w] pin room(1)
    by (simp add: wp_kbind [of "kget f" for f] wp_kget home c)
qed

lemma install_trans_spec:
  assumes idle: "idle {} s" and ok: "log_ok s"
    and room: "card (pins s) < NBUF" "card (pins s) + 1 < NBUF \<or> set (txn s) \<subseteq> pins s"
  shows "wp install_trans (\<lambda>_ s'. wrote (home_writes s (content s)) s s' \<and> idle {} s') s"
  unfolding install_trans_def home_writes_def wp_kbind [of "kget lh_n"] wp_kget
proof (rule wrote_loop [OF idle])
  let ?f = "\<lambda>i. (txn s ! i, content s (log_start s + i + 1))"
  fix i t assume i: "i < nat (lh_n s)" and t: "idle {} t" and w: "wrote (map ?f [0 ..< i]) s t"
  note F = wrote_fields [OF w]
  have home: "lh_block t ! i = txn s ! i" "log_start t = log_start s" "log_dev t = 1" "disksize t = disksize s"
    using F txn_nth [OF ok i] ok by (simp_all add: log_ok_def)
  have ne: "log_start s + i + 1 \<noteq> txn s ! i"
    using log_region_nth [OF ok i] txn_home(2) [OF ok i] by metis
  have "txn s ! i \<noteq> txn s ! j" if "j < i" for j
    using ok that i length_txn [OF ok] by (simp add: log_ok_def nth_eq_iff_index_eq)
  then have "txn s ! i \<notin> fst ` set (map ?f [0 ..< i])" by fastforce
  moreover have "txn s ! i \<in> set (txn s)" using i length_txn [OF ok] by simp
  ultimately have "txn s ! i \<in> pins s \<Longrightarrow> txn s ! i \<in> pins t" using w by (simp add: wrote_def)
  then have pin: "card (pins t) + 1 < NBUF \<or> txn s ! i \<in> pins t"
    using room(2) \<open>txn s ! i \<in> set (txn s)\<close> wrote_pins_card [OF w] by auto
  have "log_start s + i + 1 \<notin> fst ` set (map ?f [0 ..< i])"
    using log_region_nth [OF ok i] i txn_home(2) [OF ok] by fastforce
  then have c: "content t (log_start s + i + 1) = content s (log_start s + i + 1)"
    using w by (simp add: wrote_def apply_writes_other)
  show "wp (kbind (kget (\<lambda>s. (log_dev s, log_start s, lh_block s ! i))) (\<lambda>(dev, start, home).
       kbind (bread dev (start + i + 1)) (\<lambda>lbuf. kbind (bread dev home) (\<lambda>dbuf.
       kbind (copy_buf dbuf lbuf) (\<lambda>_. kbind (bwrite dbuf) (\<lambda>_. kbind (brelse lbuf) (\<lambda>_. brelse dbuf)))))))
      (\<lambda>_ u. wrote [?f i] t u \<and> idle {} u) t"
    using install_turn [OF t ne] txn_home(1) [OF ok i] log_block_in_disk [OF ok i] wrote_pins_card [OF w] pin room(1)
    by (simp add: wp_kbind [of "kget f" for f] wp_kget home c)
qed

lemma head_loop:
  "b < length (bufs s) \<Longrightarrow>
   kfor [0 ..< k] (\<lambda>i. kbind (kget (\<lambda>s. lh_block s ! i)) (\<lambda>bn.
     upd_buf b (\<lambda>f. f\<lparr>b_data := put32 (1 + i) bn (b_data f)\<rparr>))) s =
   Ok () (s\<lparr>bufs := (bufs s)[b := (bufs s ! b)\<lparr>b_data :=
     fold (\<lambda>i d. put32 (1 + i) (lh_block s ! i) d) [0 ..< k] (b_data (bufs s ! b))\<rparr>]\<rparr>)"
  by (induction k) (simp_all add: kfor_append upd_buf_def k_defs)

lemma head_stores:
  assumes "b < length (bufs s)" and "\<And>t. stored b (head_image (nat (lh_n s)) (lh_block s) (b_data (bufs s ! b))) s t \<Longrightarrow>
      wp m Q t" and "0 \<le> lh_n s" "lh_n s < 2 ^ 32"
  shows "wp (kbind (upd_buf b (\<lambda>f. f\<lparr>b_data := put32 0 (nat (lh_n s mod 2 ^ 32)) (b_data f)\<rparr>)) (\<lambda>_.
     kbind (kfor [0 ..< nat (lh_n s)] (\<lambda>i. kbind (kget (\<lambda>s. lh_block s ! i)) (\<lambda>bn.
       upd_buf b (\<lambda>f. f\<lparr>b_data := put32 (1 + i) bn (b_data f)\<rparr>)))) (\<lambda>_. m))) Q s"
proof -
  have n: "nat (lh_n s mod 2 ^ 32) = nat (lh_n s)" using assms(3,4) by simp
  let ?s1 = "s\<lparr>bufs := (bufs s)[b := (bufs s ! b)\<lparr>b_data := put32 0 (nat (lh_n s)) (b_data (bufs s ! b))\<rparr>]\<rparr>"
  have "wp (kfor [0 ..< nat (lh_n s)] (\<lambda>i. kbind (kget (\<lambda>s. lh_block s ! i)) (\<lambda>bn.
       upd_buf b (\<lambda>f. f\<lparr>b_data := put32 (1 + i) bn (b_data f)\<rparr>)))) (\<lambda>_. wp m Q) ?s1"
    using assms(1,2) by (simp add: wp_def [of "kfor xs f" for xs f] head_loop stored_def head_image_def)
  then show ?thesis
    unfolding n wp_kbind [of "upd_buf b f" for f] wp_kbind [of "kfor xs f" for xs f] upd_get_buf_wp(1) .
qed

lemma write_head_spec:
  assumes idle: "idle {} s" and ok: "log_dev s = 1" "0 \<le> lh_n s" "lh_n s \<le> LOGSIZE" "log_start s < disksize s"
    and room: "card (pins s) < NBUF"
  shows "wp write_head (\<lambda>_ s'. wrote [(log_start s,
      head_image (nat (lh_n s)) (lh_block s) (content s (log_start s)))] s s' \<and> idle {} s') s"
proof -
  let ?st = "log_start s"
  let ?x = "head_image (nat (lh_n s)) (lh_block s) (content s ?st)"
  have n: "4 * nat (lh_n s) + 4 \<le> BSIZE" "lh_n s < 2 ^ 32" using ok by (simp_all add: LOGSIZE_def MAXOPBLOCKS_def BSIZE_def)
  have bokS: "bio_ok s" using idle by (simp add: idle_def)
  have len: "length ?x = BSIZE" using n bokS by (simp add: head_image_length)
  have "wp (kbind (bread 1 ?st) (\<lambda>b. kbind (kget lh_n) (\<lambda>n.
     kbind (upd_buf b (\<lambda>f. f\<lparr>b_data := put32 0 (nat (n mod 2 ^ 32)) (b_data f)\<rparr>)) (\<lambda>_.
     kbind (kfor [0 ..< nat n] (\<lambda>i. kbind (kget (\<lambda>s. lh_block s ! i)) (\<lambda>bn.
       upd_buf b (\<lambda>f. f\<lparr>b_data := put32 (1 + i) bn (b_data f)\<rparr>)))) (\<lambda>_.
     kbind (bwrite b) (\<lambda>_. brelse b)))))) (\<lambda>_ s'. wrote [(?st, ?x)] s s' \<and> idle {} s') s"
  proof (rule wp_seq [OF bread_idle [OF idle ok(4)]], goal_cases)
    case (3 b t)
    then have r: "bread_rel ?st b s t" and i: "idle {b} t" by simp_all
    note D = bread_relD [OF r] and w0 = bread_rel_wrote [OF r]
    note F = wrote_fields [OF w0]
    have b: "b < length (bufs t)" using has_bufD(1) [OF D(2)] D(1) by (simp add: bio_ok_def cache_invD)
    have tail: "wp (kbind (bwrite b) (\<lambda>_. brelse b)) (\<lambda>_ s'. wrote [(?st, ?x)] s s' \<and> idle {} s') u"
      if st: "stored b ?x t u" for u
    proof (rule wp_seq [OF store_bwrite [OF i D(2) len _ st]], goal_cases)
      case (2 _ v)
      then have v: "wrote [(?st, ?x)] t v" "idle {b} v" "has_buf v b ?st" by simp_all
      have "wrote [(?st, ?x)] s v" by (rule wrote_Nil_trans(1) [OF w0 v(1)])
      then show ?case
        by (intro wp_mono [OF brelse_idle [OF v(2,3)]])
          (use v(1) in \<open>auto simp: wrote_def [of "[(?st, ?x)]" t v] dest!: brelse_rel_wrote intro: wrote_Nil_trans(2)\<close>)
    qed (use F ok in simp)
    show ?case
      unfolding wp_kbind [of "kget lh_n"] wp_kget
      by (rule head_stores [OF b]) (use tail F D(8) ok n in auto)
  qed (use room in auto)
  then show ?thesis
    using ok(1) unfolding write_head_def wp_kbind [of "kget f" for f] wp_kget by simp
qed

text \<open>The log's own fields do not concern the cache.\<close>

lemma iface_log_upd [simp]:
  "content (s\<lparr>lh_n := n\<rparr>) = content s" "pins (s\<lparr>lh_n := n\<rparr>) = pins s" "idle H (s\<lparr>lh_n := n\<rparr>) = idle H s"
  "content (s\<lparr>lh_block := bl\<rparr>) = content s" "pins (s\<lparr>lh_block := bl\<rparr>) = pins s"
  "idle H (s\<lparr>lh_block := bl\<rparr>) = idle H s" "has_buf (s\<lparr>lh_n := n\<rparr>) b m = has_buf s b m"
  "has_buf (s\<lparr>lh_block := bl\<rparr>) b m = has_buf s b m"
  by (simp_all add: iface_defs idle_def locked_bufs_def has_buf_def cur_pid_def)

lemma low_log_upd [simp]: "low (s\<lparr>lh_n := n\<rparr>) = low s" "low (s\<lparr>lh_block := bl\<rparr>) = low s"
  by (simp_all add: low_defs)

text \<open>All disk writes of a commit, in order.\<close>

definition commit_writes :: "'r log_state_scheme \<Rightarrow> (nat \<times> byte list) list" where
  "commit_writes s =
     (let st = log_start s; n = nat (lh_n s);
          h = head_image n (lh_block s) (content s st) in
      map (\<lambda>i. (st + i + 1, content s (txn s ! i))) [0 ..< n] @ [(st, h)] @
      map (\<lambda>i. (txn s ! i, content s (txn s ! i))) [0 ..< n] @ [(st, head_image 0 (lh_block s) h)])"

definition log_same :: "'r log_state_scheme \<Rightarrow> 'r log_state_scheme \<Rightarrow> bool" where
  "log_same s s' \<longleftrightarrow> log_start s' = log_start s \<and> log_size s' = log_size s \<and>
     log_outstanding s' = log_outstanding s \<and> log_committing s' = log_committing s \<and>
     log_dev s' = log_dev s \<and> log_state.more s' = log_state.more s \<and> disksize s' = disksize s \<and> low s' = low s"

definition committed :: "'r log_state_scheme \<Rightarrow> 'r log_state_scheme \<Rightarrow> bool" where
  "committed s s' \<longleftrightarrow> idle {} s' \<and> lh_n s' = 0 \<and> lh_block s' = lh_block s \<and> log_same s s' \<and>
      dwrites s' = dwrites s @ commit_writes s \<and> disk s' = apply_writes (commit_writes s) (disk s) \<and>
      content s' = apply_writes (commit_writes s) (content s) \<and>
      pins s' = pins s - fst ` set (commit_writes s)"

lemma apply_writes_nth:
  assumes "distinct (map fst ws)" and "i < length ws"
  shows "apply_writes ws d (fst (ws ! i)) = snd (ws ! i)"
  using assms
proof (induction ws arbitrary: i d)
  case (Cons w ws)
  then show ?case
    by (cases i; cases w) (auto simp: apply_writes_other)
qed simp

lemma start_in_region: "log_ok s \<Longrightarrow> log_start s \<in> log_region s"
  by (auto simp: log_ok_def log_region_def)

text \<open>The writes before the installation and what they leave in the log blocks.\<close>

definition logged :: "'r log_state_scheme \<Rightarrow> (nat \<times> byte list) list" where
  "logged s = log_writes s (content s) @
     [(log_start s, head_image (nat (lh_n s)) (lh_block s) (content s (log_start s)))]"

definition homes :: "'r log_state_scheme \<Rightarrow> (nat \<times> byte list) list" where
  "homes s = map (\<lambda>i. (txn s ! i, content s (txn s ! i))) [0 ..< nat (lh_n s)]"

lemma commit_writes_eq:
  "commit_writes s = logged s @ homes s @ [(log_start s, head_image 0 (lh_block s)
     (head_image (nat (lh_n s)) (lh_block s) (content s (log_start s))))]"
  by (simp add: commit_writes_def logged_def log_writes_def homes_def Let_def)

lemma logged_region: "log_ok s \<Longrightarrow> fst ` set (logged s) \<subseteq> log_region s"
  using log_region_nth [of s] start_in_region [of s] by (auto simp: logged_def log_writes_def)

lemma homes_eq: "log_ok s \<Longrightarrow> homes s = map (\<lambda>b. (b, content s b)) (txn s)"
  using length_txn [of s] by (intro nth_equalityI) (simp_all add: homes_def)

lemma homes_fst: "log_ok s \<Longrightarrow> fst ` set (homes s) = set (txn s)"
  by (simp add: homes_eq image_image)

lemma start_not_home: "log_ok s \<Longrightarrow> log_start s \<notin> fst ` set (homes s)"
  using start_in_region [of s] by (auto simp: homes_fst log_ok_def)

lemma logged_nth:
  assumes ok: "log_ok s" and i: "i < nat (lh_n s)"
  shows "apply_writes (logged s) d (log_start s + i + 1) = content s (txn s ! i)"
    and "apply_writes (logged s) d (txn s ! i) = d (txn s ! i)"
    and "apply_writes (logged s) d (log_start s) = head_image (nat (lh_n s)) (lh_block s) (content s (log_start s))"
proof -
  let ?W = "log_writes s (content s)"
  have "distinct (map fst ?W)" by (auto simp: log_writes_def o_def distinct_map inj_on_def)
  then show "apply_writes (logged s) d (log_start s + i + 1) = content s (txn s ! i)"
    using apply_writes_nth [of ?W i d] i by (simp add: logged_def log_writes_def)
  show "apply_writes (logged s) d (txn s ! i) = d (txn s ! i)"
    by (rule apply_writes_other) (use logged_region [OF ok] txn_home(2) [OF ok i] in auto)
  show "apply_writes (logged s) d (log_start s) = head_image (nat (lh_n s)) (lh_block s) (content s (log_start s))"
    by (simp add: logged_def)
qed

lemma commit_tail:
  assumes ok: "log_ok s" and n: "0 < lh_n s" and room: "card (pins s) < NBUF" "set (txn s) \<subseteq> pins s"
    and w: "wrote (logged s) s s2" and i2: "idle {} s2"
  shows "wp (kbind install_trans (\<lambda>_. kbind (kmod (\<lambda>s. s\<lparr>lh_n := 0\<rparr>)) (\<lambda>_. write_head)))
    (\<lambda>_. committed s) s2"
proof -
  note F = wrote_fields [OF w]
  let ?h = "head_image (nat (lh_n s)) (lh_block s) (content s (log_start s))"
  have tx: "txn s2 = txn s" "log_region s2 = log_region s" by (simp_all add: txn_def log_region_def F)
  have ok2: "log_ok s2" using ok by (simp add: log_ok_def tx F)
  have c2: "content s2 = apply_writes (logged s) (content s)" using w by (simp add: wrote_def)
  have hw: "home_writes s2 (content s2) = homes s"
    using logged_nth(1) [OF ok] by (simp add: home_writes_def homes_def tx F c2)
  have room2: "card (pins s2) < NBUF" "set (txn s2) \<subseteq> pins s2"
  proof -
    show "card (pins s2) < NBUF" using wrote_pins_card [OF w] room(1) by simp
    have "set (txn s) \<inter> log_region s = {}" using ok by (auto simp: log_ok_def)
    then show "set (txn s2) \<subseteq> pins s2"
      using room(2) logged_region [OF ok] w by (auto simp: wrote_def tx)
  qed
  have "wp install_trans (\<lambda>_ s'. wrote (homes s) s2 s' \<and> idle {} s') s2"
    using install_trans_spec [OF i2 ok2 room2(1)] room2(2) hw by simp
  then show ?thesis
  proof (rule wp_seq, elim conjE)
    fix s3 assume "wrote (homes s) s2 s3" and i3: "idle {} s3"
    then have w3: "wrote (logged s @ homes s) s s3" using w wrote_trans by blast
    note F3 = wrote_fields [OF w3]
    have c3: "content s3 (log_start s) = ?h"
      using w3 logged_nth(3) [OF ok, of 0] start_not_home [OF ok] n
      by (simp add: wrote_def apply_writes_other)
    have "wp write_head (\<lambda>_ s'. wrote [(log_start s, head_image 0 (lh_block s) ?h)] (s3\<lparr>lh_n := 0\<rparr>) s' \<and> idle {} s')
        (s3\<lparr>lh_n := 0\<rparr>)"
      using write_head_spec [of "s3\<lparr>lh_n := 0\<rparr>"] i3 F3 ok c3 wrote_pins_card [OF w3] room(1)
      by (auto simp: log_ok_def LOGSIZE_def MAXOPBLOCKS_def)
    then show "wp (kbind (kmod (\<lambda>s. s\<lparr>lh_n := 0\<rparr>)) (\<lambda>_. write_head)) (\<lambda>_. committed s) s3"
      unfolding wp_kbind [of "kmod f" for f] wp_kmod
    proof (rule wp_mono, elim conjE)
      fix s4 assume w4: "wrote [(log_start s, head_image 0 (lh_block s) ?h)] (s3\<lparr>lh_n := 0\<rparr>) s4"
        and i4: "idle {} s4"
      have "log_same s s4" "lh_n s4 = 0" "lh_block s4 = lh_block s"
        by (simp_all add: log_same_def F3 wrote_fields [OF w4])
      moreover have "dwrites s4 = dwrites s @ commit_writes s" "disk s4 = apply_writes (commit_writes s) (disk s)"
        "content s4 = apply_writes (commit_writes s) (content s)" "pins s4 = pins s - fst ` set (commit_writes s)"
        using w3 w4 by (auto simp: wrote_def commit_writes_eq)
      ultimately show "committed s s4" using i4 by (simp add: committed_def)
    qed
  qed
qed

lemma commit_spec:
  assumes idle: "idle {} s" and ok: "log_ok s" and n: "0 < lh_n s"
    and room: "card (pins s) < NBUF" "set (txn s) \<subseteq> pins s"
  shows "wp commit (\<lambda>_. committed s) s" (is "wp _ ?Q s")
proof -
  let ?st = "log_start s"
  have okn: "log_dev s = 1" "0 \<le> lh_n s" "lh_n s \<le> LOGSIZE" "?st < disksize s" using ok n by (auto simp: log_ok_def)
  have "wp (kbind write_log (\<lambda>_. kbind write_head (\<lambda>_. kbind install_trans (\<lambda>_.
       kbind (kmod (\<lambda>s. s\<lparr>lh_n := 0\<rparr>)) (\<lambda>_. write_head))))) ?Q s"
  proof (rule wp_seq [OF write_log_spec [OF idle ok room]], elim conjE)
    fix s1 assume w1: "wrote (log_writes s (content s)) s s1" and i1: "idle {} s1"
    note F1 = wrote_fields [OF w1]
    have "content s1 ?st = content s ?st"
      using w1 by (auto simp: wrote_def log_writes_def intro!: apply_writes_other)
    then have "wp write_head (\<lambda>_ s'. wrote [(?st, head_image (nat (lh_n s)) (lh_block s) (content s ?st))] s1 s' \<and> idle {} s') s1"
      using write_head_spec [OF i1] okn F1 room(1) wrote_pins_card [OF w1] by simp
    then show "wp (kbind write_head (\<lambda>_. kbind install_trans (\<lambda>_.
       kbind (kmod (\<lambda>s. s\<lparr>lh_n := 0\<rparr>)) (\<lambda>_. write_head)))) ?Q s1"
      by (rule wp_seq, intro commit_tail [OF ok n room])
        (use wrote_trans [OF w1] in \<open>auto simp: logged_def\<close>)
  qed
  then show ?thesis using n by (simp add: commit_def wp_kbind [of "kget lh_n"] wp_kget)
qed

section \<open>Recovery\<close>

definition head_blocks :: "byte list \<Rightarrow> nat list" where
  "head_blocks x = map (\<lambda>i. get32 x (1 + i)) [0 ..< get32 x 0]"

lemma read_head_loop:
  "k \<le> length (lh_block s) \<Longrightarrow>
   kfor [0 ..< k] (\<lambda>i. kmod (\<lambda>s. s\<lparr>lh_block := (lh_block s)[i := get32 x (1 + i)]\<rparr>)) s =
   Ok () (s\<lparr>lh_block := map (\<lambda>i. get32 x (1 + i)) [0 ..< k] @ drop k (lh_block s)\<rparr>)"
proof (induction k)
  case 0
  then show ?case by (simp add: k_defs)
next
  case (Suc k)
  then have "drop k (lh_block s) = lh_block s ! k # drop (Suc k) (lh_block s)"
    by (simp add: Cons_nth_drop_Suc)
  with Suc show ?case by (simp add: kfor_append k_defs list_update_append)
qed

lemma s32_small: "0 \<le> x \<Longrightarrow> x < 2 ^ 31 \<Longrightarrow> s32 x = x"
  by (simp add: s32_def)

lemma read_head_spec:
  assumes idle: "idle {} s" and ok: "log_dev s = 1" "log_start s < disksize s" "length (lh_block s) = nat LOGSIZE"
    and n: "get32 (content s (log_start s)) 0 \<le> nat LOGSIZE" and room: "card (pins s) < NBUF"
  shows "wp read_head (\<lambda>_ s'. idle {} s' \<and> log_same s s' \<and> content s' = content s \<and> disk s' = disk s \<and>
      pins s' = pins s \<and> dwrites s' = dwrites s \<and> length (lh_block s') = nat LOGSIZE \<and>
      lh_n s' = int (get32 (content s (log_start s)) 0) \<and> txn s' = head_blocks (content s (log_start s))) s"
    (is "wp _ ?Q s")
proof -
  let ?st = "log_start s"
  let ?x = "content s ?st"
  let ?n = "get32 ?x 0"
  have n32: "s32 (int ?n) = int ?n" using n by (simp add: s32_small LOGSIZE_def MAXOPBLOCKS_def)
  have "wp (kbind (bread 1 ?st) (\<lambda>b. kbind (get_buf b b_data) (\<lambda>lh.
     kbind (kmod (\<lambda>s. s\<lparr>lh_n := s32 (int (get32 lh 0))\<rparr>)) (\<lambda>_.
     kbind (kget lh_n) (\<lambda>n.
     kbind (kfor [0 ..< nat n] (\<lambda>i.
       kmod (\<lambda>s. s\<lparr>lh_block := (lh_block s)[i := get32 lh (1 + i)]\<rparr>))) (\<lambda>_.
     brelse b)))))) ?Q s"
  proof (rule wp_seq [OF bread_idle [OF idle ok(2)]], goal_cases)
    case (3 b t)
    then have r: "bread_rel ?st b s t" and i: "idle {b} t" by simp_all
    note D = bread_relD [OF r] and F = wrote_fields [OF bread_rel_wrote [OF r]]
    define u where "u = t\<lparr>lh_n := int ?n, lh_block := head_blocks ?x @ drop ?n (lh_block t)\<rparr>"
    have u: "idle {b} u" "has_buf u b ?st" "content u = content s" "pins u = pins s" "disk u = disk s"
      "dwrites u = dwrites s" "low u = low s" "disksize u = disksize s"
      using i D(2-6) F by (simp_all add: u_def)
    have coh: "?st \<in> pins u \<or> content u ?st = disk u ?st" using idle_coherent [OF idle, of ?st] u by simp
    have "txn u = head_blocks ?x" "length (lh_block u) = nat LOGSIZE"
      using n ok(3) F by (simp_all add: u_def txn_def head_blocks_def)
    then have "?Q () v" if "brelse_rel b u v" "idle ({b} - {b}) v" for v
      using that(2) brelse_relD [OF that(1)] wrote_fields [OF brelse_rel_wrote [OF that(1)]] F u
      by (simp add: log_same_def u_def txn_def)
    then have "wp (brelse b) ?Q u"
      by (intro wp_mono [OF brelse_idle [OF u(1,2) coh]]) blast
    then show ?case
      using D(8) n n32 F ok(3)
      by (simp add: wp_simps wp_def [of "kfor xs f" for xs f] read_head_loop u_def head_blocks_def)
  qed (use room in auto)
  then show ?thesis using ok(1) unfolding read_head_def wp_kbind [of "kget f" for f] wp_kget by simp
qed

section \<open>Logging a block\<close>

text \<open>What the file system sees of \<^verbatim>\<open>log_write\<close>: the block is pinned and belongs to the transaction, once.\<close>

definition logged_rel :: "nat \<Rightarrow> nat \<Rightarrow> 'r log_state_scheme \<Rightarrow> 'r log_state_scheme \<Rightarrow> bool" where
  "logged_rel n b s s' \<longleftrightarrow>
     bio_ok s' \<and> has_buf s' b n \<and> content s' = content s \<and> pins s' = insert n (pins s) \<and>
     disk s' = disk s \<and> dwrites s' = dwrites s \<and> low s' = low s \<and> log_same s s' \<and>
     locked_bufs s' = locked_bufs s \<and> length (lh_block s') = length (lh_block s) \<and>
     txn s' = (if n \<in> set (txn s) then txn s else txn s @ [n]) \<and> lh_n s' = int (length (txn s')) \<and>
     b_data (bufs s' ! b) = b_data (bufs s ! b) \<and> b_refcnt (bufs s' ! b) = b_refcnt (bufs s ! b) \<and>
     (\<forall>c. c \<noteq> b \<longrightarrow> bufs s' ! c = bufs s ! c)"

lemma log_index_cases:
  assumes "n \<le> length bl"
  shows "bn \<in> set (take n bl) \<Longrightarrow> log_index bl n bn < n \<and> bl ! log_index bl n bn = bn"
    and "bn \<notin> set (take n bl) \<Longrightarrow> log_index bl n bn = n"
  using assms
  by (auto simp: log_index_def in_set_conv_nth find_None_iff split: option.split dest!: find_Some_iff2)

lemma log_index_txn:
  assumes "n < length bl" and i: "i = log_index bl n bn" and m: "m = (if i = n then Suc n else n)"
  shows "take m (bl[i := bn]) = (if bn \<in> set (take n bl) then take n bl else take n bl @ [bn])"
proof (cases "bn \<in> set (take n bl)")
  case True
  then have "i < n" "bl ! i = bn" using log_index_cases(1) [of n bl bn] assms by simp_all
  then have "bl[i := bn] = bl" by (metis list_update_id)
  then show ?thesis using True \<open>i < n\<close> m by simp
next
  case False
  then have "i = n" using log_index_cases(2) [of n bl bn] assms by simp
  then show ?thesis using False m assms(1) by (simp add: take_Suc_conv_app_nth)
qed

lemma cache_dirty:
  assumes inv: "bio_inv s" and has: "has_buf s b n"
    and bs: "bs = (bufs s)[b := (bufs s ! b)\<lparr>b_dirty := True\<rparr>]"
  shows "cache_inv bs (lru s) (disk s)" and "cache_blk bs (disk s) = blk s"
    and "pinned_of bs = insert n (pinned s)" and "has_buf (s\<lparr>bufs := bs\<rparr>) b n"
proof -
  note b = has_bufD(1) [OF has] and h = has_bufD(2) [OF has]
  have ok: "buf_ok (disk s) ((bufs s ! b)\<lparr>b_dirty := True\<rparr>)"
    using cache_invD(4) [OF inv b] has by (simp add: buf_ok_def has_buf_def holds_def)
  note cs = cache_set [OF inv b h _ _ ok]
  show "cache_inv bs (lru s) (disk s)" and "cache_blk bs (disk s) = blk s"
    and "pinned_of bs = insert n (pinned s)"
    using cs has has_buf_blk [OF inv has] by (auto simp: bs holds_def has_buf_def)
  show "has_buf (s\<lparr>bufs := bs\<rparr>) b n"
    using has cache_invD(1) [OF inv] by (simp add: bs has_buf_def holds_def cur_pid_def)
qed

lemma log_acq_rel [simp]:
  "lh_n (acq lk s) = lh_n s" "lh_n (rel lk s) = lh_n s" "lh_block (acq lk s) = lh_block s"
  "lh_block (rel lk s) = lh_block s" "log_start (acq lk s) = log_start s" "log_start (rel lk s) = log_start s"
  "log_size (acq lk s) = log_size s" "log_size (rel lk s) = log_size s"
  "log_outstanding (acq lk s) = log_outstanding s" "log_outstanding (rel lk s) = log_outstanding s"
  "log_committing (acq lk s) = log_committing s" "log_committing (rel lk s) = log_committing s"
  "log_dev (acq lk s) = log_dev s" "log_dev (rel lk s) = log_dev s"
  "log_state.more (acq lk s) = log_state.more s" "log_state.more (rel lk s) = log_state.more s"
  by (simp_all add: acq_def rel_def)

definition log_write_done :: "nat \<Rightarrow> 'r log_state_scheme \<Rightarrow> 'r log_state_scheme" where
  "log_write_done b s =
     (let bn = b_blockno (bufs s ! b); i = log_index (lh_block s) (nat (lh_n s)) bn;
          u = (acq LLog s)\<lparr>lh_block := (lh_block s)[i := bn]\<rparr> in
      rel LLog ((if int i = lh_n s then u\<lparr>lh_n := lh_n s + 1\<rparr> else u)
        \<lparr>bufs := (bufs s)[b := (bufs s ! b)\<lparr>b_dirty := True\<rparr>]\<rparr>))"

lemma log_write_cases:
  "log_write b s =
     (if LOGSIZE \<le> lh_n s \<or> log_size s - 1 \<le> lh_n s then Panic ''too big a transaction''
      else if log_outstanding s < 1 then Panic ''log_write outside of trans''
      else if LLog \<in> held s then Panic ''acquire''
      else Ok () (log_write_done b s))"
  by (simp add: log_write_def k_defs acquire_eq release_eq get_buf_def upd_buf_def log_write_done_def Let_def)

lemma log_write_done_rel:
  assumes ok: "bio_ok s" and has: "has_buf s b n" and lk: "LLog \<notin> held s"
    and lh: "0 \<le> lh_n s" "nat (lh_n s) < length (lh_block s)"
  shows "logged_rel n b s (log_write_done b s)"
proof -
  let ?s' = "log_write_done b s"
  have bn: "b_blockno (bufs s ! b) = n" using has by (simp add: has_buf_def holds_def)
  define i where "i = log_index (lh_block s) (nat (lh_n s)) n"
  define m where "m = (if i = nat (lh_n s) then Suc (nat (lh_n s)) else nat (lh_n s))"
  have inv: "bio_inv s" using ok by (simp add: bio_ok_def)
  note cd = cache_dirty [OF inv has refl]
  have b: "b < length (bufs s)" using has_bufD(1) [OF has] cache_invD(1) [OF inv] by simp
  have sel: "bufs ?s' = (bufs s)[b := (bufs s ! b)\<lparr>b_dirty := True\<rparr>]" "lru ?s' = lru s" "disk ?s' = disk s"
    "dwrites ?s' = dwrites s" "disksize ?s' = disksize s" "lh_block ?s' = (lh_block s)[i := n]"
    "lh_n ?s' = int m" "log_state.more ?s' = log_state.more s" "log_start ?s' = log_start s" "log_size ?s' = log_size s"
    "log_outstanding ?s' = log_outstanding s" "log_committing ?s' = log_committing s" "log_dev ?s' = log_dev s"
    using lh by (auto simp: log_write_done_def Let_def bn i_def m_def)
  have low: "low ?s' = low s" using lk
    by (simp add: log_write_done_def Let_def low_bracket)
  have tx: "txn ?s' = (if n \<in> set (txn s) then txn s else txn s @ [n])"
    using log_index_txn [OF lh(2) i_def m_def] by (simp add: txn_def sel)
  have len: "length (txn ?s') = m"
    using lh log_index_cases [of "nat (lh_n s)" "lh_block s" n]
    by (auto simp: txn_def sel m_def i_def min_def)
  have "has_buf ?s' b n" using cd(4) low_cur_pid [OF low] by (simp add: has_buf_def sel cur_pid_def)
  then show ?thesis
    using cd low tx len b
    by (auto simp: logged_rel_def iface_defs sel log_same_def locked_bufs_def nth_list_update)
qed

lemma log_write_total:
  assumes "bio_ok s" and "has_buf s b n" and "LLog \<notin> held s" and "0 \<le> lh_n s" "int (length (lh_block s)) = LOGSIZE"
    and "lh_n s < LOGSIZE" "lh_n s < log_size s - 1" "1 \<le> log_outstanding s"
  shows "wp (log_write b) (\<lambda>_. logged_rel n b s) s"
  using assms log_write_done_rel [OF assms(1-4)] by (simp add: wp_def log_write_cases)

end
