(* ===== verification/Crash.thy ===== *)
theory Crash
  imports Log
begin

text \<open>
  Crash safety of the log (\<^verbatim>\<open>log.c\<close>): what recovery makes of the disk, and that a crash at any
  point of a commit leaves a disk from which recovery produces either the state before the
  transaction or the state after it.
\<close>

section \<open>What recovery does to a disk\<close>

definition recovered :: "nat \<Rightarrow> diskimg \<Rightarrow> diskimg" where
  "recovered start d =
     (let bs = head_blocks (d start) in
      apply_writes (map (\<lambda>i. (bs ! i, d (start + i + 1))) [0 ..< length bs] @
                    [(start, head_image 0 [] (d start))]) d)"

text \<open>A log header that describes a transaction on blocks outside the log.\<close>

definition header_ok :: "'r log_state_scheme \<Rightarrow> byte list \<Rightarrow> bool" where
  "header_ok s x \<longleftrightarrow> int (get32 x 0) \<le> LOGSIZE \<and> int (get32 x 0) < log_size s \<and> distinct (head_blocks x) \<and>
     (\<forall>b \<in> set (head_blocks x). b < disksize s \<and> b \<notin> log_region s)"

text \<open>A machine that has just come up: nothing cached that differs from the disk.\<close>

definition rebooted :: "'r log_state_scheme \<Rightarrow> bool" where
  "rebooted s \<longleftrightarrow> idle {} s \<and> pins s = {} \<and> log_dev s = 1 \<and> length (lh_block s) = nat LOGSIZE \<and>
     log_start s + nat (log_size s) \<le> disksize s \<and> disksize s \<le> 2 ^ 31 \<and> 0 < log_size s"

lemma rebooted_content: "rebooted s \<Longrightarrow> content s = disk s"
  using idle_coherent [of "{}" s] by (auto simp: rebooted_def fun_eq_iff)

definition recovery_done :: "'r log_state_scheme \<Rightarrow> 'r log_state_scheme \<Rightarrow> bool" where
  "recovery_done s s' \<longleftrightarrow> idle {} s' \<and> pins s' = {} \<and> lh_n s' = 0 \<and> log_same s s' \<and>
     disk s' = recovered (log_start s) (disk s)"

text \<open>The part of recovery after the header has been read.\<close>

lemma recover_tail:
  assumes t: "idle {} t" "content t = disk t" "pins t = {}" and ok: "log_ok t"
    and hd: "lh_n t = int (get32 (disk t (log_start t)) 0)" "txn t = head_blocks (disk t (log_start t))"
  shows "wp (kbind install_trans (\<lambda>_. kbind (kmod (\<lambda>s. s\<lparr>lh_n := 0\<rparr>)) (\<lambda>_. write_head))) (\<lambda>_. recovery_done t) t"
proof -
  let ?st = "log_start t"
  let ?x = "disk t ?st"
  let ?W = "map (\<lambda>i. (head_blocks ?x ! i, disk t (?st + i + 1))) [0 ..< length (head_blocks ?x)]"
  have W: "home_writes t (content t) = ?W" using t hd by (simp add: home_writes_def head_blocks_def)
  have "?st \<notin> set (head_blocks ?x)" using start_in_region [OF ok] ok hd(2) by (auto simp: log_ok_def)
  then have stW: "?st \<notin> fst ` set ?W" by (auto simp: in_set_conv_nth)
  have "wp install_trans (\<lambda>_ u. wrote ?W t u \<and> idle {} u) t"
    using install_trans_spec [OF t(1) ok] t(3) W by (simp add: NBUF_def)
  then show ?thesis
  proof (rule wp_seq, elim conjE)
    fix u assume w: "wrote ?W t u" and u: "idle {} u"
    note F = wrote_fields [OF w]
    have cu: "content u ?st = ?x" "pins u = {}"
      using w t stW by (simp_all add: wrote_def apply_writes_other)
    have "wp write_head (\<lambda>_ s'. wrote [(?st, head_image 0 [] ?x)] (u\<lparr>lh_n := 0\<rparr>) s' \<and> idle {} s') (u\<lparr>lh_n := 0\<rparr>)"
      using write_head_spec [of "u\<lparr>lh_n := 0\<rparr>"] u F ok cu
      by (auto simp: NBUF_def LOGSIZE_def MAXOPBLOCKS_def head_image_def log_ok_def)
    then show "wp (kbind (kmod (\<lambda>s. s\<lparr>lh_n := 0\<rparr>)) (\<lambda>_. write_head)) (\<lambda>_. recovery_done t) u"
      unfolding wp_kbind wp_kmod
    proof (rule wp_mono, elim conjE)
      fix v assume v: "wrote [(?st, head_image 0 [] ?x)] (u\<lparr>lh_n := 0\<rparr>) v" "idle {} v"
      have "log_same t v" "lh_n v = 0" by (simp_all add: log_same_def F wrote_fields [OF v(1)])
      then show "recovery_done t v"
        using v w cu by (simp add: recovery_done_def wrote_def recovered_def Let_def)
    qed
  qed
qed

lemma recover_spec:
  assumes rb: "rebooted s" and hd: "header_ok s (disk s (log_start s))"
  shows "wp recover_from_log (\<lambda>_. recovery_done s) s"
proof -
  let ?x = "disk s (log_start s)"
  have c: "content s = disk s" by (rule rebooted_content [OF rb])
  have "wp read_head (\<lambda>_ t. idle {} t \<and> log_same s t \<and> content t = disk s \<and> disk t = disk s \<and>
      pins t = {} \<and> length (lh_block t) = nat LOGSIZE \<and> lh_n t = int (get32 ?x 0) \<and> txn t = head_blocks ?x) s"
    by (rule wp_mono [OF read_head_spec])
      (use rb hd c in \<open>auto simp: rebooted_def header_ok_def NBUF_def LOGSIZE_def MAXOPBLOCKS_def\<close>)
  then show ?thesis
    unfolding recover_from_log_def
  proof (rule wp_seq, elim conjE)
    fix t assume t: "idle {} t" "log_same s t" "content t = disk s" "disk t = disk s" "pins t = {}"
      "length (lh_block t) = nat LOGSIZE" "lh_n t = int (get32 ?x 0)" "txn t = head_blocks ?x"
    have lf: "log_start t = log_start s" "log_size t = log_size s" "disksize t = disksize s" "log_dev t = 1"
      using t(2) rb by (simp_all add: log_same_def rebooted_def)
    have ok: "log_ok t" using t lf rb hd
      by (auto simp: log_ok_def header_ok_def rebooted_def log_region_def)
    have "recovery_done s v" if "recovery_done t v" for v
      using that t(2,4) lf by (auto simp: recovery_done_def log_same_def)
    then show "wp (kbind install_trans (\<lambda>_. kbind (kmod (\<lambda>s. s\<lparr>lh_n := 0\<rparr>)) (\<lambda>_. write_head))) (\<lambda>_. recovery_done s) t"
      by (intro wp_mono [OF recover_tail [OF t(1) _ t(5) ok]]) (use t lf in auto)
  qed
qed

section \<open>Crashing during a commit\<close>

lemma apply_writes_map: "apply_writes (map (\<lambda>b. (b, f b)) bs) d n = (if n \<in> set bs then f n else d n)"
  by (induction bs arbitrary: d) auto

lemma recovered_empty: "get32 (d st) 0 = 0 \<Longrightarrow> n \<noteq> st \<Longrightarrow> recovered st d n = d n"
  by (simp add: recovered_def head_blocks_def)

text \<open>A disk whose header lists \<open>bs\<close> and whose log blocks hold their new contents.\<close>

lemma recovered_logged:
  assumes "head_blocks (d st) = bs" and "\<And>i. i < length bs \<Longrightarrow> d (st + i + 1) = f (bs ! i)" and "n \<noteq> st"
  shows "recovered st d n = (if n \<in> set bs then f n else d n)"
proof -
  have "map (\<lambda>i. (bs ! i, d (st + i + 1))) [0 ..< length bs] = map (\<lambda>b. (b, f b)) bs"
    by (rule nth_equalityI) (simp_all add: assms(2))
  then show ?thesis using assms(1,3) by (simp add: recovered_def Let_def apply_writes_map)
qed

lemma head_image_blocks:
  assumes "4 * n + 4 \<le> length x" and "n < 2 ^ 32" and "n \<le> length bs" "\<And>i. i < n \<Longrightarrow> bs ! i < 2 ^ 32"
  shows "head_blocks (head_image n bs x) = take n bs"
proof -
  have "get32 (head_image n bs x) 0 = n" using head_image_n [OF assms(1)] assms(2) by simp
  moreover have "get32 (head_image n bs x) (1 + i) = bs ! i" if "i < n" for i
    using head_image_block [OF assms(1) that] assms(3,4) that by simp
  ultimately show ?thesis
    using assms(3) by (intro nth_equalityI) (simp_all add: head_blocks_def)
qed

text \<open>
  The disk a crash leaves: the first \<open>k\<close> of the block writes between \<open>s\<close> and \<open>s'\<close> have reached it.
\<close>

definition crash_disk :: "'r log_state_scheme \<Rightarrow> 'r log_state_scheme \<Rightarrow> nat \<Rightarrow> diskimg" where
  "crash_disk s s' k = apply_writes (take k (drop (length (dwrites s)) (dwrites s'))) (disk s)"

definition reboot_of :: "'r log_state_scheme \<Rightarrow> diskimg \<Rightarrow> 'r log_state_scheme \<Rightarrow> bool" where
  "reboot_of s d r \<longleftrightarrow> rebooted r \<and> disk r = d \<and> log_start r = log_start s \<and> log_size r = log_size s \<and>
     disksize r = disksize s"

text \<open>A state in which a transaction is ready to be committed: its blocks are exactly the
  pinned ones and the log on disk is empty.\<close>

definition ready_to_commit :: "'r log_state_scheme \<Rightarrow> bool" where
  "ready_to_commit s \<longleftrightarrow> idle {} s \<and> log_ok s \<and> lh_n s < int NBUF \<and> pins s = set (txn s) \<and>
     get32 (disk s (log_start s)) 0 = 0"

lemma ready_content:
  assumes "ready_to_commit s" and "n \<notin> set (txn s)"
  shows "content s n = disk s n"
  using idle_coherent [of "{}" s n] assms by (auto simp: ready_to_commit_def)

lemma commit_header:
  assumes ok: "log_ok s" and idle: "idle {} s"
  shows "head_blocks (head_image (nat (lh_n s)) (lh_block s) (content s (log_start s))) = txn s"
proof -
  have i: "lh_block s ! i < 2 ^ 32" if "i < nat (lh_n s)" for i
    using txn_home(1) [OF ok that] txn_nth [OF ok that] ok by (simp add: log_ok_def)
  have "length (content s (log_start s)) = BSIZE" using idle by (simp add: idle_def)
  then show ?thesis
    using ok i head_image_blocks [of "nat (lh_n s)" "content s (log_start s)" "lh_block s"]
    by (auto simp: log_ok_def txn_def BSIZE_def LOGSIZE_def MAXOPBLOCKS_def)
qed

text \<open>The three kinds of prefix of a commit's writes.\<close>

lemma crash_before:
  assumes rc: "ready_to_commit s" and W: "W = take k (log_writes s (content s))"
  shows "get32 (apply_writes W (disk s) (log_start s)) 0 = 0"
    and "n \<notin> log_region s \<Longrightarrow> recovered (log_start s) (apply_writes W (disk s)) n = disk s n"
proof -
  have ok: "log_ok s" using rc by (simp add: ready_to_commit_def)
  have sub: "fst ` set W \<subseteq> fst ` set (log_writes s (content s))"
    using set_take_subset [of k "log_writes s (content s)"] by (auto simp: W)
  then have "log_start s \<notin> fst ` set W" by (auto simp: log_writes_def)
  then show h: "get32 (apply_writes W (disk s) (log_start s)) 0 = 0"
    using rc by (simp add: apply_writes_other ready_to_commit_def)
  assume n: "n \<notin> log_region s"
  then have "n \<notin> fst ` set W"
    using sub log_region_nth [OF ok] by (auto simp: log_writes_def)
  moreover have "n \<noteq> log_start s" using n start_in_region [OF ok] by blast
  ultimately show "recovered (log_start s) (apply_writes W (disk s)) n = disk s n"
    using recovered_empty [of "apply_writes W (disk s)" "log_start s" n] h by (simp add: apply_writes_other)
qed

lemma crash_after:
  assumes rc: "ready_to_commit s" and lh: "0 < lh_n s" and W: "W = logged s @ take j (homes s)"
  shows "head_blocks (apply_writes W (disk s) (log_start s)) = txn s"
    and "n \<notin> log_region s \<Longrightarrow> recovered (log_start s) (apply_writes W (disk s)) n = content s n"
proof -
  have ok: "log_ok s" and idle: "idle {} s" using rc by (simp_all add: ready_to_commit_def)
  let ?d = "apply_writes W (disk s)"
  have sub: "fst ` set (take j (homes s)) \<subseteq> set (txn s)"
    using set_take_subset [of j "homes s"] homes_fst [OF ok] by blast
  have reg: "?d m = apply_writes (logged s) (disk s) m" if "m \<in> log_region s" for m
    using that sub ok by (auto simp: W log_ok_def intro!: apply_writes_other)
  show hb: "head_blocks (?d (log_start s)) = txn s"
    using reg [OF start_in_region [OF ok]] logged_nth(3) [OF ok, of 0] lh commit_header [OF ok idle] by simp
  assume n: "n \<notin> log_region s"
  have blocks: "?d (log_start s + i + 1) = content s (txn s ! i)" if "i < length (txn s)" for i
    using reg [OF log_region_nth [OF ok]] logged_nth(1) [OF ok] that length_txn [OF ok] by simp
  have "n \<noteq> log_start s" using n start_in_region [OF ok] by blast
  then have "recovered (log_start s) ?d n = (if n \<in> set (txn s) then content s n else ?d n)"
    using recovered_logged [of ?d "log_start s" "txn s" "content s" n] hb blocks by blast
  moreover have "?d n = disk s n" if "n \<notin> set (txn s)"
    using that n sub logged_region [OF ok] by (intro apply_writes_other) (auto simp: W)
  ultimately show "recovered (log_start s) ?d n = content s n" using ready_content [OF rc] by simp
qed

lemma crash_done:
  assumes rc: "ready_to_commit s"
  shows "get32 (apply_writes (commit_writes s) (disk s) (log_start s)) 0 = 0"
    and "n \<notin> log_region s \<Longrightarrow> apply_writes (commit_writes s) (disk s) n = content s n"
    and "n \<notin> log_region s \<Longrightarrow> recovered (log_start s) (apply_writes (commit_writes s) (disk s)) n = content s n"
proof -
  have ok: "log_ok s" and idle: "idle {} s" using rc by (simp_all add: ready_to_commit_def)
  have len: "length (content s (log_start s)) = BSIZE" using idle by (simp add: idle_def)
  have "4 * nat (lh_n s) + 4 \<le> BSIZE" using ok by (auto simp: log_ok_def BSIZE_def LOGSIZE_def MAXOPBLOCKS_def)
  with len show h: "get32 (apply_writes (commit_writes s) (disk s) (log_start s)) 0 = 0"
    by (simp add: commit_writes_eq head_image_n head_image_length BSIZE_def)
  assume n: "n \<notin> log_region s"
  have ne: "n \<noteq> log_start s" using n start_in_region [OF ok] by blast
  have "n \<notin> fst ` set (logged s)" using n logged_region [OF ok] by blast
  then show d: "apply_writes (commit_writes s) (disk s) n = content s n"
    using ne ready_content [OF rc]
    by (simp add: commit_writes_eq homes_eq [OF ok] apply_writes_map apply_writes_other)
  show "recovered (log_start s) (apply_writes (commit_writes s) (disk s)) n = content s n"
    using recovered_empty [of "apply_writes (commit_writes s) (disk s)" "log_start s" n] h d ne by simp
qed

text \<open>Every prefix of a commit's writes is recovered to the old or to the new contents.\<close>

lemma commit_prefix:
  assumes rc: "ready_to_commit s" and lh: "0 < lh_n s"
  defines "d k \<equiv> apply_writes (take k (commit_writes s)) (disk s)"
  shows "head_blocks (d k (log_start s)) = [] \<or> head_blocks (d k (log_start s)) = txn s"
    and "(\<forall>n. n \<notin> log_region s \<longrightarrow> recovered (log_start s) (d k) n = disk s n) \<or>
      (\<forall>n. n \<notin> log_region s \<longrightarrow> recovered (log_start s) (d k) n = content s n)"
proof -
  let ?L = "log_writes s (content s)"
  consider (a) "take k (commit_writes s) = take k ?L"
    | (b) j where "take k (commit_writes s) = logged s @ take j (homes s)"
    | (c) "take k (commit_writes s) = commit_writes s"
  proof -
    have "take k (commit_writes s) = take k ?L" if "k \<le> length ?L"
      using that by (simp add: commit_writes_eq logged_def)
    moreover have "length (logged s) = Suc (length ?L)" by (simp add: logged_def)
    then have "take k (commit_writes s) = logged s @ take (k - length (logged s)) (homes s)"
      if "length ?L < k" "k \<le> length (logged s @ homes s)"
      using that by (simp add: commit_writes_eq)
    moreover have "take k (commit_writes s) = commit_writes s" if "length (logged s @ homes s) < k"
      using that by (simp add: commit_writes_eq)
    ultimately show thesis using a b c by (meson not_le)
  qed
  then have "(head_blocks (d k (log_start s)) = [] \<or> head_blocks (d k (log_start s)) = txn s) \<and>
    ((\<forall>n. n \<notin> log_region s \<longrightarrow> recovered (log_start s) (d k) n = disk s n) \<or>
      (\<forall>n. n \<notin> log_region s \<longrightarrow> recovered (log_start s) (d k) n = content s n))"
  proof cases
    case a
    then show ?thesis using crash_before [OF rc, of _ k] by (simp add: d_def head_blocks_def)
  next
    case b
    then show ?thesis using crash_after [OF rc lh, of _ j] by (simp add: d_def)
  next
    case c
    then show ?thesis using crash_done [OF rc] by (simp add: d_def head_blocks_def)
  qed
  then show "head_blocks (d k (log_start s)) = [] \<or> head_blocks (d k (log_start s)) = txn s"
    and "(\<forall>n. n \<notin> log_region s \<longrightarrow> recovered (log_start s) (d k) n = disk s n) \<or>
      (\<forall>n. n \<notin> log_region s \<longrightarrow> recovered (log_start s) (d k) n = content s n)" by blast+
qed

lemma length_head_blocks: "length (head_blocks x) = get32 x 0"
  by (simp add: head_blocks_def)

lemma reboot_header_ok:
  assumes rc: "ready_to_commit s" and rb: "reboot_of s d r"
    and hb: "head_blocks (d (log_start s)) = [] \<or> head_blocks (d (log_start s)) = txn s"
  shows "header_ok r (disk r (log_start r))"
proof -
  have ok: "log_ok s" using rc by (simp add: ready_to_commit_def)
  have r: "disk r (log_start r) = d (log_start s)" "log_size r = log_size s" "disksize r = disksize s"
    "log_region r = log_region s" using rb by (simp_all add: reboot_of_def log_region_def)
  show ?thesis
    using hb length_head_blocks [of "d (log_start s)"] ok length_txn [OF ok]
    unfolding header_ok_def r by (auto simp: log_ok_def LOGSIZE_def MAXOPBLOCKS_def)
qed

lemma recover_reboot:
  assumes rc: "ready_to_commit s" and lh: "0 < lh_n s"
    and rb: "reboot_of s (apply_writes (take k (commit_writes s)) (disk s)) r"
  obtains r' where "recover_from_log r = Ok () r'"
    and "(\<forall>n. n \<notin> log_region s \<longrightarrow> disk r' n = disk s n) \<or> (\<forall>n. n \<notin> log_region s \<longrightarrow> disk r' n = content s n)"
proof -
  have "wp recover_from_log (\<lambda>_. recovery_done r) r"
    by (rule recover_spec) (use rb reboot_header_ok [OF rc rb commit_prefix(1) [OF rc lh]] in \<open>auto simp: reboot_of_def\<close>)
  then obtain u r' where r': "recover_from_log r = Ok u r'" "recovery_done r r'" by (rule wpE)
  then have dr: "disk r' = recovered (log_start s) (apply_writes (take k (commit_writes s)) (disk s))"
    using rb by (simp add: recovery_done_def reboot_of_def)
  show thesis using r'(1) commit_prefix(2) [OF rc lh, of k] unfolding dr [symmetric] by (intro that) simp_all
qed

text \<open>C1. Transactions are atomic with respect to crashes. From a state whose transaction is ready to be
  committed, \<^verbatim>\<open>commit\<close> returns and brings the disk to the transaction's contents; and if the machine
  loses power after any number \<open>k\<close> of the disk writes \<^verbatim>\<open>commit\<close> performs, then \<^verbatim>\<open>recover_from_log\<close> on
  the machine that comes up from that disk returns, with every block outside the log as before the
  transaction, or every block as after it.\<close>

theorem commit_crash_atomic:
  assumes "ready_to_commit s" and "0 < lh_n s"
  shows "\<exists>s'. commit s = Ok () s' \<and> lh_n s' = 0 \<and> pins s' = {} \<and>
    (\<forall>n. n \<notin> log_region s \<longrightarrow> disk s' n = content s n) \<and>
    (\<forall>k r. reboot_of s (crash_disk s s' k) r \<longrightarrow>
      (\<exists>r'. recover_from_log r = Ok () r' \<and>
        ((\<forall>n. n \<notin> log_region s \<longrightarrow> disk r' n = disk s n) \<or>
         (\<forall>n. n \<notin> log_region s \<longrightarrow> disk r' n = content s n))))"
proof -
  have rc: "idle {} s" "log_ok s" "pins s = set (txn s)" using assms(1) by (simp_all add: ready_to_commit_def)
  have "card (pins s) < NBUF"
    using assms(1) length_txn [OF rc(2)] by (auto simp: ready_to_commit_def distinct_card log_ok_def)
  with rc assms(2) have "wp commit (\<lambda>_. committed s) s" by (intro commit_spec) simp_all
  then obtain u s' where s': "commit s = Ok u s'" "committed s s'" by (rule wpE)
  have "fst ` set (commit_writes s) \<supseteq> set (txn s)" by (auto simp: commit_writes_eq homes_fst [OF rc(2), symmetric])
  then have "pins s' = {}" using s'(2) rc(3) by (auto simp: committed_def)
  moreover have "\<exists>r'. recover_from_log r = Ok () r' \<and>
      ((\<forall>n. n \<notin> log_region s \<longrightarrow> disk r' n = disk s n) \<or> (\<forall>n. n \<notin> log_region s \<longrightarrow> disk r' n = content s n))"
    if "reboot_of s (crash_disk s s' k) r" for k r
  proof -
    have "reboot_of s (apply_writes (take k (commit_writes s)) (disk s)) r"
      using that s'(2) by (simp add: crash_disk_def committed_def)
    from recover_reboot [OF assms this] show ?thesis by blast
  qed
  ultimately show ?thesis
    using s' crash_done(2) [OF assms(1)] by (auto simp: committed_def)
qed

section \<open>A concrete transaction\<close>

text \<open>A disk of 60 blocks with the log at block 2 and one modified block, 40, in the cache.\<close>

definition ex_dirty_buf :: buf where
  "ex_dirty_buf = \<lparr>b_valid = True, b_dirty = True, b_dev = 1, b_blockno = 40, b_lock = initsleeplock,
     b_refcnt = 0, b_data = replicate BSIZE 7\<rparr>"

definition ex_log_state :: log_state where
  "ex_log_state = \<lparr>ncli = 0, intena = False, int_on = True, held = {}, mem = (\<lambda>_. 0), kend = 0, freelist = 0,
     use_lock = True, kdata = 0, kpgdir = 0, cr3 = 0, ptable = [], initproc = None, nextpid = 1, cur = None,
     ts_esp0 = 0, sym_forkret = 0, sym_trapret = 0, ticks = 0,
     bufs = ex_dirty_buf # replicate 29 free_buf, lru = [0 ..< NBUF], disk = (\<lambda>_. replicate BSIZE 0),
     disksize = 60, dwrites = [],
     log_start = 2, log_size = 30, log_outstanding = 0, log_committing = True, log_dev = 1,
     lh_n = 1, lh_block = 40 # replicate 29 0\<rparr>"

lemma ex_bufs_nth: "b < NBUF \<Longrightarrow> bufs ex_log_state ! b = (if b = 0 then ex_dirty_buf else free_buf)"
  by (simp add: ex_log_state_def NBUF_def nth_Cons')

lemma ex_ready: "ready_to_commit ex_log_state"
proof -
  have "bufs_uniq (bufs ex_log_state)"
    by (auto simp: bufs_uniq_def ex_bufs_nth free_buf_def ex_dirty_buf_def split: if_splits)
  moreover have "length (bufs ex_log_state) = NBUF" "lru ex_log_state = [0 ..< NBUF]" 
    by (simp_all add: ex_log_state_def NBUF_def)
  moreover have "disk ex_log_state = (\<lambda>_. replicate BSIZE 0)" by (simp add: ex_log_state_def)
  moreover have "buf_ok d ex_dirty_buf" "buf_ok d free_buf" for d
    by (simp_all add: buf_ok_def ex_dirty_buf_def free_buf_def initsleeplock_def)
  ultimately have inv: "bio_ok ex_log_state" by (auto simp: bio_ok_def cache_inv_def ex_bufs_nth)
  have "locked_bufs ex_log_state = {}"
    by (auto simp: locked_bufs_def ex_bufs_nth ex_dirty_buf_def free_buf_def initsleeplock_def)
  moreover have "held ex_log_state = {}" by (simp add: ex_log_state_def)
  ultimately have "idle {} ex_log_state"
    using inv by (auto simp: idle_def ex_bufs_nth ex_dirty_buf_def free_buf_def)
  moreover have tx: "txn ex_log_state = [40]" by (simp add: txn_def ex_log_state_def)
  moreover have "log_ok ex_log_state" unfolding log_ok_def tx
    by (simp add: ex_log_state_def log_region_def LOGSIZE_def MAXOPBLOCKS_def)
  moreover have "pins ex_log_state = {40}"
  proof -
    have p: "0 < NBUF" by (simp add: NBUF_def)
    show ?thesis
      using p by (auto simp: pins_def pinned_of_def ex_bufs_nth holds_def ex_dirty_buf_def free_buf_def
          split: if_splits intro!: exI [of _ 0])
  qed
  moreover have "lh_n ex_log_state < int NBUF" "get32 (disk ex_log_state (log_start ex_log_state)) 0 = 0"
    by (simp_all add: ex_log_state_def NBUF_def get32_def BSIZE_def)
  ultimately show ?thesis by (simp add: ready_to_commit_def)
qed

lemma commit_crash_atomic_witness:
  "ready_to_commit ex_log_state \<and> 0 < lh_n ex_log_state \<and>
   (\<exists>s'. commit ex_log_state = Ok () s' \<and> lh_n s' = 0 \<and> disk s' 40 = replicate BSIZE 7)"
proof -
  have "40 \<notin> log_region ex_log_state" by (simp add: log_region_def ex_log_state_def)
  moreover have "content ex_log_state 40 = replicate BSIZE 7"
    using cache_blk_held [of "bufs ex_log_state" "lru ex_log_state" "disk ex_log_state" 0 40 "disk ex_log_state"]
      ex_ready ex_bufs_nth [of 0] NBUF_def
    by (simp add: ready_to_commit_def idle_def iface_defs holds_def ex_dirty_buf_def)
  moreover have "0 < lh_n ex_log_state" by (simp add: ex_log_state_def)
  ultimately show ?thesis using commit_crash_atomic [OF ex_ready] ex_ready by auto
qed

end
