(* ===== verification/Txn.thy ===== *)
theory Txn
  imports Log
begin

text \<open>
  The contract between the file system and the layers below it, for code inside a transaction: a block is read with
  \<^verbatim>\<open>bread\<close>, perhaps changed and passed to \<^verbatim>\<open>log_write\<close>, and released with \<^verbatim>\<open>brelse\<close>. \<open>txr B s s'\<close> says that \<open>s'\<close>
  was reached from \<open>s\<close> by such steps, with at most the blocks \<open>B\<close> added to the transaction: nothing has reached the disk,
  every block whose content differs is pinned and in the transaction, and the buffers the process held before are as
  they were.

  The rules are total: they say that the calls return. What that takes is collected in \<open>txok\<close> (the process runs
  inside a transaction, holds no spin lock, and no buffer is in use but the ones it holds itself) and \<open>avail\<close>, the
  number of blocks that can still be added to the log.
\<close>

section \<open>States inside a transaction\<close>

definition log_wf :: "'r log_state_scheme \<Rightarrow> bool" where
  "log_wf s \<longleftrightarrow> bio_ok s \<and> lh_n s = int (length (txn s)) \<and> int (length (lh_block s)) = LOGSIZE"

definition txok :: "'r log_state_scheme \<Rightarrow> bool" where
  "txok s \<longleftrightarrow> log_wf s \<and> idle (locked_bufs s) s \<and> 1 \<le> log_outstanding s \<and> distinct (txn s) \<and> pins s \<subseteq> set (txn s)"

definition avail :: "'r log_state_scheme \<Rightarrow> int" where
  "avail s = min (int NBUF - 2) (log_size s - 2) - lh_n s"

definition held_blocks :: "'r log_state_scheme \<Rightarrow> nat set" where
  "held_blocks s = {n. \<exists>b \<in> locked_bufs s. holds (bufs s ! b) n}"

text \<open>\<open>B\<close> are the blocks that may have been changed and added to the transaction.\<close>

definition txn_ext :: "nat set \<Rightarrow> 'r log_state_scheme \<Rightarrow> 'r log_state_scheme \<Rightarrow> bool" where
  "txn_ext B s s' \<longleftrightarrow> finite B \<and> disk s' = disk s \<and> dwrites s' = dwrites s \<and> log_same s s' \<and>
     set (txn s) \<subseteq> set (txn s') \<and> set (txn s') \<subseteq> set (txn s) \<union> B \<and> pins s \<subseteq> pins s' \<and>
     (\<forall>n. content s' n \<noteq> content s n \<longrightarrow> n \<in> pins s' \<and> n \<in> B) \<and>
     (\<forall>c \<in> locked_bufs s. bufs s' ! c = bufs s ! c)"

definition txr :: "nat set \<Rightarrow> 'r log_state_scheme \<Rightarrow> 'r log_state_scheme \<Rightarrow> bool" where
  "txr B s s' \<longleftrightarrow> txok s \<and> txok s' \<and> txn_ext B s s' \<and> locked_bufs s' = locked_bufs s"

text \<open>In between, with the buffer \<open>b\<close> of block \<open>n\<close> in hand.\<close>

definition holding_block :: "nat set \<Rightarrow> nat \<Rightarrow> nat \<Rightarrow> 'r log_state_scheme \<Rightarrow> 'r log_state_scheme \<Rightarrow> bool" where
  "holding_block B n b s t \<longleftrightarrow> txok s \<and> txok t \<and> txn_ext B s t \<and> has_buf t b n \<and> b \<notin> locked_bufs s \<and>
     locked_bufs t = insert b (locked_bufs s) \<and> (n \<in> pins t \<or> content t n = disk t n)"

lemma txn_ext_refl [simp]: "txn_ext {} s s"
  by (auto simp: txn_ext_def log_same_def)

lemma log_same_trans: "log_same s t \<Longrightarrow> log_same t u \<Longrightarrow> log_same s u"
  by (simp add: log_same_def)

lemma txn_ext_trans:
  assumes a: "txn_ext B s t" and b: "txn_ext C t u" and "locked_bufs s \<subseteq> locked_bufs t"
  shows "txn_ext (B \<union> C) s u"
proof -
  have "n \<in> pins u \<and> n \<in> B \<union> C" if "content u n \<noteq> content s n" for n
    using that a b by (cases "content u n = content t n") (auto simp: txn_ext_def)
  moreover have "bufs u ! c = bufs s ! c" if "c \<in> locked_bufs s" for c
    using that a b assms(3) by (auto simp: txn_ext_def)
  moreover have "log_same s u" using a b log_same_trans by (auto simp: txn_ext_def)
  ultimately show ?thesis using a b unfolding txn_ext_def by auto
qed

lemma txn_ext_mono: "txn_ext B s t \<Longrightarrow> B \<subseteq> C \<Longrightarrow> finite C \<Longrightarrow> txn_ext C s t"
  by (auto simp: txn_ext_def)

lemma txr_mono: "txr B s t \<Longrightarrow> B \<subseteq> C \<Longrightarrow> finite C \<Longrightarrow> txr C s t"
  by (auto simp: txr_def intro: txn_ext_mono)

lemma txr_refl: "txok s \<Longrightarrow> txr {} s s"
  by (simp add: txr_def)

lemma txr_trans: "txr B s t \<Longrightarrow> txr C t u \<Longrightarrow> txr (B \<union> C) s u"
  unfolding txr_def using txn_ext_trans by blast

lemma txr_finite: "txr B s t \<Longrightarrow> finite B"
  by (simp add: txr_def txn_ext_def)

lemma txr_trans2: "txr B s t \<Longrightarrow> txr C t u \<Longrightarrow> B \<union> C = D \<Longrightarrow> txr D s u"
  using txr_trans by blast

lemma txrD:
  assumes "txr B s s'"
  shows "txok s'" "disk s' = disk s" "dwrites s' = dwrites s" "log_same s s'" "locked_bufs s' = locked_bufs s"
    "log_state.more s' = log_state.more s" "low s' = low s" "disksize s' = disksize s"
    "content s' n \<noteq> content s n \<Longrightarrow> n \<in> pins s'" "n \<notin> B \<Longrightarrow> content s' n = content s n"
  using assms by (auto simp: txr_def txn_ext_def log_same_def)

lemma txr_txn: "txr B s s' \<Longrightarrow> set (txn s') \<subseteq> set (txn s) \<union> B"
  by (simp add: txr_def txn_ext_def)

text \<open>Each block takes up at most one place in the log.\<close>

lemma txn_ext_avail:
  assumes "txok s" "txok s'" "txn_ext B s s'"
  shows "avail s - int (card B) \<le> avail s'"
proof -
  have "length (txn s') = card (set (txn s'))" using assms(2) by (simp add: txok_def distinct_card)
  also have "\<dots> \<le> card (set (txn s) \<union> B)" using assms(3) by (intro card_mono) (auto simp: txn_ext_def)
  also have "\<dots> \<le> card (set (txn s)) + card B" by (rule card_Un_le)
  also have "\<dots> \<le> length (txn s) + card B" by (simp add: card_length)
  finally have "lh_n s' \<le> lh_n s + int (card B)" using assms(1,2) by (simp add: txok_def log_wf_def)
  then show ?thesis using assms(3) by (auto simp: txn_ext_def avail_def log_same_def)
qed

lemma txr_avail: "txr B s s' \<Longrightarrow> avail s - int (card B) \<le> avail s'"
  by (simp add: txr_def txn_ext_avail)

lemma txr_held: "txr B s s' \<Longrightarrow> held_blocks s' = held_blocks s"
  by (auto simp: txr_def txn_ext_def held_blocks_def)

lemma holding_avail: "holding_block B n b s t \<Longrightarrow> avail s - int (card B) \<le> avail t"
  by (simp add: holding_block_def txn_ext_avail)

lemma holdingD:
  assumes "holding_block B n b s t"
  shows "txok t" "log_state.more t = log_state.more s" "disksize t = disksize s" "locked_bufs t = insert b (locked_bufs s)"
  using assms by (auto simp: holding_block_def txn_ext_def log_same_def)

lemma txok_bio: "txok s \<Longrightarrow> bio_ok s"
  by (simp add: txok_def log_wf_def)

lemma txok_length [simp]: "txok s \<Longrightarrow> length (content s n) = BSIZE"
  by (simp add: txok_bio)

lemma bio_frame_log_same: "bio_frame s s' \<Longrightarrow> log_same s s' \<and> lh_n s' = lh_n s \<and> lh_block s' = lh_block s"
  using log_fields [of s' s] by (simp add: bio_frame_def log_same_def)

lemma bio_frame_txn: "bio_frame s s' \<Longrightarrow> txn s' = txn s"
  using bio_frame_log_same [of s s'] by (simp add: txn_def)

section \<open>Reading a block\<close>

lemma holding_blocks:
  assumes "holding_block B n b s t"
  shows "held_blocks t = insert n (held_blocks s)"
proof -
  have l: "locked_bufs t = insert b (locked_bufs s)" "holds (bufs t ! b) n"
    "\<And>c. c \<in> locked_bufs s \<Longrightarrow> bufs t ! c = bufs s ! c"
    using assms by (auto simp: holding_block_def has_buf_def txn_ext_def)
  have h: "holds (bufs t ! b) m \<longleftrightarrow> m = n" for m using l(2) by (auto simp: holds_def)
  show ?thesis
    unfolding held_blocks_def l(1) by (rule set_eqI) (simp add: h l(3) cong: bex_cong)
qed

lemma bread_holding:
  assumes ok: "txok s" and new: "n \<notin> held_blocks s" and r: "bread_rel n b s t" and i: "idle (insert b (locked_bufs s)) t"
  shows "holding_block {} n b s t" and "content t = content s"
proof -
  note D = bread_relD [OF r]
  note L = bio_frame_log_same [OF D(7)] and T = bio_frame_txn [OF D(7)]
  have "bufs t ! c = bufs s ! c" if "c \<in> locked_bufs s" for c using that D(10) D(11) [of c] by blast
  then have e: "txn_ext {} s t"
    using D(3-6) L T by (auto simp: txn_ext_def)
  have lk: "locked_bufs t = insert b (locked_bufs s)" by (rule bread_rel_locked [OF r])
  have "log_outstanding t = log_outstanding s" using L by (simp add: log_same_def)
  then have "txok t"
    using ok D(1,4) L T i lk by (simp add: txok_def log_wf_def)
  moreover have "n \<in> pins s \<or> content s n = disk s n"
    using new idle_coherent [of "locked_bufs s" s n] ok by (auto simp: txok_def held_blocks_def)
  ultimately show "holding_block {} n b s t"
    using ok D lk e by (simp add: holding_block_def)
  show "content t = content s" by (rule D)
qed

lemma card_pins_avail:
  assumes "txok s" and "0 \<le> avail s" and "card (locked_bufs s) \<le> 1"
  shows "card (pins s) + card (locked_bufs s) < NBUF"
proof -
  have "card (pins s) \<le> length (txn s)"
    using assms(1) card_mono [of "set (txn s)" "pins s"] by (simp add: txok_def distinct_card)
  moreover have "int (length (txn s)) \<le> int NBUF - 2" using assms by (simp add: txok_def log_wf_def avail_def)
  ultimately show ?thesis using assms(3) by (simp add: NBUF_def)
qed

lemma wp_bread:
  assumes ok: "txok s" "0 \<le> avail s" "card (locked_bufs s) \<le> 1" and n: "n < disksize s" "n \<notin> held_blocks s"
    and "\<And>b t. holding_block {} n b s t \<Longrightarrow> content t = content s \<Longrightarrow> wp (f b) Q t"
  shows "wp (kbind (bread 1 n) f) Q s"
proof -
  have "wp (bread 1 n) (\<lambda>b s'. bread_rel n b s s' \<and> idle (insert b (locked_bufs s)) s' \<and> b \<notin> locked_bufs s) s"
    by (rule bread_idle) (use ok n card_pins_avail [OF ok] in \<open>auto simp: txok_def held_blocks_def\<close>)
  then show ?thesis
    by (rule wp_seq) (use bread_holding [OF ok(1) n(2)] assms(6) in blast)
qed

section \<open>Releasing and changing a block\<close>

lemma holding_data: "holding_block B n b s t \<Longrightarrow> b_data (bufs t ! b) = content t n"
  by (simp add: holding_block_def txok_bio has_buf_content)

text \<open>Other work may happen while the block is held.\<close>

lemma holding_txr:
  assumes h: "holding_block B n b s t" and x: "txr C t u"
  shows "holding_block (B \<union> C) n b s u" and "content u n = content t n"
proof -
  have lk: "locked_bufs t = insert b (locked_bufs s)" "b \<in> locked_bufs t" using h by (auto simp: holding_block_def)
  have bu: "bufs u ! b = bufs t ! b" using x lk(2) by (simp add: txr_def txn_ext_def)
  have "cur_pid u = cur_pid t" by (rule low_cur_pid) (rule txrD(7) [OF x])
  then have has: "has_buf u b n" using h bu by (simp add: holding_block_def has_buf_def)
  show c: "content u n = content t n"
    using has_buf_content [OF txok_bio [OF txrD(1) [OF x]] has] holding_data [OF h] bu by simp
  have "txn_ext (B \<union> C) s u" using txn_ext_trans [of B s t C u] h x lk by (auto simp: holding_block_def txr_def)
  moreover have "n \<in> pins u \<or> content u n = disk u n"
    using h x c by (auto simp: holding_block_def txr_def txn_ext_def)
  ultimately show "holding_block (B \<union> C) n b s u" using h x has by (simp add: holding_block_def txr_def)
qed

lemma wp_brelse:
  assumes h: "holding_block B n b s t"
    and Q: "\<And>u. txr B s u \<Longrightarrow> content u = content t \<Longrightarrow> wp f Q u"
  shows "wp (kbind (brelse b) (\<lambda>_. f)) Q t"
proof -
  have t: "txok t" "has_buf t b n" "n \<in> pins t \<or> content t n = disk t n"
    using h unfolding holding_block_def by blast+
  have i: "idle (locked_bufs t) t" using t(1) unfolding txok_def by blast
  show ?thesis
  proof (rule wp_seq [OF brelse_idle [OF i t(2,3)]], elim conjE)
    fix u assume r: "brelse_rel b t u" and i: "idle (locked_bufs t - {b}) u"
    note D = brelse_relD [OF r]
    note L = bio_frame_log_same [OF D(6)] and T = bio_frame_txn [OF D(6)]
    have "bufs u ! c = bufs t ! c" if "c \<in> locked_bufs s" for c
      using that h D(9) [of c] by (auto simp: holding_block_def)
    then have "txn_ext B s u"
      using h D(2-5) L T log_same_trans by (auto simp: holding_block_def txn_ext_def)
    moreover have "locked_bufs u = locked_bufs s" using h D(7) by (auto simp: holding_block_def)
    moreover have "txok u" using t(1) D(1,3,7) L T i by (simp add: txok_def log_wf_def log_same_def)
    ultimately have "txr B s u" using h by (simp add: txr_def holding_block_def)
    then show "wp f Q u" using Q D(2) by blast
  qed
qed

lemma wp_brelse_last:
  assumes "holding_block B n b s t" and "\<And>u. txr B s u \<Longrightarrow> content u = content t \<Longrightarrow> Q () u"
  shows "wp (brelse b) Q t"
  using wp_brelse [OF assms(1), of "kreturn ()" Q] assms(2) by (simp add: wp_kreturn)

lemma log_same_refl [simp]: "log_same s s" by (simp add: log_same_def)

lemma stored_txok:
  assumes st: "stored b x t v" and ok: "txok t" and has: "has_buf t b n" and len: "length x = BSIZE"
  shows "txok v" and "txn v = txn t" and "avail v = avail t" and "log_same t v" and "lh_n v = lh_n t"
proof -
  note S = storedD [OF st txok_bio [OF ok] has len]
  note L = bio_frame_log_same [OF S(7)] and T = bio_frame_txn [OF S(7)]
  have "idle (locked_bufs t) v" by (rule stored_idle [OF st has len]) (use ok in \<open>simp add: txok_def\<close>)
  then show "txok v" using ok S(1,4,10) L T by (simp add: txok_def log_wf_def log_same_def)
  show "txn v = txn t" "log_same t v" "lh_n v = lh_n t" "avail v = avail t"
    using T L by (simp_all add: avail_def log_same_def)
qed

text \<open>\<^verbatim>\<open>log_write\<close> of a block that is not yet in the transaction uses up one place in the log.\<close>

lemma logged_txok:
  assumes r: "logged_rel n b v u" and ok: "txok v"
  shows "txok u" and "lh_n u \<le> lh_n v + 1" and "lh_n v \<le> lh_n u"
proof -
  have "b_refcnt (bufs u ! c) = b_refcnt (bufs v ! c)" for c
    using r by (cases "c = b") (simp_all add: logged_rel_def)
  moreover have "held u = held v" by (rule lowD(1)) (use r in \<open>simp add: logged_rel_def\<close>)
  ultimately have "idle (locked_bufs v) u" using ok r by (simp add: txok_def idle_def logged_rel_def)
  then show "txok u" using ok r by (auto simp: txok_def log_wf_def logged_rel_def log_same_def)
  show "lh_n u \<le> lh_n v + 1" "lh_n v \<le> lh_n u"
    using r ok by (auto simp: logged_rel_def txok_def log_wf_def)
qed

lemma wp_store_log:
  assumes h: "holding_block B n b s t" and len: "length x = BSIZE" and room: "0 < avail t"
    and Q: "\<And>u. holding_block (insert n B) n b s u \<Longrightarrow> content u = (content t)(n := x) \<Longrightarrow> avail t - 1 \<le> avail u \<Longrightarrow> wp (f ()) Q u"
  shows "wp (kbind (upd_buf b (\<lambda>f. f\<lparr>b_data := x\<rparr>)) (\<lambda>_. kbind (log_write b) f)) Q t"
proof -
  have t: "txok t" "has_buf t b n" using h by (simp_all add: holding_block_def)
  have "wp (kbind (log_write b) f) Q v" if st: "stored b x t v" for v
  proof -
    note S = storedD [OF st txok_bio [OF t(1)] t(2) len] and V = stored_txok [OF st t len]
    have lh: "lh_n v < LOGSIZE" "lh_n v < log_size v - 1" using room V(3) by (auto simp: avail_def NBUF_def LOGSIZE_def MAXOPBLOCKS_def)
    have "wp (log_write b) (\<lambda>_. logged_rel n b v) v"
      by (rule log_write_total [OF S(1,2)]) (use V(1) lh in \<open>auto simp: txok_def log_wf_def idle_def\<close>)
    then show ?thesis
    proof (rule wp_seq)
      fix u :: "'a log_state_scheme" and w
      assume r: "logged_rel n b v u"
      note U = logged_txok [OF r V(1)]
      have eq: "bufs u ! c = bufs t ! c" if "c \<in> locked_bufs s" for c
      proof -
        have "c \<noteq> b" using that h by (auto simp: holding_block_def)
        then show ?thesis using S(11) r by (simp add: logged_rel_def)
      qed
      have c: "content u = (content t)(n := x)" using r S(3) by (simp add: logged_rel_def)
      have p: "pins u = insert n (pins t)" "set (txn u) = insert n (set (txn t))" "disk u = disk t" "dwrites u = dwrites t"
        using r S(4-6) V(2) by (auto simp: logged_rel_def)
      have "log_same s t" "log_same v u" using h r by (simp_all add: holding_block_def txn_ext_def logged_rel_def)
      then have ls: "log_same s u" using V(4) log_same_trans by blast
      have "txn_ext (insert n B) s u"
        using h c p eq ls U(2) V(5) by (auto simp: txn_ext_def holding_block_def)
      then have "holding_block (insert n B) n b s u"
        using h r S(10) p(1) U(1) by (auto simp: holding_block_def logged_rel_def)
      moreover have "avail t - 1 \<le> avail u"
        using U(2) V(5) h ls by (auto simp: avail_def holding_block_def txn_ext_def log_same_def)
      ultimately show "wp (f w) Q u" using Q c by simp
    qed
  qed
  then show ?thesis by (simp add: wp_kbind [of "upd_buf b g" for g] wp_store)
qed

text \<open>The same for a change that depends on what the block has.\<close>

lemma wp_change_log:
  assumes h: "holding_block B n b s t" and len: "length (g (content t n)) = BSIZE" and room: "0 < avail t"
    and Q: "\<And>u. holding_block (insert n B) n b s u \<Longrightarrow> content u = (content t)(n := g (content t n)) \<Longrightarrow>
      avail t - 1 \<le> avail u \<Longrightarrow> wp (f ()) Q u"
  shows "wp (kbind (upd_buf b (\<lambda>f. f\<lparr>b_data := g (b_data f)\<rparr>)) (\<lambda>_. kbind (log_write b) f)) Q t"
proof -
  have eq: "upd_buf b (\<lambda>f. f\<lparr>b_data := g (b_data f)\<rparr>) t = upd_buf b (\<lambda>f. f\<lparr>b_data := g (content t n)\<rparr>) t"
    using holding_data [OF h] by (simp add: upd_buf_def kmod_def)
  have "wp (kbind (upd_buf b (\<lambda>f. f\<lparr>b_data := g (content t n)\<rparr>)) (\<lambda>_. kbind (log_write b) f)) Q t"
    by (rule wp_store_log [OF h len room]) (rule Q)
  then show ?thesis unfolding wp_def kbind_def eq .
qed

end
