(* ===== verification/Fsblk.thy ===== *)
theory Fsblk
  imports Txn
begin

unbundle bit_operations_syntax

text \<open>
  The state of the file system (\<^verbatim>\<open>fs.c\<close>, \<^verbatim>\<open>fs.h\<close>, \<^verbatim>\<open>file.h\<close>) and its lowest layer, the free block map:
  \<^verbatim>\<open>bzero\<close>, \<^verbatim>\<open>balloc\<close>, \<^verbatim>\<open>bfree\<close>. The bitmap is kept at the level of the bytes of its blocks. The
  correctness lemmas are total: an operation returns when the transaction has room for the blocks it logs
  and the disk has a free block.
\<close>

section \<open>State\<close>

definition BPB :: nat where "BPB = BSIZE * 8"
definition NDIRECT :: nat where "NDIRECT = 12"
definition NINDIRECT :: nat where "NINDIRECT = BSIZE div 4"
definition MAXFILE :: nat where "MAXFILE = NDIRECT + NINDIRECT"
definition NINODE :: nat where "NINODE = 50"
definition NDEV :: int where "NDEV = 10"

record inode =
  i_dev :: nat
  i_inum :: nat
  i_ref :: int
  i_lock :: sleeplock
  i_valid :: bool
  i_type :: int
  i_major :: int
  i_minor :: int
  i_nlink :: int
  i_size :: nat
  i_addrs :: "nat list"

record fs_state = log_state +
  sb :: superblock
  icache :: "inode list"

definition BBLOCK :: "nat \<Rightarrow> superblock \<Rightarrow> nat" where
  "BBLOCK b sp = b div BPB + sb_bmapstart sp"

section \<open>Operations\<close>

definition bzero :: "nat \<Rightarrow> nat \<Rightarrow> ('r fs_state_scheme, unit) K" where
  "bzero dev bno =
     kbind (bread dev bno) (\<lambda>bp.
     kbind (upd_buf bp (\<lambda>f. f\<lparr>b_data := replicate BSIZE 0\<rparr>)) (\<lambda>_.
     kbind (log_write bp) (\<lambda>_.
     brelse bp)))"

text \<open>The bit of a map block: \<^verbatim>\<open>data[bi/8] & (1 << (bi % 8))\<close>, and setting and clearing it.\<close>

definition map_bit :: "byte list \<Rightarrow> nat \<Rightarrow> bool" where
  "map_bit d bi \<longleftrightarrow> d ! (bi div 8) AND push_bit (bi mod 8) 1 \<noteq> 0"

definition set_map_bit :: "nat \<Rightarrow> byte list \<Rightarrow> byte list" where
  "set_map_bit bi d = d[bi div 8 := d ! (bi div 8) OR push_bit (bi mod 8) 1]"

definition clear_map_bit :: "nat \<Rightarrow> byte list \<Rightarrow> byte list" where
  "clear_map_bit bi d = d[bi div 8 := d ! (bi div 8) AND NOT (push_bit (bi mod 8) 1)]"

text \<open>
  \<^verbatim>\<open>balloc\<close>. The outer loop runs over the map blocks (\<^verbatim>\<open>b = 0, BPB, 2*BPB, ... < sb.size\<close>), the inner
  one over the bits \<^verbatim>\<open>bi < BPB && b + bi < sb.size\<close> until it finds a clear one.
\<close>

definition balloc_scan :: "nat \<Rightarrow> superblock \<Rightarrow> nat \<Rightarrow> ('r fs_state_scheme, nat option) K" where
  "balloc_scan dev sp b =
     kbind (bread dev (BBLOCK b sp)) (\<lambda>bp.
     kbind (get_buf bp b_data) (\<lambda>d.
     case List.find (\<lambda>bi. \<not> map_bit d bi) [0 ..< min BPB (sb_size sp - b)] of
       Some bi \<Rightarrow>
         kbind (upd_buf bp (\<lambda>f. f\<lparr>b_data := set_map_bit bi d\<rparr>)) (\<lambda>_.
         kbind (log_write bp) (\<lambda>_.
         kbind (brelse bp) (\<lambda>_.
         kbind (bzero dev (b + bi)) (\<lambda>_.
         kreturn (Some (b + bi))))))
     | None \<Rightarrow> kbind (brelse bp) (\<lambda>_. kreturn None)))"

definition balloc :: "nat \<Rightarrow> ('r fs_state_scheme, nat) K" where
  "balloc dev =
     kbind (kget sb) (\<lambda>sp.
     kbind (kfirst (map (\<lambda>i. i * BPB) [0 ..< (sb_size sp + BPB - 1) div BPB]) (balloc_scan dev sp)) (\<lambda>r.
     case r of Some b \<Rightarrow> kreturn b | None \<Rightarrow> kpanic ''balloc: out of blocks''))"

definition bfree :: "nat \<Rightarrow> nat \<Rightarrow> ('r fs_state_scheme, unit) K" where
  "bfree dev b =
     kbind (kget sb) (\<lambda>sp.
     kbind (bread dev (BBLOCK b sp)) (\<lambda>bp.
     kbind (get_buf bp b_data) (\<lambda>d.
     if \<not> map_bit d (b mod BPB) then kpanic ''freeing free block''
     else
       kbind (upd_buf bp (\<lambda>f. f\<lparr>b_data := clear_map_bit (b mod BPB) d\<rparr>)) (\<lambda>_.
       kbind (log_write bp) (\<lambda>_.
       brelse bp)))))"


section \<open>The free map\<close>

lemma map_bit_iff: "map_bit d i \<longleftrightarrow> bit (d ! (i div 8)) (i mod 8)"
  by (simp add: map_bit_def bit_iff_and_push_bit_not_eq_0)

lemma length_map_bit [simp]: "length (set_map_bit i d) = length d" "length (clear_map_bit i d) = length d"
  by (simp_all add: set_map_bit_def clear_map_bit_def)

lemma div_mod_8_eq: "(i::nat) div 8 = j div 8 \<Longrightarrow> i mod 8 = j mod 8 \<Longrightarrow> i = j"
  by (metis div_mult_mod_eq)

lemma map_bit_set:
  assumes "i div 8 < length d"
  shows "map_bit (set_map_bit i d) j \<longleftrightarrow> j = i \<or> map_bit d j"
proof (cases "j div 8 = i div 8")
  case True
  have m: "i mod 8 < 8" "j mod 8 < 8" by simp_all
  have "bit (d ! (i div 8) OR push_bit (i mod 8) 1) (j mod 8) \<longleftrightarrow> bit (d ! (i div 8)) (j mod 8) \<or> j mod 8 = i mod 8"
    using m by (auto simp: bit_or_iff bit_exp_iff)
  then show ?thesis using True assms div_mod_8_eq [of j i] by (auto simp: map_bit_iff set_map_bit_def)
next
  case False
  then show ?thesis by (auto simp: map_bit_iff set_map_bit_def)
qed

lemma map_bit_clear:
  assumes "i div 8 < length d"
  shows "map_bit (clear_map_bit i d) j \<longleftrightarrow> j \<noteq> i \<and> map_bit d j"
proof (cases "j div 8 = i div 8")
  case True
  have m: "i mod 8 < 8" "j mod 8 < 8" by simp_all
  have "bit (d ! (i div 8) AND NOT (push_bit (i mod 8) 1)) (j mod 8) \<longleftrightarrow>
      bit (d ! (i div 8)) (j mod 8) \<and> j mod 8 \<noteq> i mod 8"
    using m by (auto simp: bit_and_iff bit_not_iff bit_exp_iff)
  then show ?thesis using True assms div_mod_8_eq [of j i] by (auto simp: map_bit_iff clear_map_bit_def)
next
  case False
  then show ?thesis by (auto simp: map_bit_iff clear_map_bit_def)
qed

lemma clear_set_map_bit:
  assumes "i div 8 < length d" and "\<not> map_bit d i"
  shows "clear_map_bit i (set_map_bit i d) = d"
proof -
  have "bit (d ! (i div 8)) k \<Longrightarrow> k \<noteq> i mod 8" for k using assms(2) by (auto simp: map_bit_iff)
  then have "(d ! (i div 8) OR push_bit (i mod 8) 1) AND NOT (push_bit (i mod 8) 1) = d ! (i div 8)"
    by (auto simp: bit_eq_iff bit_and_iff bit_or_iff bit_not_iff bit_exp_iff)
  then show ?thesis using assms(1) by (simp add: clear_map_bit_def set_map_bit_def)
qed

lemma fs_fields:
  assumes "log_state.more s' = log_state.more s"
  shows "sb s' = sb s" "icache s' = icache s" "fs_state.more s' = fs_state.more s"
  using assms by (cases s; cases s'; simp)+

lemmas txr_fs = fs_fields [OF txrD(6)]

definition in_use :: "'r fs_state_scheme \<Rightarrow> nat \<Rightarrow> bool" where
  "in_use s b \<longleftrightarrow> map_bit (content s (BBLOCK b (sb s))) (b mod BPB)"

text \<open>The super block describes a file system that fits on the disk and whose map marks its own blocks as used.\<close>

definition fs_geom :: "'r fs_state_scheme \<Rightarrow> bool" where
  "fs_geom s \<longleftrightarrow> sb_size (sb s) \<le> disksize s \<and>
     (\<forall>c < sb_size (sb s). BBLOCK c (sb s) < sb_size (sb s) \<and> in_use s (BBLOCK c (sb s)))"

text \<open>The process may hold one buffer already, of a block that is in use and not part of the map.\<close>

definition map_block :: "'r fs_state_scheme \<Rightarrow> nat \<Rightarrow> bool" where
  "map_block s n \<longleftrightarrow> (\<exists>c < sb_size (sb s). n = BBLOCK c (sb s))"

definition held_ok :: "'r fs_state_scheme \<Rightarrow> bool" where
  "held_ok s \<longleftrightarrow> card (locked_bufs s) \<le> 1 \<and> (\<forall>n \<in> held_blocks s. n < sb_size (sb s) \<and> in_use s n \<and> \<not> map_block s n)"

lemma held_ok_none: "locked_bufs s = {} \<Longrightarrow> held_ok s"
  by (simp add: held_ok_def held_blocks_def)

lemma bzero_ok:
  assumes "txok s" "0 < avail s" "card (locked_bufs s) \<le> 1" "n < disksize s" "n \<notin> held_blocks s"
  shows "wp (bzero 1 n) (\<lambda>_ s'. txr {n} s s' \<and> content s' = (content s)(n := replicate BSIZE 0)) s"
  unfolding bzero_def
proof (rule wp_bread)
  fix b t assume h: "holding_block {} n b s t" and c: "content t = content s"
  have "0 < avail t" using holding_avail [OF h] assms(2) by simp
  then show "wp (kbind (upd_buf b (\<lambda>f. f\<lparr>b_data := replicate BSIZE 0\<rparr>)) (\<lambda>_. kbind (log_write b) (\<lambda>_. brelse b)))
      (\<lambda>_ s'. txr {n} s s' \<and> content s' = (content s)(n := replicate BSIZE 0)) t"
    by (intro wp_store_log [OF h] wp_brelse_last) (use c in auto)
qed (use assms in auto)

lemma in_use_cong: "content t = content s \<Longrightarrow> sb t = sb s \<Longrightarrow> in_use t = in_use s"
  by (simp add: in_use_def fun_eq_iff)

definition bfree_post :: "'r fs_state_scheme \<Rightarrow> nat \<Rightarrow> 'r fs_state_scheme \<Rightarrow> bool" where
  "bfree_post s b s' \<longleftrightarrow> txr {BBLOCK b (sb s)} s s' \<and>
     content s' = (content s)(BBLOCK b (sb s) := clear_map_bit (b mod BPB) (content s (BBLOCK b (sb s))))"

lemma bfree_ok:
  assumes ok: "txok s" "0 < avail s" "held_ok s" and geo: "fs_geom s" and b: "b < sb_size (sb s)" "in_use s b"
  shows "wp (bfree 1 b) (\<lambda>_. bfree_post s b) s"
proof -
  let ?m = "BBLOCK b (sb s)"
  have m: "?m < disksize s" "?m \<notin> held_blocks s" using geo b ok(3) by (auto simp: fs_geom_def held_ok_def map_block_def)
  have "wp (kbind (bread 1 ?m) (\<lambda>bp. kbind (get_buf bp b_data) (\<lambda>d.
     if \<not> map_bit d (b mod BPB) then kpanic ''freeing free block''
     else kbind (upd_buf bp (\<lambda>f. f\<lparr>b_data := clear_map_bit (b mod BPB) d\<rparr>)) (\<lambda>_. kbind (log_write bp) (\<lambda>_. brelse bp)))))
    (\<lambda>_. bfree_post s b) s"
  proof (rule wp_bread [OF ok(1) _ _ m])
    fix bp t
    assume h: "holding_block {} ?m bp s t" and c: "content t = content s"
    have av: "0 < avail t" using holding_avail [OF h] ok(2) by simp
    have "wp (kbind (upd_buf bp (\<lambda>f. f\<lparr>b_data := clear_map_bit (b mod BPB) (content s ?m)\<rparr>))
        (\<lambda>_. kbind (log_write bp) (\<lambda>_. brelse bp))) (\<lambda>_. bfree_post s b) t"
      by (intro wp_store_log [OF h _ av] wp_brelse_last) (use ok(1) c in \<open>auto simp: bfree_post_def\<close>)
    then show "wp (kbind (get_buf bp b_data) (\<lambda>d. if \<not> map_bit d (b mod BPB) then kpanic ''freeing free block''
     else kbind (upd_buf bp (\<lambda>f. f\<lparr>b_data := clear_map_bit (b mod BPB) d\<rparr>)) (\<lambda>_. kbind (log_write bp) (\<lambda>_. brelse bp))))
       (\<lambda>_. bfree_post s b) t"
      using holding_data [OF h] c b(2)
      by (simp add: wp_kbind [of "get_buf bp b_data"] upd_get_buf_wp(3) wp_if in_use_def)
  qed (use ok in \<open>auto simp: held_ok_def\<close>)
  then show ?thesis by (simp add: bfree_def wp_kbind [of "kget sb"] wp_kget)
qed

text \<open>Freeing a block that is free already is a panic.\<close>

definition balloc_post :: "'r fs_state_scheme \<Rightarrow> nat \<Rightarrow> 'r fs_state_scheme \<Rightarrow> bool" where
  "balloc_post s b s' \<longleftrightarrow> txr {BBLOCK b (sb s), b} s s' \<and> b < sb_size (sb s) \<and> \<not> in_use s b \<and>
     content s' = ((content s)(BBLOCK b (sb s) := set_map_bit (b mod BPB) (content s (BBLOCK b (sb s)))))
       (b := replicate BSIZE 0)"

lemma BPB_pos: "0 < BPB"
  by (simp add: BPB_def BSIZE_def)

text \<open>The invariant of the search: nothing has changed, and the blocks of the map looked at so far had no clear bit.\<close>

definition scan_inv :: "'r fs_state_scheme \<Rightarrow> nat \<Rightarrow> 'r fs_state_scheme \<Rightarrow> bool" where
  "scan_inv s k t \<longleftrightarrow> txr {} s t \<and> content t = content s \<and> (\<forall>c < sb_size (sb s). c < k * BPB \<longrightarrow> in_use s c)"

definition scan_step :: "nat \<Rightarrow> nat \<Rightarrow> byte list \<Rightarrow> nat \<Rightarrow> nat \<Rightarrow> ('r fs_state_scheme, nat option) K" where
  "scan_step dev b d bp bi =
     kbind (upd_buf bp (\<lambda>f. f\<lparr>b_data := set_map_bit bi d\<rparr>)) (\<lambda>_.
     kbind (log_write bp) (\<lambda>_.
     kbind (brelse bp) (\<lambda>_.
     kbind (bzero dev (b + bi)) (\<lambda>_.
     kreturn (Some (b + bi))))))"

lemma balloc_take:
  assumes ok: "txok s" "2 \<le> avail s" "held_ok s" and geo: "fs_geom s" and t: "txr {} s t" "content t = content s"
    and h: "holding_block {} (BBLOCK b (sb s)) bp t u" "content u = content t" and b: "b = k * BPB"
    and bi: "bi < BPB" "b + bi < sb_size (sb s)" "\<not> map_bit (content s (BBLOCK b (sb s))) bi"
  shows "wp (scan_step 1 b (content s (BBLOCK b (sb s))) bp bi) (found_or I (balloc_post s)) u"
  unfolding scan_step_def
proof (rule wp_store_log [OF h(1)], simp add: ok(1), use txr_avail [OF t(1)] holding_avail [OF h(1)] ok(2) in simp,
    rule wp_brelse, assumption)
  let ?m = "BBLOCK b (sb s)"
  fix v w
  assume v: "content v = (content u)(?m := set_map_bit bi (content s ?m))"
    and w: "txr {?m} t w" "content w = content v"
  have bb: "BBLOCK (b + bi) (sb s) = ?m" "(b + bi) mod BPB = bi"
    using bi(1) b BPB_pos by (simp_all add: BBLOCK_def)
  have free: "\<not> in_use s (b + bi)" using bi(3) bb by (simp add: in_use_def)
  have sw: "txr {?m} s w" using txr_trans [OF t(1) w(1)] by simp
  have "0 < avail w" "card (locked_bufs w) \<le> 1" "b + bi < disksize w" "b + bi \<notin> held_blocks w"
    using txr_avail [OF sw] txrD(5,8) [OF sw] txr_held [OF sw] ok geo bi(2) free
    by (auto simp: held_ok_def fs_geom_def)
  note z = bzero_ok [OF txrD(1) [OF w(1)] this]
  show "wp (kbind (bzero 1 (b + bi)) (\<lambda>_. kreturn (Some (b + bi)))) (found_or I (balloc_post s)) w"
    by (rule wp_seq [OF z])
      (use bi t h(2) v w bb free txr_trans2 [OF sw, of "{b + bi}" _ "{?m, b + bi}"] in \<open>auto simp: wp_kreturn balloc_post_def\<close>)
qed

lemma balloc_scan_ok:
  assumes ok: "txok s" "2 \<le> avail s" "held_ok s" and geo: "fs_geom s" and k: "k * BPB < sb_size (sb s)"
    and inv: "scan_inv s k t"
  shows "wp (balloc_scan 1 (sb s) (k * BPB)) (found_or (scan_inv s (Suc k)) (balloc_post s)) t"
  unfolding balloc_scan_def
proof (rule wp_bread)
  let ?sp = "sb s"
  let ?b = "k * BPB"
  let ?d = "content s (BBLOCK ?b ?sp)"
  have t: "txr {} s t" "content t = content s" and seen: "\<forall>c < sb_size ?sp. c < ?b \<longrightarrow> in_use s c"
    using inv by (auto simp: scan_inv_def)
  show "txok t" "0 \<le> avail t" "card (locked_bufs t) \<le> 1" "BBLOCK ?b ?sp < disksize t" "BBLOCK ?b ?sp \<notin> held_blocks t"
    using txrD [OF t(1)] txr_avail [OF t(1)] txr_held [OF t(1)] ok geo k
    by (auto simp: held_ok_def fs_geom_def map_block_def)
  fix bp u
  assume h: "holding_block {} (BBLOCK ?b ?sp) bp t u" and c: "content u = content t"
  have full: "in_use s x"
    if "List.find (\<lambda>bi. \<not> map_bit ?d bi) [0 ..< min BPB (sb_size ?sp - ?b)] = None" "x < sb_size ?sp" "x < Suc k * BPB" for x
  proof (cases "x < ?b")
    case True
    then show ?thesis using seen that(2) by blast
  next
    case False
    then have "?b \<le> x" by simp
    then obtain y where y: "x = ?b + y" by (auto simp: le_iff_add)
    with that(3) have x: "x = ?b + y" "y < BPB" by simp_all
    then have "BBLOCK x ?sp = BBLOCK ?b ?sp" "x mod BPB = y"
      by (simp_all add: BBLOCK_def)
    moreover have "map_bit ?d y" using that(1,2) x by (auto simp: find_None_iff)
    ultimately show ?thesis by (simp add: in_use_def)
  qed
  have none: "wp (kbind (brelse bp) (\<lambda>_. kreturn None)) (found_or (scan_inv s (Suc k)) (balloc_post s)) u"
    if "\<forall>x < sb_size ?sp. x < Suc k * BPB \<longrightarrow> in_use s x"
    by (rule wp_brelse [OF h])
      (use t c that txr_trans2 [OF t(1), of "{}" _ "{}"] in \<open>auto simp: wp_kreturn scan_inv_def\<close>)
  show "wp (kbind (get_buf bp b_data) (\<lambda>d.
     case List.find (\<lambda>bi. \<not> map_bit d bi) [0 ..< min BPB (sb_size ?sp - ?b)] of
       Some bi \<Rightarrow>
         kbind (upd_buf bp (\<lambda>f. f\<lparr>b_data := set_map_bit bi d\<rparr>)) (\<lambda>_. kbind (log_write bp) (\<lambda>_.
         kbind (brelse bp) (\<lambda>_. kbind (bzero 1 (?b + bi)) (\<lambda>_. kreturn (Some (?b + bi))))))
     | None \<Rightarrow> kbind (brelse bp) (\<lambda>_. kreturn None))) (found_or (scan_inv s (Suc k)) (balloc_post s)) u"
    using none full balloc_take [OF ok geo t h c refl, unfolded scan_step_def] holding_data [OF h] c t(2)
    by (auto simp: wp_kbind [of "get_buf bp b_data"] upd_get_buf_wp(3) split: option.split dest!: find_Some_iff2)
qed

lemma balloc_ok:
  assumes ok: "txok s" "2 \<le> avail s" "held_ok s" and geo: "fs_geom s"
    and free: "\<exists>c < sb_size (sb s). \<not> in_use s c"
  shows "wp (balloc 1) (balloc_post s) s"
proof -
  let ?xs = "map (\<lambda>i. i * BPB) [0 ..< (sb_size (sb s) + BPB - 1) div BPB]"
  have lt: "k * BPB < sb_size (sb s)" if "k < length ?xs" for k
  proof -
    have "Suc k * BPB \<le> (sb_size (sb s) + BPB - 1) div BPB * BPB" using that by (intro mult_le_mono1) simp
    also have "\<dots> \<le> sb_size (sb s) + BPB - 1" by (rule div_times_less_eq_dividend)
    finally show ?thesis using BPB_pos by simp
  qed
  have "wp (kfirst ?xs (balloc_scan 1 (sb s))) (found_or (scan_inv s (length ?xs)) (balloc_post s)) s"
  proof (rule wp_kfirst_inv)
    show "scan_inv s 0 s" using txr_refl [OF ok(1)] by (simp add: scan_inv_def)
    show "wp (balloc_scan 1 (sb s) (?xs ! k)) (found_or (scan_inv s (Suc k)) (balloc_post s)) t"
      if "k < length ?xs" "scan_inv s k t" for k t
      using balloc_scan_ok [OF ok geo lt [OF that(1)] that(2)] that(1) by simp
  qed
  moreover have "\<not> scan_inv s (length ?xs) t" for t
  proof -
    have "sb_size (sb s) \<le> length ?xs * BPB"
      using dividend_less_div_times [OF BPB_pos, of "sb_size (sb s) + BPB - 1"] by simp
    then show ?thesis using free by (force simp: scan_inv_def)
  qed
  ultimately show ?thesis
    unfolding balloc_def wp_kbind [of "kget sb"] wp_kget
    by (elim wp_seq) (auto simp: wp_kreturn wp_kpanic found_or_def split: option.splits)
qed

section \<open>What the map says afterwards\<close>

lemma BBLOCK_mod_eq: "BBLOCK b sp = BBLOCK c sp \<Longrightarrow> b mod BPB = c mod BPB \<Longrightarrow> b = c"
  by (simp add: BBLOCK_def) (metis div_mult_mod_eq)

lemma map_index: "b mod BPB div 8 < BSIZE"
  using BPB_pos mod_less_divisor [of BPB b] by (simp add: BPB_def BSIZE_def)

lemma in_use_balloc:
  assumes ok: "txok s" and geo: "fs_geom s" and post: "balloc_post s b s'" and c: "c < sb_size (sb s)"
  shows "in_use s' c \<longleftrightarrow> c = b \<or> in_use s c"
proof -
  have "BBLOCK c (sb s) \<noteq> b" using geo c post by (auto simp: fs_geom_def balloc_post_def)
  moreover have "sb s' = sb s" using post txr_fs(1) by (auto simp: balloc_post_def)
  moreover have "b mod BPB div 8 < length (content s (BBLOCK b (sb s)))"
    using map_index ok by simp
  ultimately show ?thesis
    using post BBLOCK_mod_eq [of c "sb s" b] by (auto simp: balloc_post_def in_use_def map_bit_set)
qed

lemma in_use_bfree:
  assumes ok: "txok s" and post: "bfree_post s b s'"
  shows "in_use s' c \<longleftrightarrow> c \<noteq> b \<and> in_use s c"
proof -
  have "sb s' = sb s" using post txr_fs(1) by (auto simp: bfree_post_def)
  moreover have "b mod BPB div 8 < length (content s (BBLOCK b (sb s)))"
    using map_index ok by simp
  ultimately show ?thesis
    using BBLOCK_mod_eq [of c "sb s" b] post by (auto simp: bfree_post_def in_use_def map_bit_clear)
qed

lemma fs_geom_balloc:
  assumes "txok s" "fs_geom s" "balloc_post s b s'"
  shows "fs_geom s'"
proof -
  have "sb s' = sb s" "disksize s' = disksize s" using assms(3) txr_fs(1) txrD(8) by (auto simp: balloc_post_def)
  then show ?thesis using assms(2) in_use_balloc [OF assms] by (simp add: fs_geom_def)
qed

section \<open>Properties\<close>

text \<open>C2. \<^verbatim>\<open>balloc\<close>, inside a transaction with room for two blocks and with a free block on the disk, returns. It returns a
  block that was free, marks exactly that block as in use, zeroes it, and changes no other block but the one of the
  map that holds its bit; only these two blocks are added to the transaction and nothing reaches the disk.\<close>

theorem balloc_allocates:
  assumes "txok s" "2 \<le> avail s" "held_ok s" and "fs_geom s" and "\<exists>c < sb_size (sb s). \<not> in_use s c"
  shows "\<exists>b s'. balloc 1 s = Ok b s' \<and> b < sb_size (sb s) \<and> \<not> in_use s b \<and> content s' b = replicate BSIZE 0 \<and>
      (\<forall>c < sb_size (sb s). in_use s' c \<longleftrightarrow> c = b \<or> in_use s c) \<and>
      (\<forall>n. n \<noteq> b \<longrightarrow> n \<noteq> BBLOCK b (sb s) \<longrightarrow> content s' n = content s n) \<and>
      set (txn s') \<subseteq> set (txn s) \<union> {BBLOCK b (sb s), b} \<and> disk s' = disk s"
proof -
  obtain b s' where r: "balloc 1 s = Ok b s'" "balloc_post s b s'" using balloc_ok [OF assms] by (rule wpE)
  then show ?thesis
    using in_use_balloc [OF assms(1,4) r(2)] txr_txn [of "{BBLOCK b (sb s), b}" s s'] by (auto simp: balloc_post_def dest: txrD(2))
qed

text \<open>C3. \<^verbatim>\<open>bfree\<close> of a block in use returns, makes exactly that block free and changes no block but the one of the
  map that holds its bit.\<close>

theorem bfree_frees:
  assumes "txok s" "0 < avail s" "held_ok s" and "fs_geom s" and "b < sb_size (sb s)" "in_use s b"
  shows "\<exists>s'. bfree 1 b s = Ok () s' \<and> (\<forall>c. in_use s' c \<longleftrightarrow> c \<noteq> b \<and> in_use s c) \<and>
      (\<forall>n. n \<noteq> BBLOCK b (sb s) \<longrightarrow> content s' n = content s n) \<and> disk s' = disk s"
proof -
  obtain u s' where r: "bfree 1 b s = Ok u s'" "bfree_post s b s'" using bfree_ok [OF assms] by (rule wpE)
  then show ?thesis
    using in_use_bfree [OF assms(1) r(2)] by (auto simp: bfree_post_def dest: txrD(2))
qed

text \<open>C4. Freeing what \<^verbatim>\<open>balloc\<close> returned restores the free map byte for byte.\<close>

theorem balloc_bfree_roundtrip:
  assumes ok: "txok s" "3 \<le> avail s" "held_ok s" and geo: "fs_geom s"
    and free: "\<exists>c < sb_size (sb s). \<not> in_use s c" and c: "c < sb_size (sb s)"
  shows "\<exists>s'. kbind (balloc 1) (bfree 1) s = Ok () s' \<and> content s' (BBLOCK c (sb s)) = content s (BBLOCK c (sb s))"
proof -
  have two: "2 \<le> avail s" using ok(2) by simp
  have "wp (kbind (balloc 1) (bfree 1)) (\<lambda>_ s'. content s' (BBLOCK c (sb s)) = content s (BBLOCK c (sb s))) s"
  proof (rule wp_seq [OF balloc_ok [OF ok(1) two ok(3) geo free]])
    fix b t assume p: "balloc_post s b t"
    then have x: "txr {BBLOCK b (sb s), b} s t" and b: "b < sb_size (sb s)" "\<not> in_use s b" by (auto simp: balloc_post_def)
    have sb: "sb t = sb s" by (rule txr_fs [OF x])
    have u: "in_use t d \<longleftrightarrow> d = b \<or> in_use s d" if "d < sb_size (sb s)" for d
      by (rule in_use_balloc [OF ok(1) geo p that])
    have ne: "BBLOCK d (sb s) \<noteq> b" if "d < sb_size (sb s)" for d
      using geo that b by (auto simp: fs_geom_def)
    have "held_ok t"
      using ok(3) txrD(5) [OF x] txr_held [OF x] u sb by (simp add: held_ok_def map_block_def)
    then have f: "wp (bfree 1 b) (\<lambda>_. bfree_post t b) t"
      using txrD(1) [OF x] txr_avail [OF x] ok(2) fs_geom_balloc [OF ok(1) geo p] b(1) u [OF b(1)] sb ne [OF b(1)]
      by (intro bfree_ok) simp_all
    have len: "b mod BPB div 8 < length (content s (BBLOCK b (sb s)))" using map_index ok(1) by simp
    show "wp (bfree 1 b) (\<lambda>_ s'. content s' (BBLOCK c (sb s)) = content s (BBLOCK c (sb s))) t"
      by (rule wp_mono [OF f])
        (use p sb ne [OF b(1)] ne [OF c] clear_set_map_bit [OF len] b(2) in \<open>auto simp: balloc_post_def bfree_post_def in_use_def\<close>)
  qed
  then show ?thesis by (auto simp: wp_iff_Ok)
qed

section \<open>A concrete file system\<close>

text \<open>A disk of 64 blocks: the map is block 3, and blocks 0 to 7 are in use.\<close>

definition ex_disk :: diskimg where
  "ex_disk n = (if n = 3 then 255 # replicate (BSIZE - 1) 0 else replicate BSIZE 0)"

definition ex_sb :: superblock where
  "ex_sb = \<lparr>sb_size = 64, sb_nblocks = 56, sb_ninodes = 8, sb_nlog = 30, sb_logstart = 100, sb_inodestart = 4, sb_bmapstart = 3\<rparr>"

definition ex_inode :: inode where
  "ex_inode = \<lparr>i_dev = 0, i_inum = 0, i_ref = 0, i_lock = initsleeplock, i_valid = False, i_type = 0, i_major = 0,
     i_minor = 0, i_nlink = 0, i_size = 0, i_addrs = replicate (NDIRECT + 1) 0\<rparr>"

definition ex_fs_state :: fs_state where
  "ex_fs_state = \<lparr>ncli = 0, intena = False, int_on = True, held = {}, mem = (\<lambda>_. 0), kend = 0, freelist = 0,
     use_lock = True, kdata = 0, kpgdir = 0, cr3 = 0, ptable = [], initproc = None, nextpid = 1, cur = None,
     ts_esp0 = 0, sym_forkret = 0, sym_trapret = 0, ticks = 0,
     bufs = replicate NBUF free_buf, lru = [0 ..< NBUF], disk = ex_disk,
     disksize = 200, dwrites = [],
     log_start = 100, log_size = 30, log_outstanding = 1, log_committing = False, log_dev = 1,
     lh_n = 0, lh_block = replicate 30 0, sb = ex_sb, icache = replicate NINODE ex_inode\<rparr>"

lemma ex_fs_sel [simp]:
  "bufs ex_fs_state = replicate NBUF free_buf" "lru ex_fs_state = [0 ..< NBUF]" "disk ex_fs_state = ex_disk"
  "disksize ex_fs_state = 200" "log_start ex_fs_state = 100" "log_size ex_fs_state = 30"
  "log_outstanding ex_fs_state = 1" "lh_n ex_fs_state = 0" "lh_block ex_fs_state = replicate 30 0"
  "sb ex_fs_state = ex_sb" "icache ex_fs_state = replicate NINODE ex_inode" "held ex_fs_state = {}" "ncli ex_fs_state = 0"
  by (simp_all add: ex_fs_state_def)

lemma ex_disk_length: "length (ex_disk n) = BSIZE"
  by (simp add: ex_disk_def BSIZE_def)

lemma ex_fs_cache:
  "bio_ok ex_fs_state" "content ex_fs_state = ex_disk" "pins ex_fs_state = {}" "locked_bufs ex_fs_state = {}"
  using free_cache [of ex_fs_state] ex_disk_length by (simp_all add: atLeast0LessThan)

lemma ex_txok: "txok ex_fs_state" "avail ex_fs_state = 28" "held_ok ex_fs_state"
  using ex_fs_cache
  by (simp_all add: txok_def log_wf_def idle_def txn_def avail_def held_ok_none NBUF_def LOGSIZE_def MAXOPBLOCKS_def)

lemma ex_in_use: "c < 64 \<Longrightarrow> in_use ex_fs_state c \<longleftrightarrow> c < 8"
proof -
  assume c: "c < 64"
  then have d: "c div BPB = 0" "c mod BPB = c" by (simp_all add: BPB_def BSIZE_def)
  have "map_bit (ex_disk 3) c \<longleftrightarrow> c < 8"
  proof (cases "c < 8")
    case True
    have "(255 :: byte) = - 1" by (simp add: One_nat_def)
    then have "bit (255 :: byte) c" using True by (simp only: bit_minus_1_iff) simp
    with True show ?thesis by (simp add: map_bit_iff ex_disk_def)
  next
    case False
    then have "0 < c div 8" "c div 8 < BSIZE" using c by (auto simp: BSIZE_def)
    then show ?thesis using False by (simp add: map_bit_iff ex_disk_def nth_Cons')
  qed
  then show ?thesis by (simp add: in_use_def BBLOCK_def ex_sb_def d ex_fs_cache)
qed

lemma ex_fs_geom: "fs_geom ex_fs_state"
  by (auto simp: fs_geom_def ex_sb_def BBLOCK_def BPB_def BSIZE_def ex_in_use)

lemma ex_free: "\<exists>c < sb_size (sb ex_fs_state). \<not> in_use ex_fs_state c"
  using ex_in_use [of 8] by (intro exI [of _ 8]) (simp add: ex_sb_def)

lemmas ex_fs = ex_txok ex_fs_geom ex_free

theorem balloc_allocates_witness:
  "\<exists>b s'. balloc 1 ex_fs_state = Ok b s' \<and> 8 \<le> b \<and> in_use s' b \<and> in_use s' 5"
proof -
  obtain b s' where "balloc 1 ex_fs_state = Ok b s'" "b < 64" "\<not> in_use ex_fs_state b"
      "\<forall>c < 64. in_use s' c \<longleftrightarrow> c = b \<or> in_use ex_fs_state c"
    using balloc_allocates [OF ex_fs(1) _ ex_fs(3-5)] ex_fs(2) by (auto simp: ex_sb_def)
  then show ?thesis using ex_in_use by (auto simp: not_less)
qed

theorem bfree_frees_witness: "\<exists>s'. bfree 1 5 ex_fs_state = Ok () s' \<and> \<not> in_use s' 5 \<and> in_use s' 4"
  using bfree_frees [OF ex_fs(1) _ ex_fs(3-4), of 5] ex_fs(2) ex_in_use [of 5] ex_in_use [of 4] by (auto simp: ex_sb_def)

theorem balloc_bfree_witness: "\<exists>s'. kbind (balloc 1) (bfree 1) ex_fs_state = Ok () s' \<and> content s' 3 = content ex_fs_state 3"
  using balloc_bfree_roundtrip [OF ex_fs(1) _ ex_fs(3-5), of 0] ex_fs(2) by (auto simp: ex_sb_def BBLOCK_def)

end
