(* ===== verification/Inode.thy ===== *)
theory Inode
  imports Fsblk
begin

text \<open>
  Inodes (\<^verbatim>\<open>fs.c\<close>): the on-disk format, the inode cache with its reference counts and sleep locks,
  the block map of a file, and reading and writing its content. An inode pointer is an index into
  \<^verbatim>\<open>icache.inode\<close>. The buffers that \<^verbatim>\<open>readi\<close> fills and \<^verbatim>\<open>writei\<close> copies from are byte lists; what their
  callers do with the memory behind them is in the theories of the callers.
\<close>

section \<open>On-disk inodes\<close>

record dinode =
  di_type :: int
  di_major :: int
  di_minor :: int
  di_nlink :: int
  di_size :: nat
  di_addrs :: "nat list"

definition DINODE_SIZE :: nat where "DINODE_SIZE = 64"
definition IPB :: nat where "IPB = BSIZE div DINODE_SIZE"

definition IBLOCK :: "nat \<Rightarrow> superblock \<Rightarrow> nat" where
  "IBLOCK i sp = i div IPB + sb_inodestart sp"

text \<open>\<^verbatim>\<open>short\<close> values and their two-byte images.\<close>

definition s16 :: "int \<Rightarrow> int" where
  "s16 x = (x + 2 ^ 15) mod 2 ^ 16 - 2 ^ 15"

definition enc16 :: "int \<Rightarrow> byte list" where
  "enc16 x = le_enc 2 (nat (x mod 2 ^ 16))"

definition dec16 :: "byte list \<Rightarrow> int" where
  "dec16 bs = s16 (int (le_dec bs))"

fun enc_words :: "nat list \<Rightarrow> byte list" where
  "enc_words [] = []"
| "enc_words (x # xs) = le_enc 4 x @ enc_words xs"

fun dec_words :: "nat \<Rightarrow> byte list \<Rightarrow> nat list" where
  "dec_words 0 bs = []"
| "dec_words (Suc n) bs = le_dec (take 4 bs) # dec_words n (drop 4 bs)"

definition enc_dinode :: "dinode \<Rightarrow> byte list" where
  "enc_dinode d = enc16 (di_type d) @ enc16 (di_major d) @ enc16 (di_minor d) @ enc16 (di_nlink d) @
     le_enc 4 (di_size d) @ enc_words (di_addrs d)"

definition dec_dinode :: "byte list \<Rightarrow> dinode" where
  "dec_dinode bs =
     \<lparr>di_type = dec16 (take 2 bs), di_major = dec16 (take 2 (drop 2 bs)), di_minor = dec16 (take 2 (drop 4 bs)),
      di_nlink = dec16 (take 2 (drop 6 bs)), di_size = le_dec (take 4 (drop 8 bs)),
      di_addrs = dec_words (NDIRECT + 1) (drop 12 bs)\<rparr>"

text \<open>\<^verbatim>\<open>(struct dinode*)bp->data + inum%IPB\<close>\<close>

definition get_dinode :: "byte list \<Rightarrow> nat \<Rightarrow> dinode" where
  "get_dinode d inum = dec_dinode (take DINODE_SIZE (drop (inum mod IPB * DINODE_SIZE) d))"

definition put_dinode :: "nat \<Rightarrow> dinode \<Rightarrow> byte list \<Rightarrow> byte list" where
  "put_dinode inum di d = splice (inum mod IPB * DINODE_SIZE) (enc_dinode di) d"

section \<open>The inode cache\<close>

definition T_DIR :: int where "T_DIR = 1"
definition T_FILE :: int where "T_FILE = 2"
definition T_DEV :: int where "T_DEV = 3"
definition ROOTINO :: nat where "ROOTINO = 1"

definition get_ino :: "nat \<Rightarrow> (inode \<Rightarrow> 'a) \<Rightarrow> ('r fs_state_scheme, 'a) K" where
  "get_ino ip f = kget (\<lambda>s. f (icache s ! ip))"

definition upd_ino :: "nat \<Rightarrow> (inode \<Rightarrow> inode) \<Rightarrow> ('r fs_state_scheme, unit) K" where
  "upd_ino ip f = kmod (\<lambda>s. s\<lparr>icache := (icache s)[ip := f (icache s ! ip)]\<rparr>)"

definition inode_lock :: "nat \<Rightarrow> 'r fs_state_scheme \<Rightarrow> sleeplock" where
  "inode_lock ip s = i_lock (icache s ! ip)"

definition set_inode_lock :: "nat \<Rightarrow> sleeplock \<Rightarrow> 'r fs_state_scheme \<Rightarrow> 'r fs_state_scheme" where
  "set_inode_lock ip l s = s\<lparr>icache := (icache s)[ip := (icache s ! ip)\<lparr>i_lock := l\<rparr>]\<rparr>"

definition acquiresleep_ino :: "nat \<Rightarrow> ('r fs_state_scheme, unit) K" where
  "acquiresleep_ino ip = acquiresleep (inode_lock ip) (set_inode_lock ip) (LInodeSl ip) (ChanInodeLock ip)"

definition releasesleep_ino :: "nat \<Rightarrow> ('r fs_state_scheme, unit) K" where
  "releasesleep_ino ip = releasesleep (set_inode_lock ip) (LInodeSl ip) (ChanInodeLock ip)"

definition holdingsleep_ino :: "nat \<Rightarrow> ('r fs_state_scheme, bool) K" where
  "holdingsleep_ino ip = holdingsleep (inode_lock ip) (LInodeSl ip)"

definition iinit :: "nat \<Rightarrow> ('r fs_state_scheme, unit) K" where
  "iinit dev =
     kbind (kfor [0 ..< NINODE] (\<lambda>i. upd_ino i (\<lambda>p. p\<lparr>i_lock := initsleeplock\<rparr>))) (\<lambda>_.
     kbind (readsb dev) (\<lambda>sp.
     kmod (\<lambda>s. s\<lparr>sb := sp\<rparr>)))"

definition iget :: "nat \<Rightarrow> nat \<Rightarrow> ('r fs_state_scheme, nat) K" where
  "iget dev inum =
     kbind (acquire LIcache) (\<lambda>_.
     kbind (kget (\<lambda>s. (List.find (\<lambda>i. 0 < i_ref (icache s ! i) \<and> i_dev (icache s ! i) = dev \<and>
                                   i_inum (icache s ! i) = inum) [0 ..< NINODE],
                       List.find (\<lambda>i. i_ref (icache s ! i) = 0) [0 ..< NINODE]))) (\<lambda>(hit, empty).
     case hit of
       Some ip \<Rightarrow>
         kbind (upd_ino ip (\<lambda>p. p\<lparr>i_ref := i_ref p + 1\<rparr>)) (\<lambda>_.
         kbind (release LIcache) (\<lambda>_.
         kreturn ip))
     | None \<Rightarrow>
         (case empty of
            None \<Rightarrow> kpanic ''iget: no inodes''
          | Some ip \<Rightarrow>
              kbind (upd_ino ip (\<lambda>p. p\<lparr>i_dev := dev, i_inum := inum, i_ref := 1, i_valid := False\<rparr>)) (\<lambda>_.
              kbind (release LIcache) (\<lambda>_.
              kreturn ip)))))"

definition idup :: "nat \<Rightarrow> ('r fs_state_scheme, nat) K" where
  "idup ip =
     kbind (acquire LIcache) (\<lambda>_.
     kbind (upd_ino ip (\<lambda>p. p\<lparr>i_ref := i_ref p + 1\<rparr>)) (\<lambda>_.
     kbind (release LIcache) (\<lambda>_.
     kreturn ip)))"

text \<open>One turn of the loop of \<^verbatim>\<open>ialloc\<close>.\<close>

definition ialloc_try :: "nat \<Rightarrow> superblock \<Rightarrow> int \<Rightarrow> nat \<Rightarrow> ('r fs_state_scheme, nat option) K" where
  "ialloc_try dev sp type inum =
     kbind (bread dev (IBLOCK inum sp)) (\<lambda>bp.
     kbind (get_buf bp b_data) (\<lambda>d.
     if di_type (get_dinode d inum) = 0 then
       kbind (upd_buf bp (\<lambda>f. f\<lparr>b_data := put_dinode inum
           \<lparr>di_type = type, di_major = 0, di_minor = 0, di_nlink = 0, di_size = 0,
            di_addrs = replicate (NDIRECT + 1) 0\<rparr> d\<rparr>)) (\<lambda>_.
       kbind (log_write bp) (\<lambda>_.
       kbind (brelse bp) (\<lambda>_.
       kbind (iget dev inum) (\<lambda>ip.
       kreturn (Some ip)))))
     else kbind (brelse bp) (\<lambda>_. kreturn None)))"

definition ialloc :: "nat \<Rightarrow> int \<Rightarrow> ('r fs_state_scheme, nat) K" where
  "ialloc dev type =
     kbind (kget sb) (\<lambda>sp.
     kbind (kfirst [1 ..< sb_ninodes sp] (ialloc_try dev sp type)) (\<lambda>r.
     case r of Some ip \<Rightarrow> kreturn ip | None \<Rightarrow> kpanic ''ialloc: no inodes''))"

text \<open>The part of an in-memory inode that lives on disk.\<close>

definition dinode_of :: "inode \<Rightarrow> dinode" where
  "dinode_of p = \<lparr>di_type = i_type p, di_major = i_major p, di_minor = i_minor p, di_nlink = i_nlink p,
     di_size = i_size p, di_addrs = i_addrs p\<rparr>"

definition iupdate :: "nat \<Rightarrow> ('r fs_state_scheme, unit) K" where
  "iupdate ip =
     kbind (kget (\<lambda>s. (icache s ! ip, sb s))) (\<lambda>(p, sp).
     kbind (bread (i_dev p) (IBLOCK (i_inum p) sp)) (\<lambda>bp.
     kbind (get_buf bp b_data) (\<lambda>d.
     kbind (upd_buf bp (\<lambda>f. f\<lparr>b_data := put_dinode (i_inum p) (dinode_of p) d\<rparr>)) (\<lambda>_.
     kbind (log_write bp) (\<lambda>_.
     brelse bp)))))"

definition ilock :: "nat \<Rightarrow> ('r fs_state_scheme, unit) K" where
  "ilock ip =
     kbind (get_ino ip i_ref) (\<lambda>r.
     if r < 1 then kpanic ''ilock''
     else
       kbind (acquiresleep_ino ip) (\<lambda>_.
       kbind (get_ino ip i_valid) (\<lambda>v.
       if v then kreturn ()
       else
         kbind (kget (\<lambda>s. (icache s ! ip, sb s))) (\<lambda>(p, sp).
         kbind (bread (i_dev p) (IBLOCK (i_inum p) sp)) (\<lambda>bp.
         kbind (get_buf bp b_data) (\<lambda>d.
         (let di = get_dinode d (i_inum p) in
          kbind (upd_ino ip (\<lambda>p. p\<lparr>i_type := di_type di, i_major := di_major di, i_minor := di_minor di,
                                    i_nlink := di_nlink di, i_size := di_size di, i_addrs := di_addrs di\<rparr>)) (\<lambda>_.
          kbind (brelse bp) (\<lambda>_.
          kbind (upd_ino ip (\<lambda>p. p\<lparr>i_valid := True\<rparr>)) (\<lambda>_.
          if di_type di = 0 then kpanic ''ilock: no type'' else kreturn ()))))))))))"

definition iunlock :: "nat \<Rightarrow> ('r fs_state_scheme, unit) K" where
  "iunlock ip =
     kbind (holdingsleep_ino ip) (\<lambda>h.
     kbind (get_ino ip i_ref) (\<lambda>r.
     if \<not> h \<or> r < 1 then kpanic ''iunlock''
     else releasesleep_ino ip))"

section \<open>Content\<close>

definition bmap :: "nat \<Rightarrow> nat \<Rightarrow> ('r fs_state_scheme, nat) K" where
  "bmap ip bn =
     kbind (get_ino ip (\<lambda>p. (i_dev p, i_addrs p))) (\<lambda>(dev, addrs).
     if bn < NDIRECT then
       if addrs ! bn = 0 then
         kbind (balloc dev) (\<lambda>addr.
         kbind (upd_ino ip (\<lambda>p. p\<lparr>i_addrs := (i_addrs p)[bn := addr]\<rparr>)) (\<lambda>_.
         kreturn addr))
       else kreturn (addrs ! bn)
     else if bn - NDIRECT < NINDIRECT then
       kbind (if addrs ! NDIRECT = 0 then
                kbind (balloc dev) (\<lambda>addr.
                kbind (upd_ino ip (\<lambda>p. p\<lparr>i_addrs := (i_addrs p)[NDIRECT := addr]\<rparr>)) (\<lambda>_.
                kreturn addr))
              else kreturn (addrs ! NDIRECT)) (\<lambda>ind.
       kbind (bread dev ind) (\<lambda>bp.
       kbind (get_buf bp b_data) (\<lambda>a.
       kbind (if get32 a (bn - NDIRECT) = 0 then
                kbind (balloc dev) (\<lambda>addr.
                kbind (upd_buf bp (\<lambda>f. f\<lparr>b_data := put32 (bn - NDIRECT) addr (b_data f)\<rparr>)) (\<lambda>_.
                kbind (log_write bp) (\<lambda>_.
                kreturn addr)))
              else kreturn (get32 a (bn - NDIRECT))) (\<lambda>addr.
       kbind (brelse bp) (\<lambda>_.
       kreturn addr)))))
     else kpanic ''bmap: out of range'')"

definition itrunc :: "nat \<Rightarrow> ('r fs_state_scheme, unit) K" where
  "itrunc ip =
     kbind (kfor [0 ..< NDIRECT] (\<lambda>i.
       kbind (get_ino ip (\<lambda>p. (i_dev p, i_addrs p ! i))) (\<lambda>(dev, a).
       if a \<noteq> 0 then
         kbind (bfree dev a) (\<lambda>_.
         upd_ino ip (\<lambda>p. p\<lparr>i_addrs := (i_addrs p)[i := 0]\<rparr>))
       else kreturn ()))) (\<lambda>_.
     kbind (get_ino ip (\<lambda>p. (i_dev p, i_addrs p ! NDIRECT))) (\<lambda>(dev, ind).
     kbind (if ind \<noteq> 0 then
              kbind (bread dev ind) (\<lambda>bp.
              kbind (get_buf bp b_data) (\<lambda>a.
              kbind (kfor [0 ..< NINDIRECT] (\<lambda>j.
                if get32 a j \<noteq> 0 then bfree dev (get32 a j) else kreturn ())) (\<lambda>_.
              kbind (brelse bp) (\<lambda>_.
              kbind (bfree dev ind) (\<lambda>_.
              upd_ino ip (\<lambda>p. p\<lparr>i_addrs := (i_addrs p)[NDIRECT := 0]\<rparr>))))))
            else kreturn ()) (\<lambda>_.
     kbind (upd_ino ip (\<lambda>p. p\<lparr>i_size := 0\<rparr>)) (\<lambda>_.
     iupdate ip))))"

definition iput :: "nat \<Rightarrow> ('r fs_state_scheme, unit) K" where
  "iput ip =
     kbind (acquiresleep_ino ip) (\<lambda>_.
     kbind (get_ino ip (\<lambda>p. i_valid p \<and> i_nlink p = 0)) (\<lambda>unlinked.
     kbind (if unlinked then
              kbind (acquire LIcache) (\<lambda>_.
              kbind (get_ino ip i_ref) (\<lambda>r.
              kbind (release LIcache) (\<lambda>_.
              if r = 1 then
                kbind (itrunc ip) (\<lambda>_.
                kbind (upd_ino ip (\<lambda>p. p\<lparr>i_type := 0\<rparr>)) (\<lambda>_.
                kbind (iupdate ip) (\<lambda>_.
                upd_ino ip (\<lambda>p. p\<lparr>i_valid := False\<rparr>))))
              else kreturn ())))
            else kreturn ()) (\<lambda>_.
     kbind (releasesleep_ino ip) (\<lambda>_.
     kbind (acquire LIcache) (\<lambda>_.
     kbind (upd_ino ip (\<lambda>p. p\<lparr>i_ref := i_ref p - 1\<rparr>)) (\<lambda>_.
     release LIcache))))))"

definition iunlockput :: "nat \<Rightarrow> ('r fs_state_scheme, unit) K" where
  "iunlockput ip = kbind (iunlock ip) (\<lambda>_. iput ip)"

record stat =
  st_type :: int
  st_dev :: nat
  st_ino :: nat
  st_nlink :: int
  st_size :: nat

definition stati :: "nat \<Rightarrow> ('r fs_state_scheme, stat) K" where
  "stati ip = get_ino ip (\<lambda>p. \<lparr>st_type = i_type p, st_dev = i_dev p, st_ino = i_inum p,
     st_nlink = i_nlink p, st_size = i_size p\<rparr>)"

text \<open>
  The device switch table \<^verbatim>\<open>devsw\<close>, an argument of the functions that use it: the read and write
  functions of each major device number, absent where the table has a null pointer.
\<close>

type_synonym 's devread = "nat \<Rightarrow> int \<Rightarrow> ('s, int \<times> byte list) K"
type_synonym 's devwrite = "nat \<Rightarrow> byte list \<Rightarrow> ('s, int) K"
type_synonym 's devsw = "int \<Rightarrow> 's devread option \<times> 's devwrite option"

text \<open>The loop of \<^verbatim>\<open>readi\<close>; \<open>n\<close> is what is left, \<^verbatim>\<open>n - tot\<close>.\<close>

function readi_loop :: "nat \<Rightarrow> nat \<Rightarrow> nat \<Rightarrow> ('r fs_state_scheme, byte list) K" where
  "readi_loop ip off n =
     (if n = 0 then kreturn []
      else
        kbind (bmap ip (off div BSIZE)) (\<lambda>addr.
        kbind (get_ino ip i_dev) (\<lambda>dev.
        kbind (bread dev addr) (\<lambda>bp.
        (let m = min n (BSIZE - off mod BSIZE) in
         kbind (get_buf bp (\<lambda>f. take m (drop (off mod BSIZE) (b_data f)))) (\<lambda>chunk.
         kbind (brelse bp) (\<lambda>_.
         kbind (readi_loop ip (off + m) (n - m)) (\<lambda>rest.
         kreturn (chunk @ rest)))))))))"
  by pat_completeness auto

termination
  by (relation "measure (\<lambda>(ip, off, n). n)") (auto simp: BSIZE_def)

definition readi :: "'r fs_state_scheme devsw \<Rightarrow> nat \<Rightarrow> nat \<Rightarrow> nat \<Rightarrow> ('r fs_state_scheme, int \<times> byte list) K" where
  "readi devsw ip off n =
     kbind (get_ino ip (\<lambda>p. p)) (\<lambda>p.
     if i_type p = T_DEV then
       if i_major p < 0 \<or> NDEV \<le> i_major p then kreturn (- 1, [])
       else case fst (devsw (i_major p)) of
              None \<Rightarrow> kreturn (- 1, [])
            | Some rd \<Rightarrow> rd ip (s32 (int n))
     else if i_size p < off \<or> (off + n) mod 2 ^ 32 < off then kreturn (- 1, [])
     else
       (let n' = (if i_size p < off + n then i_size p - off else n) in
        kbind (readi_loop ip off n') (\<lambda>bs.
        kreturn (s32 (int n'), bs))))"

text \<open>The loop of \<^verbatim>\<open>writei\<close>; \<open>src\<close> is what is left of the source.\<close>

function writei_loop :: "nat \<Rightarrow> nat \<Rightarrow> byte list \<Rightarrow> ('r fs_state_scheme, unit) K" where
  "writei_loop ip off src =
     (if src = [] then kreturn ()
      else
        kbind (bmap ip (off div BSIZE)) (\<lambda>addr.
        kbind (get_ino ip i_dev) (\<lambda>dev.
        kbind (bread dev addr) (\<lambda>bp.
        (let m = min (length src) (BSIZE - off mod BSIZE) in
         kbind (upd_buf bp (\<lambda>f. f\<lparr>b_data := splice (off mod BSIZE) (take m src) (b_data f)\<rparr>)) (\<lambda>_.
         kbind (log_write bp) (\<lambda>_.
         kbind (brelse bp) (\<lambda>_.
         writei_loop ip (off + m) (drop m src)))))))))"
  by pat_completeness auto

termination
  by (relation "measure (\<lambda>(ip, off, src). length src)") (auto simp: BSIZE_def)

definition writei :: "'r fs_state_scheme devsw \<Rightarrow> nat \<Rightarrow> byte list \<Rightarrow> nat \<Rightarrow> ('r fs_state_scheme, int) K" where
  "writei devsw ip src off =
     (let n = length src in
      kbind (get_ino ip (\<lambda>p. p)) (\<lambda>p.
      if i_type p = T_DEV then
        if i_major p < 0 \<or> NDEV \<le> i_major p then kreturn (- 1)
        else case snd (devsw (i_major p)) of
               None \<Rightarrow> kreturn (- 1)
             | Some wr \<Rightarrow> wr ip src
      else if i_size p < off \<or> (off + n) mod 2 ^ 32 < off then kreturn (- 1)
      else if MAXFILE * BSIZE < off + n then kreturn (- 1)
      else
        kbind (writei_loop ip off src) (\<lambda>_.
        kbind (get_ino ip i_size) (\<lambda>sz.
        kbind (if 0 < n \<and> sz < off + n then
                 kbind (upd_ino ip (\<lambda>p. p\<lparr>i_size := off + n\<rparr>)) (\<lambda>_.
                 iupdate ip)
               else kreturn ()) (\<lambda>_.
        kreturn (s32 (int n)))))))"

declare readi_loop.simps [simp del] writei_loop.simps [simp del]

end
