(* ===== verification/CString.thy ===== *)
theory CString
  imports Prelude
begin

unbundle bit_operations_syntax

text \<open>
  The kernel's string library (\<^verbatim>\<open>string.c\<close>) and the user one (\<^verbatim>\<open>ulib.c\<close>). Functions that write memory
  work on a region of memory, a byte list, and offsets into it, so that overlapping arguments are
  what they are in C. A string argument that is only read is the list of its bytes; reading past
  the end of the list finds the terminating 0.
\<close>

definition hd0 :: "byte list \<Rightarrow> byte" where
  "hd0 s = (case s of [] \<Rightarrow> 0 | c # _ \<Rightarrow> c)"

text \<open>The string a pointer to these bytes denotes.\<close>

definition cstr :: "byte list \<Rightarrow> byte list" where
  "cstr s = takeWhile (\<lambda>c. c \<noteq> 0) s"

text \<open>The bytes of a string literal.\<close>

definition ascii :: "string \<Rightarrow> byte list" where
  "ascii s = map (\<lambda>c. of_nat (of_char c)) s"

section \<open>Memory\<close>

text \<open>\<^verbatim>\<open>rep stosb\<close> and \<^verbatim>\<open>rep stosl\<close>\<close>

fun stosb :: "byte list \<Rightarrow> nat \<Rightarrow> byte \<Rightarrow> nat \<Rightarrow> byte list" where
  "stosb m dst c 0 = m"
| "stosb m dst c (Suc n) = stosb (m[dst := c]) (Suc dst) c n"

fun stosl :: "byte list \<Rightarrow> nat \<Rightarrow> u32 \<Rightarrow> nat \<Rightarrow> byte list" where
  "stosl m dst w 0 = m"
| "stosl m dst w (Suc n) = stosl (splice dst (le_enc 4 (unat w)) m) (dst + 4) w n"

definition memset :: "byte list \<Rightarrow> nat \<Rightarrow> u32 \<Rightarrow> nat \<Rightarrow> byte list" where
  "memset m dst c n =
     (if dst mod 4 = 0 \<and> n mod 4 = 0 then
        (let c' = c AND 0xFF in
         stosl m dst (push_bit 24 c' OR push_bit 16 c' OR push_bit 8 c' OR c') (n div 4))
      else stosb m dst (ucast c) n)"

fun memcmp :: "byte list \<Rightarrow> byte list \<Rightarrow> nat \<Rightarrow> int" where
  "memcmp s1 s2 0 = 0"
| "memcmp s1 s2 (Suc n) =
     (if hd0 s1 \<noteq> hd0 s2 then int (unat (hd0 s1)) - int (unat (hd0 s2)) else memcmp (tl s1) (tl s2) n)"

text \<open>\<^verbatim>\<open>while(n-- > 0) *d++ = *s++;\<close> and, with both pointers past the end, \<^verbatim>\<open>*--d = *--s;\<close>\<close>

fun copy_fwd :: "byte list \<Rightarrow> nat \<Rightarrow> nat \<Rightarrow> nat \<Rightarrow> byte list" where
  "copy_fwd m d s 0 = m"
| "copy_fwd m d s (Suc n) = copy_fwd (m[d := m ! s]) (Suc d) (Suc s) n"

fun copy_bwd :: "byte list \<Rightarrow> nat \<Rightarrow> nat \<Rightarrow> nat \<Rightarrow> byte list" where
  "copy_bwd m d s 0 = m"
| "copy_bwd m d s (Suc n) = copy_bwd (m[d - 1 := m ! (s - 1)]) (d - 1) (s - 1) n"

definition memmove :: "byte list \<Rightarrow> nat \<Rightarrow> nat \<Rightarrow> nat \<Rightarrow> byte list" where
  "memmove m dst src n =
     (if src < dst \<and> dst < src + n then copy_bwd m (dst + n) (src + n) n else copy_fwd m dst src n)"

definition memcpy :: "byte list \<Rightarrow> nat \<Rightarrow> nat \<Rightarrow> nat \<Rightarrow> byte list" where
  "memcpy m dst src n = memmove m dst src n"

text \<open>The user library's \<^verbatim>\<open>memmove\<close> always copies forwards.\<close>

definition u_memmove :: "byte list \<Rightarrow> nat \<Rightarrow> nat \<Rightarrow> nat \<Rightarrow> byte list" where
  "u_memmove m dst src n = copy_fwd m dst src n"

definition u_memset :: "byte list \<Rightarrow> nat \<Rightarrow> u32 \<Rightarrow> nat \<Rightarrow> byte list" where
  "u_memset m dst c n = stosb m dst (ucast c) n"

section \<open>Strings\<close>

fun strncmp :: "byte list \<Rightarrow> byte list \<Rightarrow> nat \<Rightarrow> int" where
  "strncmp p q 0 = 0"
| "strncmp p q (Suc n) =
     (if hd0 p \<noteq> 0 \<and> hd0 p = hd0 q then strncmp (tl p) (tl q) n
      else int (unat (hd0 p)) - int (unat (hd0 q)))"

text \<open>The \<open>n\<close> bytes \<^verbatim>\<open>strncpy\<close> stores.\<close>

fun strncpy :: "byte list \<Rightarrow> nat \<Rightarrow> byte list" where
  "strncpy t 0 = []"
| "strncpy t (Suc n) = hd0 t # (if hd0 t \<noteq> 0 then strncpy (tl t) n else replicate n 0)"

text \<open>The bytes \<^verbatim>\<open>safestrcpy(s, t, n)\<close> stores at \<^verbatim>\<open>s\<close>, for \<open>n\<close> the (positive) size of the buffer.\<close>

fun safestrcpy :: "byte list \<Rightarrow> nat \<Rightarrow> byte list" where
  "safestrcpy t 0 = []"
| "safestrcpy t (Suc 0) = [0]"
| "safestrcpy t (Suc (Suc n)) = hd0 t # (if hd0 t \<noteq> 0 then safestrcpy (tl t) (Suc n) else [0])"

fun strlen :: "byte list \<Rightarrow> nat" where
  "strlen [] = 0"
| "strlen (c # s) = (if c \<noteq> 0 then 1 + strlen s else 0)"

fun strcpy :: "byte list \<Rightarrow> byte list" where
  "strcpy [] = [0]"
| "strcpy (c # t) = c # (if c \<noteq> 0 then strcpy t else [])"

fun strcmp :: "byte list \<Rightarrow> byte list \<Rightarrow> int" where
  "strcmp [] q = - int (unat (hd0 q))"
| "strcmp (c # p) q =
     (if c \<noteq> 0 \<and> c = hd0 q then strcmp p (tl q) else int (unat c) - int (unat (hd0 q)))"

text \<open>The offset at which \<^verbatim>\<open>strchr\<close> finds the character.\<close>

fun strchr :: "byte list \<Rightarrow> byte \<Rightarrow> nat option" where
  "strchr [] c = None"
| "strchr (x # s) c = (if x = 0 then None else if x = c then Some 0 else map_option Suc (strchr s c))"

text \<open>\<^verbatim>\<open>int\<close> arithmetic wraps at 32 bits.\<close>

definition wrap32 :: "int \<Rightarrow> int" where
  "wrap32 x = (x + 2 ^ 31) mod 2 ^ 32 - 2 ^ 31"

fun atoi_from :: "int \<Rightarrow> byte list \<Rightarrow> int" where
  "atoi_from n [] = n"
| "atoi_from n (c # s) =
     (if 48 \<le> unat c \<and> unat c \<le> 57 then atoi_from (wrap32 (n * 10 + int (unat c) - 48)) s else n)"

definition atoi :: "byte list \<Rightarrow> int" where
  "atoi s = atoi_from 0 s"

text \<open>
  \<^verbatim>\<open>gets\<close>: \<open>inp\<close> is what successive one-byte reads of descriptor 0 return, \<open>n\<close> is \<^verbatim>\<open>max - 1 - i\<close>. The
  result is what is stored in the buffer and what is left unread.
\<close>

fun gets_loop :: "nat \<Rightarrow> byte list \<Rightarrow> byte list \<times> byte list" where
  "gets_loop 0 inp = ([0], inp)"
| "gets_loop (Suc n) [] = ([0], [])"
| "gets_loop (Suc n) (c # inp) =
     (if c = 10 \<or> c = 13 then ([c, 0], inp)
      else (let (b, r) = gets_loop n inp in (c # b, r)))"

definition gets :: "nat \<Rightarrow> byte list \<Rightarrow> byte list \<times> byte list" where
  "gets mx inp = gets_loop (mx - 1) inp"

section \<open>Numerals\<close>

text \<open>
  The loop \<^verbatim>\<open>do{ buf[i++] = digits[x % base]; }while((x /= base) != 0);\<close> of both \<^verbatim>\<open>printint\<close> functions, least
  significant digit first; \<open>dig\<close> is the table \<^verbatim>\<open>digits\<close>.
\<close>

function digits_rev :: "(u32 \<Rightarrow> byte) \<Rightarrow> u32 \<Rightarrow> u32 \<Rightarrow> byte list" where
  "digits_rev dig base x =
     (if base \<le> 1 then []
      else dig (x mod base) # (if x div base \<noteq> 0 then digits_rev dig base (x div base) else []))"
  by pat_completeness auto

termination
proof (relation "measure (\<lambda>(dig, base, x). unat x)")
  fix dig :: "u32 \<Rightarrow> byte" and base x :: u32
  assume b: "\<not> base \<le> 1" and nz: "x div base \<noteq> 0"
  have b1: "1 < unat base" using b by (simp add: not_le word_less_nat_alt)
  have "0 < unat x" using nz by (auto simp: unat_gt_0)
  then have "unat x div unat base < unat x" using b1 by simp
  then show "((dig, base, x div base), dig, base, x) \<in> measure (\<lambda>(dig, base, x). unat x)"
    by (simp add: unat_div)
qed simp

declare digits_rev.simps [simp del]

section \<open>Lemmas\<close>

lemma length_copy_fwd [simp]: "length (copy_fwd m d s n) = length m"
  by (induction m d s n rule: copy_fwd.induct) simp_all

lemma length_copy_bwd [simp]: "length (copy_bwd m d s n) = length m"
  by (induction m d s n rule: copy_bwd.induct) simp_all

lemma nth_copy_fwd:
  assumes "d \<le> s \<or> s + n \<le> d" and "d + n \<le> length m" and "s + n \<le> length m" and "i < length m"
  shows "copy_fwd m d s n ! i = (if d \<le> i \<and> i < d + n then m ! (s + i - d) else m ! i)"
  using assms
proof (induction n arbitrary: m d s)
  case (Suc n)
  have "copy_fwd m d s (Suc n) ! i =
      (if Suc d \<le> i \<and> i < Suc d + n then m[d := m ! s] ! (Suc s + i - Suc d) else m[d := m ! s] ! i)"
    using Suc.prems Suc.IH [of "Suc d" "Suc s" "m[d := m ! s]"] by auto
  moreover have "s + i - d \<noteq> d" if "Suc d \<le> i" "i < Suc d + n" using that Suc.prems(1) by auto
  ultimately show ?case using Suc.prems by (auto simp: nth_list_update)
qed auto

lemma nth_copy_bwd:
  assumes "s \<le> d" and "d + n \<le> length m" and "i < length m"
  shows "copy_bwd m (d + n) (s + n) n ! i = (if d \<le> i \<and> i < d + n then m ! (s + i - d) else m ! i)"
  using assms
proof (induction n arbitrary: m)
  case (Suc n)
  have "copy_bwd m (d + Suc n) (s + Suc n) (Suc n) ! i =
      (if d \<le> i \<and> i < d + n then m[d + n := m ! (s + n)] ! (s + i - d) else m[d + n := m ! (s + n)] ! i)"
    using Suc.prems Suc.IH [of "m[d + n := m ! (s + n)]"] by simp
  moreover have "s + i - d \<noteq> d + n" if "d \<le> i" "i < d + n" using that Suc.prems(1) by auto
  ultimately show ?case using Suc.prems by (auto simp: nth_list_update)
qed auto

text \<open>C7. \<^verbatim>\<open>memmove\<close> stores at the destination the bytes the source had before the call and leaves all
  other bytes alone, whether or not the two ranges overlap.\<close>

theorem memmove_copies:
  assumes "dst + n \<le> length m" and "src + n \<le> length m"
  shows "memmove m dst src n = splice dst (take n (drop src m)) m"
proof (rule nth_equalityI)
  have len: "length (take n (drop src m)) = n" using assms(2) by simp
  then show "length (memmove m dst src n) = length (splice dst (take n (drop src m)) m)"
    using assms(1) by (simp add: memmove_def)
  fix i assume "i < length (memmove m dst src n)"
  then have i: "i < length m" by (simp add: memmove_def split: if_splits)
  have "memmove m dst src n ! i = (if dst \<le> i \<and> i < dst + n then m ! (src + i - dst) else m ! i)"
    using i assms nth_copy_fwd [of dst src n m i] nth_copy_bwd [of src dst n m i]
    by (auto simp: memmove_def)
  then show "memmove m dst src n ! i = splice dst (take n (drop src m)) m ! i"
    using i assms len by (auto simp: nth_splice)
qed

lemma memmove_copies_witness:
  "memmove [1, 2, 3, 4, 5] 1 0 4 = splice 1 (take 4 (drop 0 [1, 2, 3, 4, 5])) [1, 2, 3, 4, 5]"
  by (rule memmove_copies) simp_all

lemma u_memmove_overlap: "u_memmove [1, 2, 3, 4] 1 0 3 = [1, 1, 1, 1]"
  by (simp add: u_memmove_def numeral_eq_Suc One_nat_def)

lemma stosb_eq: "dst + n \<le> length m \<Longrightarrow> stosb m dst c n = splice dst (replicate n c) m"
proof (induction n arbitrary: m dst)
  case 0
  then show ?case by (simp add: splice_def)
next
  case (Suc n)
  then have "stosb m dst c (Suc n) = splice (Suc dst) (replicate n c) (m[dst := c])" by simp
  also have "\<dots> = splice dst (replicate (Suc n) c) m"
    using Suc.prems by (intro nth_equalityI) (auto simp: nth_splice nth_list_update nth_Cons')
  finally show ?case .
qed

lemma splice_append:
  "off + length xs + length ys \<le> length m \<Longrightarrow>
   splice (off + length xs) ys (splice off xs m) = splice off (xs @ ys) m"
  by (intro nth_equalityI) (auto simp: nth_splice nth_append)

lemma stosl_eq:
  "dst + 4 * n \<le> length m \<Longrightarrow> le_enc 4 (unat w) = replicate 4 c \<Longrightarrow>
   stosl m dst w n = splice dst (replicate (4 * n) c) m"
proof (induction n arbitrary: m dst)
  case 0
  then show ?case by (simp add: splice_def)
next
  case (Suc n)
  then have "stosl m dst w (Suc n) = splice (dst + 4) (replicate (4 * n) c) (splice dst (replicate 4 c) m)"
    by simp
  also have "\<dots> = splice dst (replicate 4 c @ replicate (4 * n) c) m"
    using Suc.prems splice_append [of dst "replicate 4 c" "replicate (4 * n) c" m] by simp
  finally show ?case by (simp add: replicate_add [symmetric])
qed

end
