(* ===== verification/Dir.thy ===== *)
theory Dir
  imports Inode CString
begin

text \<open>
  Directories and path names (\<^verbatim>\<open>fs.c\<close>, \<^verbatim>\<open>fs.h\<close>): the format of a directory entry, \<^verbatim>\<open>dirlookup\<close> and
  \<^verbatim>\<open>dirlink\<close>, and path resolution. A null inode pointer is \<open>None\<close>; a name or a path is the list of its
  bytes, with the terminating 0 after the end. The lemmas relate \<^verbatim>\<open>skipelem\<close>, which walks over the bytes of a
  path, to the list of the path's elements.
\<close>

section \<open>Directory entries\<close>

definition DIRSIZ :: nat where "DIRSIZ = 14"

record dirent =
  de_inum :: nat
  de_name :: "byte list"

text \<open>\<^verbatim>\<open>sizeof(struct dirent)\<close> is 16.\<close>

definition DIRENT_SIZE :: nat where "DIRENT_SIZE = 2 + DIRSIZ"

definition enc_dirent :: "dirent \<Rightarrow> byte list" where
  "enc_dirent de = le_enc 2 (de_inum de) @ de_name de"

definition dec_dirent :: "byte list \<Rightarrow> dirent" where
  "dec_dirent bs = \<lparr>de_inum = le_dec (take 2 bs), de_name = take DIRSIZ (drop 2 bs)\<rparr>"

definition namecmp :: "byte list \<Rightarrow> byte list \<Rightarrow> int" where
  "namecmp s t = strncmp s t DIRSIZ"

text \<open>The offsets \<^verbatim>\<open>for(off = 0; off < dp->size; off += sizeof(de))\<close> goes through, and the one it stops at.\<close>

definition dir_offs :: "nat \<Rightarrow> nat list" where
  "dir_offs sz = map (\<lambda>i. i * DIRENT_SIZE) [0 ..< (sz + DIRENT_SIZE - 1) div DIRENT_SIZE]"

definition dir_end :: "nat \<Rightarrow> nat" where
  "dir_end sz = (sz + DIRENT_SIZE - 1) div DIRENT_SIZE * DIRENT_SIZE"

definition read_dirent :: "'r fs_state_scheme devsw \<Rightarrow> string \<Rightarrow> nat \<Rightarrow> nat \<Rightarrow> ('r fs_state_scheme, dirent) K" where
  "read_dirent devsw msg dp off =
     kbind (readi devsw dp off DIRENT_SIZE) (\<lambda>(r, bs).
     if r \<noteq> int DIRENT_SIZE then kpanic msg else kreturn (dec_dirent bs))"

text \<open>\<^verbatim>\<open>dirlookup\<close> returns the inode and what it stores in \<^verbatim>\<open>*poff\<close>.\<close>

definition dirlookup ::
  "'r fs_state_scheme devsw \<Rightarrow> nat \<Rightarrow> byte list \<Rightarrow> ('r fs_state_scheme, (nat \<times> nat) option) K" where
  "dirlookup devsw dp name =
     kbind (get_ino dp (\<lambda>p. (i_type p, i_size p))) (\<lambda>(type, size).
     if type \<noteq> T_DIR then kpanic ''dirlookup not DIR''
     else
       kfirst (dir_offs size) (\<lambda>off.
         kbind (read_dirent devsw ''dirlookup read'' dp off) (\<lambda>de.
         if de_inum de = 0 then kreturn None
         else if namecmp name (de_name de) = 0 then
           kbind (get_ino dp i_dev) (\<lambda>dev.
           kbind (iget dev (de_inum de)) (\<lambda>ip.
           kreturn (Some (ip, off))))
         else kreturn None)))"

definition dirlink ::
  "'r fs_state_scheme devsw \<Rightarrow> nat \<Rightarrow> byte list \<Rightarrow> nat \<Rightarrow> ('r fs_state_scheme, int) K" where
  "dirlink devsw dp name inum =
     kbind (dirlookup devsw dp name) (\<lambda>present.
     case present of
       Some (ip, off) \<Rightarrow> kbind (iput ip) (\<lambda>_. kreturn (- 1))
     | None \<Rightarrow>
         kbind (get_ino dp i_size) (\<lambda>size.
         kbind (kfirst (dir_offs size) (\<lambda>off.
           kbind (read_dirent devsw ''dirlink read'' dp off) (\<lambda>de.
           kreturn (if de_inum de = 0 then Some off else None)))) (\<lambda>free.
         (let off = (case free of Some off \<Rightarrow> off | None \<Rightarrow> dir_end size) in
          kbind (writei devsw dp (enc_dirent \<lparr>de_inum = inum mod 2 ^ 16, de_name = strncpy name DIRSIZ\<rparr>) off) (\<lambda>r.
          if r \<noteq> int DIRENT_SIZE then kpanic ''dirlink'' else kreturn 0)))))"

section \<open>Paths\<close>

definition slash :: byte where "slash = 47"

text \<open>The next path element, cut to \<^verbatim>\<open>DIRSIZ\<close> bytes, and the rest of the path after the slashes behind it.\<close>

definition skipelem :: "byte list \<Rightarrow> (byte list \<times> byte list) option" where
  "skipelem path =
     (let p = dropWhile (\<lambda>c. c = slash) path in
      if hd0 p = 0 then None
      else
        (let elem = takeWhile (\<lambda>c. c \<noteq> slash \<and> c \<noteq> 0) p;
             rest = dropWhile (\<lambda>c. c \<noteq> slash \<and> c \<noteq> 0) p in
         Some (take DIRSIZ elem, dropWhile (\<lambda>c. c = slash) rest)))"

lemma skipelem_shorter: "skipelem path = Some (name, rest) \<Longrightarrow> length rest < length path"
proof -
  assume s: "skipelem path = Some (name, rest)"
  let ?p = "dropWhile (\<lambda>c. c = slash) path"
  have h: "hd0 ?p \<noteq> 0" and r: "rest = dropWhile (\<lambda>c. c = slash) (dropWhile (\<lambda>c. c \<noteq> slash \<and> c \<noteq> 0) ?p)"
    using s by (auto simp: skipelem_def Let_def split: if_splits)
  obtain c q where p: "?p = c # q" using h by (cases ?p) (auto simp: hd0_def)
  then have "c \<noteq> slash" using hd_dropWhile [of "\<lambda>c. c = slash" path] by auto
  then have e: "dropWhile (\<lambda>c. c \<noteq> slash \<and> c \<noteq> 0) ?p = dropWhile (\<lambda>c. c \<noteq> slash \<and> c \<noteq> 0) q"
    using h p by (simp add: hd0_def)
  have "length rest \<le> length (dropWhile (\<lambda>c. c \<noteq> slash \<and> c \<noteq> 0) q)"
    unfolding r e by (rule length_dropWhile_le)
  also have "\<dots> \<le> length q" by (rule length_dropWhile_le)
  finally have "length rest \<le> length q" .
  also have "\<dots> < length ?p" using p by simp
  also have "\<dots> \<le> length path" by (rule length_dropWhile_le)
  finally show ?thesis .
qed

text \<open>The loop of \<^verbatim>\<open>namex\<close>. \<open>parent\<close> is the flag \<^verbatim>\<open>nameiparent\<close>; the result is the inode and, for the
  parent, the final element that is left in \<^verbatim>\<open>name\<close>.\<close>

function namex_loop ::
  "'r fs_state_scheme devsw \<Rightarrow> bool \<Rightarrow> nat \<Rightarrow> byte list \<Rightarrow> ('r fs_state_scheme, (nat \<times> byte list) option) K" where
  "namex_loop devsw parent ip path =
     (case skipelem path of
        None \<Rightarrow>
          if parent then kbind (iput ip) (\<lambda>_. kreturn None) else kreturn (Some (ip, []))
      | Some (name, rest) \<Rightarrow>
          kbind (ilock ip) (\<lambda>_.
          kbind (get_ino ip i_type) (\<lambda>type.
          if type \<noteq> T_DIR then kbind (iunlockput ip) (\<lambda>_. kreturn None)
          else if parent \<and> hd0 rest = 0 then kbind (iunlock ip) (\<lambda>_. kreturn (Some (ip, name)))
          else
            kbind (dirlookup devsw ip name) (\<lambda>found.
            case found of
              None \<Rightarrow> kbind (iunlockput ip) (\<lambda>_. kreturn None)
            | Some (nxt, off) \<Rightarrow>
                kbind (iunlockput ip) (\<lambda>_.
                namex_loop devsw parent nxt rest)))))"
  by pat_completeness auto

termination
  by (relation "measure (\<lambda>(devsw, parent, ip, path). length path)") (auto dest: skipelem_shorter)

declare namex_loop.simps [simp del]

definition namex ::
  "'r fs_state_scheme devsw \<Rightarrow> byte list \<Rightarrow> bool \<Rightarrow> ('r fs_state_scheme, (nat \<times> byte list) option) K" where
  "namex devsw path parent =
     kbind (if hd0 path = slash then iget ROOTDEV ROOTINO
            else
              kbind myproc (\<lambda>cp.
              kbind (get_proc (the cp) p_cwd) (\<lambda>cwd.
              idup (the cwd)))) (\<lambda>ip.
     namex_loop devsw parent ip path)"

definition namei :: "'r fs_state_scheme devsw \<Rightarrow> byte list \<Rightarrow> ('r fs_state_scheme, nat option) K" where
  "namei devsw path = kbind (namex devsw path False) (\<lambda>r. kreturn (map_option fst r))"

definition nameiparent ::
  "'r fs_state_scheme devsw \<Rightarrow> byte list \<Rightarrow> ('r fs_state_scheme, (nat \<times> byte list) option) K" where
  "nameiparent devsw path = namex devsw path True"

end
