(* ===== verification/Ring.thy ===== *)
theory Ring
  imports Prelude
begin

text \<open>
  Ring buffers with free-running 32-bit indices, as the pipes and the console line buffer have them. \<open>ring d r w\<close> is the
  list of the elements between the read index and the write index; the laws hold across the wrap-around of the
  indices because the size of the buffer divides \<open>2 ^ 32\<close>. The locale \<open>bounded_queue\<close> is what the users of such a
  buffer promise their clients, first in first out under every interleaving of insertions and removals.
\<close>

section \<open>The content of a ring\<close>

definition ring :: "'a list \<Rightarrow> u32 \<Rightarrow> u32 \<Rightarrow> 'a list" where
  "ring d r w = map (\<lambda>k. d ! (unat (r + of_nat k) mod length d)) [0 ..< unat (w - r)]"

definition ring_size :: "'a list \<Rightarrow> bool" where
  "ring_size d \<longleftrightarrow> length d dvd 2 ^ 32 \<and> d \<noteq> []"

lemma length_ring [simp]: "length (ring d r w) = unat (w - r)"
  by (simp add: ring_def)

lemma ring_nth: "k < unat (w - r) \<Longrightarrow> ring d r w ! k = d ! (unat (r + of_nat k) mod length d)"
  by (simp add: ring_def)

lemma ring_empty_iff: "ring d r w = [] \<longleftrightarrow> w = r"
  by (simp add: ring_def unat_eq_0)

lemma ring_index:
  assumes "ring_size d"
  shows "unat (r + of_nat k :: u32) mod length d = (unat r + k) mod length d"
proof -
  have "unat (r + of_nat k) = (unat r + k) mod 2 ^ 32"
    by (simp add: unat_word_ariths unat_of_nat mod_add_right_eq)
  then show ?thesis using assms by (simp add: ring_size_def mod_mod_cancel)
qed

lemma ring_full_iff:
  fixes r w :: u32
  assumes "n < 2 ^ 32"
  shows "w = r + of_nat n \<longleftrightarrow> unat (w - r) = n"
proof -
  have "w = r + of_nat n \<longleftrightarrow> w - r = of_nat n" by (auto simp: algebra_simps)
  also have "\<dots> \<longleftrightarrow> unat (w - r) = n" using assms by (simp add: word_unat_eq_iff unat_of_nat)
  finally show ?thesis .
qed

lemma ring_window:
  assumes "k < n" "n < l"
  shows "(a + k) mod l \<noteq> (a + n) mod (l :: nat)"
proof
  assume "(a + k) mod l = (a + n) mod l"
  then have "l dvd (a + n) - (a + k)" using assms(1) mod_eq_dvd_iff_nat [of "a + k" "a + n" l] by simp
  then have "l dvd n - k" by simp
  then show False using assms nat_dvd_not_less [of "n - k" l] by simp
qed

lemma unat_inc: "unat x < n \<Longrightarrow> n \<le> 2 ^ 32 - 1 \<Longrightarrow> unat (x + 1 :: u32) = Suc (unat x)"
  by (simp add: unat_plus_if')

lemma ring_inc:
  fixes r w :: u32
  assumes "unat (w - r) < n" "n \<le> 2 ^ 32 - 1"
  shows "unat (w + 1 - r) = Suc (unat (w - r))"
  using unat_inc [OF assms] by (simp add: algebra_simps)

lemma ring_put:
  assumes d: "ring_size d" "length d \<le> 2 ^ 32 - 1" and room: "unat (w - r) < length d"
  shows "ring (d[unat w mod length d := c]) r (w + 1) = ring d r w @ [c]"
proof -
  let ?n = "unat (w - r)"
  let ?d = "d[unat w mod length d := c]"
  have n: "unat (w + 1 - r) = Suc ?n" by (rule ring_inc [OF room d(2)])
  have w: "w = r + of_nat ?n" by simp
  have "?d ! (unat (r + of_nat k) mod length d) = d ! (unat (r + of_nat k) mod length d)" if "k < ?n" for k
    using ring_window [OF that room, of "unat r"] ring_index [OF d(1), of r] w by (metis nth_list_update_neq)
  moreover have "?d ! (unat (r + of_nat ?n) mod length d) = c"
    using d(1) by (simp add: ring_size_def)
  ultimately show ?thesis by (simp add: ring_def n)
qed

lemma ring_get:
  assumes "w \<noteq> r"
  shows "ring d r w = d ! (unat r mod length d) # ring d (r + 1) w"
proof -
  have "w - r \<noteq> 0" using assms by simp
  then have n: "unat (w - r) = Suc (unat (w - (r + 1)))"
    using unat_minus_one [of "w - r"] unat_eq_0 [of "w - r"] by (simp add: algebra_simps)
  show ?thesis
    by (rule nth_equalityI) (auto simp: n ring_def nth_Cons' algebra_simps of_nat_diff simp del: upt_Suc)
qed

lemma ring_drop_last:
  assumes "w \<noteq> r"
  shows "ring d r (w - 1) = butlast (ring d r w)"
proof -
  have "w - r \<noteq> 0" using assms by simp
  then have "unat (w - 1 - r) = unat (w - r) - 1"
    using unat_minus_one [of "w - r"] by (simp add: algebra_simps)
  then show ?thesis by (intro nth_equalityI) (simp_all add: ring_nth nth_butlast)
qed

lemma ring_last: "w \<noteq> r \<Longrightarrow> last (ring d r w) = d ! (unat (w - 1) mod length d)"
proof -
  assume "w \<noteq> r"
  then have 1: "w - r \<noteq> 0" by simp
  then have "unat (w - r) \<noteq> 0" by (simp add: unat_eq_0)
  then have "last (ring d r w) = d ! (unat (r + of_nat (unat (w - r) - 1)) mod length d)"
    by (simp add: ring_def last_conv_nth)
  moreover have "of_nat (unat (w - r) - 1) = w - r - 1"
    by (simp flip: unat_minus_one [OF 1])
  ultimately show ?thesis by simp
qed

lemma ring_split:
  fixes r w e :: u32
  assumes "unat (w - r) \<le> unat (e - r)"
  shows "ring d r e = ring d r w @ ring d w e"
proof -
  have n: "unat (e - r) = unat (w - r) + unat (e - w)"
    using unat_sub [of "w - r" "e - r"] assms by (simp add: word_le_nat_alt)
  show ?thesis
    by (rule nth_equalityI) (auto simp: n nth_append ring_nth of_nat_diff algebra_simps)
qed

section \<open>Bounded queues\<close>

text \<open>
  Insertions and removals in any order; one that finds the queue full, or empty, has no effect. The result is what was
  inserted, what was removed, and the queue.
\<close>

datatype 'a qop = Put 'a | Get

primrec queue_run ::
  "('q \<Rightarrow> bool) \<Rightarrow> ('q \<Rightarrow> bool) \<Rightarrow> ('a \<Rightarrow> 'q \<Rightarrow> 'q) \<Rightarrow> ('q \<Rightarrow> 'a \<times> 'q) \<Rightarrow> 'a qop list \<Rightarrow> 'q \<Rightarrow> 'a list \<times> 'a list \<times> 'q" where
  "queue_run full isempty put get [] q = ([], [], q)"
| "queue_run full isempty put get (op # ops) q =
     (case op of
        Put a \<Rightarrow>
          if full q then queue_run full isempty put get ops q
          else (let (ins, outs, r) = queue_run full isempty put get ops (put a q) in (a # ins, outs, r))
      | Get \<Rightarrow>
          if isempty q then queue_run full isempty put get ops q
          else (let (ins, outs, r) = queue_run full isempty put get ops (snd (get q)) in (ins, fst (get q) # outs, r)))"

locale bounded_queue =
  fixes inv :: "'q \<Rightarrow> bool" and items :: "'q \<Rightarrow> 'a list" and cap :: nat
    and full empty :: "'q \<Rightarrow> bool" and put :: "'a \<Rightarrow> 'q \<Rightarrow> 'q" and get :: "'q \<Rightarrow> 'a \<times> 'q"
  assumes bounded: "inv q \<Longrightarrow> length (items q) \<le> cap"
    and full_iff: "inv q \<Longrightarrow> full q \<longleftrightarrow> length (items q) = cap"
    and empty_iff: "inv q \<Longrightarrow> empty q \<longleftrightarrow> items q = []"
    and put_inv: "inv q \<Longrightarrow> \<not> full q \<Longrightarrow> inv (put a q)"
    and put_items: "inv q \<Longrightarrow> \<not> full q \<Longrightarrow> items (put a q) = items q @ [a]"
    and get_inv: "inv q \<Longrightarrow> \<not> empty q \<Longrightarrow> inv (snd (get q))"
    and get_items: "inv q \<Longrightarrow> \<not> empty q \<Longrightarrow> items q = fst (get q) # items (snd (get q))"

begin

lemma queue_run_fifo:
  "queue_run full empty put get ops q = (ins, outs, r) \<Longrightarrow> inv q \<Longrightarrow> inv r \<and> items q @ ins = outs @ items r"
proof (induction ops arbitrary: q ins outs)
  case (Cons op ops)
  then show ?case
    by (cases op) (fastforce simp: put_inv put_items get_inv dest: get_items split: prod.splits if_splits)+
qed simp

end

end
