(* ===== verification/Pipe.thy ===== *)
theory Pipe
  imports Inode Ring
begin

text \<open>
  Pipes (\<^verbatim>\<open>pipe.c\<close>), and the state of the file layer. A \<^verbatim>\<open>struct pipe\<close> lives in a page of its own; a
  pipe pointer is the address of that page. The counters \<^verbatim>\<open>nread\<close> and \<^verbatim>\<open>nwrite\<close> are 32-bit and wrap. \<^verbatim>\<open>pipealloc\<close>,
  which allocates file structures, is in theory File.

  The buffer is a ring: \<open>pipe_bytes\<close> reads it back as the queue of bytes written and not yet read, and the lemmas
  show the byte operations of \<^verbatim>\<open>pipewrite\<close> and \<^verbatim>\<open>piperead\<close> to be those of a queue bounded by \<^verbatim>\<open>PIPESIZE\<close>.
\<close>

section \<open>State\<close>

definition PIPESIZE :: nat where "PIPESIZE = 512"

record pipe =
  pi_data :: "byte list"
  pi_nread :: u32
  pi_nwrite :: u32
  pi_readopen :: bool
  pi_writeopen :: bool

datatype filetype = FD_NONE | FD_PIPE | FD_INODE

record kfile =
  f_type :: filetype
  f_ref :: int
  f_readable :: bool
  f_writable :: bool
  f_pipe :: u32
  f_ip :: nat
  f_off :: nat

definition NFILE :: nat where "NFILE = 100"

record file_state = fs_state +
  ftable :: "kfile list"          \<comment> \<open>\<^verbatim>\<open>ftable.file\<close>\<close>
  pipes :: "u32 \<Rightarrow> pipe"          \<comment> \<open>the \<^verbatim>\<open>struct pipe\<close> in the page at an address\<close>

definition pipe_lock :: "u32 \<Rightarrow> lock" where
  "pipe_lock p = LPipe (unat p)"

definition upd_pipe :: "u32 \<Rightarrow> (pipe \<Rightarrow> pipe) \<Rightarrow> ('r file_state_scheme, unit) K" where
  "upd_pipe p f = kmod (\<lambda>s. s\<lparr>pipes := (pipes s)(p := f (pipes s p))\<rparr>)"

definition get_pipe :: "u32 \<Rightarrow> (pipe \<Rightarrow> 'a) \<Rightarrow> ('r file_state_scheme, 'a) K" where
  "get_pipe p f = kget (\<lambda>s. f (pipes s p))"

section \<open>Operations\<close>

definition pipeclose :: "u32 \<Rightarrow> bool \<Rightarrow> ('r file_state_scheme, unit) K" where
  "pipeclose p writable =
     kbind (acquire (pipe_lock p)) (\<lambda>_.
     kbind (if writable then
              kbind (upd_pipe p (\<lambda>q. q\<lparr>pi_writeopen := False\<rparr>)) (\<lambda>_.
              wakeup (ChanPipeRead (unat p)))
            else
              kbind (upd_pipe p (\<lambda>q. q\<lparr>pi_readopen := False\<rparr>)) (\<lambda>_.
              wakeup (ChanPipeWrite (unat p)))) (\<lambda>_.
     kbind (get_pipe p (\<lambda>q. \<not> pi_readopen q \<and> \<not> pi_writeopen q)) (\<lambda>closed.
     if closed then
       kbind (release (pipe_lock p)) (\<lambda>_.
       kfree p)
     else release (pipe_lock p))))"

text \<open>The conditions and byte moves of the loops.\<close>

definition pipe_full :: "pipe \<Rightarrow> bool" where
  "pipe_full q \<longleftrightarrow> pi_nwrite q = pi_nread q + of_nat PIPESIZE"

definition pipe_empty :: "pipe \<Rightarrow> bool" where
  "pipe_empty q \<longleftrightarrow> pi_nread q = pi_nwrite q"

definition pipe_put :: "byte \<Rightarrow> pipe \<Rightarrow> pipe" where
  "pipe_put c q = q\<lparr>pi_data := (pi_data q)[unat (pi_nwrite q) mod PIPESIZE := c], pi_nwrite := pi_nwrite q + 1\<rparr>"

definition pipe_get :: "pipe \<Rightarrow> byte \<times> pipe" where
  "pipe_get q = (pi_data q ! (unat (pi_nread q) mod PIPESIZE), q\<lparr>pi_nread := pi_nread q + 1\<rparr>)"

text \<open>
  The loop of \<^verbatim>\<open>pipewrite\<close>, with the lock held: \<open>bs\<close> is what is left to write, \<open>n\<close> the whole length. When the
  pipe is full the writer sleeps; it resumes with \<open>sleep_resume\<close> and this loop on the bytes that were left.
\<close>

fun pipewrite_loop :: "u32 \<Rightarrow> byte list \<Rightarrow> nat \<Rightarrow> ('r file_state_scheme, int) K" where
  "pipewrite_loop p [] n =
     kbind (wakeup (ChanPipeRead (unat p))) (\<lambda>_.
     kbind (release (pipe_lock p)) (\<lambda>_.
     kreturn (int n)))"
| "pipewrite_loop p (c # bs) n =
     kbind (get_pipe p (\<lambda>q. q)) (\<lambda>q.
     if pipe_full q then
       kbind (if pi_readopen q then kbind myproc (\<lambda>cp. get_proc (the cp) p_killed) else kreturn True) (\<lambda>stop.
       if stop then
         kbind (release (pipe_lock p)) (\<lambda>_.
         kreturn (- 1))
       else
         kbind (wakeup (ChanPipeRead (unat p))) (\<lambda>_.
         sleep (ChanPipeWrite (unat p)) (pipe_lock p)))
     else
       kbind (upd_pipe p (pipe_put c)) (\<lambda>_.
       pipewrite_loop p bs n))"

definition pipewrite :: "u32 \<Rightarrow> byte list \<Rightarrow> ('r file_state_scheme, int) K" where
  "pipewrite p bs = kbind (acquire (pipe_lock p)) (\<lambda>_. pipewrite_loop p bs (length bs))"

text \<open>The copying loop of \<^verbatim>\<open>piperead\<close>: at most \<open>n\<close> bytes, as long as there are any.\<close>

fun pipe_take :: "nat \<Rightarrow> pipe \<Rightarrow> byte list \<times> pipe" where
  "pipe_take 0 q = ([], q)"
| "pipe_take (Suc n) q =
     (if pipe_empty q then ([], q)
      else (let (c, q1) = pipe_get q; (bs, q2) = pipe_take n q1 in (c # bs, q2)))"

definition piperead :: "u32 \<Rightarrow> int \<Rightarrow> ('r file_state_scheme, int \<times> byte list) K" where
  "piperead p n =
     kbind (acquire (pipe_lock p)) (\<lambda>_.
     kbind (get_pipe p (\<lambda>q. q)) (\<lambda>q.
     if pipe_empty q \<and> pi_writeopen q then
       kbind myproc (\<lambda>cp.
       kbind (get_proc (the cp) p_killed) (\<lambda>killed.
       if killed then
         kbind (release (pipe_lock p)) (\<lambda>_.
         kreturn (- 1, []))
       else sleep (ChanPipeRead (unat p)) (pipe_lock p)))
     else
       (let (bs, q') = pipe_take (nat n) q in
        kbind (upd_pipe p (\<lambda>_. q')) (\<lambda>_.
        kbind (wakeup (ChanPipeWrite (unat p))) (\<lambda>_.
        kbind (release (pipe_lock p)) (\<lambda>_.
        kreturn (int (length bs), bs)))))))"

section \<open>The ring buffer\<close>

definition pipe_ok :: "pipe \<Rightarrow> bool" where
  "pipe_ok q \<longleftrightarrow> length (pi_data q) = PIPESIZE \<and> unat (pi_nwrite q - pi_nread q) \<le> PIPESIZE"

definition pipe_bytes :: "pipe \<Rightarrow> byte list" where
  "pipe_bytes q = ring (pi_data q) (pi_nread q) (pi_nwrite q)"

lemma pipe_ring_size: "pipe_ok q \<Longrightarrow> ring_size (pi_data q)"
  by (auto simp: pipe_ok_def ring_size_def PIPESIZE_def)

lemma pipe_full_len: "pipe_full q \<longleftrightarrow> length (pipe_bytes q) = PIPESIZE"
  unfolding pipe_full_def pipe_bytes_def length_ring by (rule ring_full_iff) (simp add: PIPESIZE_def)

interpretation pq: bounded_queue pipe_ok pipe_bytes PIPESIZE pipe_full pipe_empty pipe_put pipe_get
proof
  fix q :: pipe and a :: byte
  assume ok: "pipe_ok q"
  show "length (pipe_bytes q) \<le> PIPESIZE" using ok by (simp add: pipe_ok_def pipe_bytes_def)
  show "pipe_full q \<longleftrightarrow> length (pipe_bytes q) = PIPESIZE" by (rule pipe_full_len)
  show "pipe_empty q \<longleftrightarrow> pipe_bytes q = []" by (auto simp: pipe_empty_def pipe_bytes_def ring_empty_iff)
  have len: "length (pi_data q) = PIPESIZE" using ok by (simp add: pipe_ok_def)
  {
    assume nf: "\<not> pipe_full q"
    then have room: "unat (pi_nwrite q - pi_nread q) < PIPESIZE"
      using ok pipe_full_len by (simp add: pipe_ok_def pipe_bytes_def)
    show "pipe_ok (pipe_put a q)"
      using room len ring_inc [OF room] by (simp add: pipe_ok_def pipe_put_def PIPESIZE_def)
    show "pipe_bytes (pipe_put a q) = pipe_bytes q @ [a]"
      using ring_put [OF pipe_ring_size [OF ok], of "pi_nwrite q" "pi_nread q" a] room len
      by (simp add: pipe_bytes_def pipe_put_def PIPESIZE_def)
  next
    assume "\<not> pipe_empty q"
    then have ne: "pi_nwrite q \<noteq> pi_nread q" by (simp add: pipe_empty_def)
    note g = ring_get [OF ne, of "pi_data q"]
    show "pipe_bytes q = fst (pipe_get q) # pipe_bytes (snd (pipe_get q))"
      using g len by (simp add: pipe_bytes_def pipe_get_def)
    show "pipe_ok (snd (pipe_get q))"
      using arg_cong [OF g, of length] ok by (simp add: pipe_ok_def pipe_get_def)
  }
qed

lemma pipe_take_spec:
  assumes "pipe_ok q"
  shows "pipe_ok (snd (pipe_take n q)) \<and> fst (pipe_take n q) = take n (pipe_bytes q) \<and>
    pipe_bytes (snd (pipe_take n q)) = drop n (pipe_bytes q)"
  using assms
proof (induction n q rule: pipe_take.induct)
  case (2 n q)
  show ?case
  proof (cases "pipe_empty q")
    case True
    then show ?thesis using 2 pq.empty_iff [OF 2(2)] by simp
  next
    case False
    note g = pq.get_items [OF 2(2) False] pq.get_inv [OF 2(2) False]
    show ?thesis using 2 False g by (cases "pipe_get q") (auto simp: split: prod.split)
  qed
qed simp


section \<open>Writing and reading\<close>

lemma pipes_cpu [simp]:
  "pipes (acq lk s) = pipes s" "pipes (rel lk s) = pipes s" "pipes (cli_touch s) = pipes s" "pipes (wakes ch s) = pipes s"
  "pipes (asleep p ch s) = pipes s"
  by (simp_all add: acq_def rel_def cli_touch_def wakes_def asleep_def)

definition in_pipe :: "nat \<Rightarrow> u32 \<Rightarrow> 'r file_state_scheme \<Rightarrow> bool" where
  "in_pipe cp p s \<longleftrightarrow> cur s = Some cp \<and> cp < length (ptable s) \<and> held s = {pipe_lock p} \<and> ncli s = 1 \<and> pipe_ok (pipes s p)"

definition pipe_room :: "pipe \<Rightarrow> nat" where
  "pipe_room q = PIPESIZE - length (pipe_bytes q)"

definition wrote_pipe :: "u32 \<Rightarrow> byte list \<Rightarrow> 'r file_state_scheme \<Rightarrow> 'r file_state_scheme \<Rightarrow> bool" where
  "wrote_pipe p bs s t \<longleftrightarrow> pipe_ok (pipes t p) \<and> pipe_bytes (pipes t p) = pipe_bytes (pipes s p) @ bs \<and>
     (\<forall>p'. p' \<noteq> p \<longrightarrow> pipes t p' = pipes s p')"

lemma pipe_lock_neq [simp]: "pipe_lock p \<noteq> LPtable" "LPtable \<noteq> pipe_lock p"
  by (simp_all add: pipe_lock_def)

lemma in_pipeD:
  assumes "in_pipe cp p s"
  shows "cur s = Some cp" "cp < length (ptable s)" "held s = {pipe_lock p}" "ncli s = 1" "pipe_ok (pipes s p)"
  using assms by (simp_all add: in_pipe_def)

lemma in_pipe_touch: "in_pipe cp p s \<Longrightarrow> in_pipe cp p (cli_touch s)"
  by (simp add: in_pipe_def)

lemma release_pipe:
  assumes "in_pipe cp p s"
  shows "wpb (kbind (release (pipe_lock p)) f) Q B s = wpb (f ()) Q B (rel (pipe_lock p) s)"
  using in_pipeD [OF assms] by (simp add: wpb_kbind wpb_release)

lemma wrote_pipe_Nil: "in_pipe cp p s \<Longrightarrow> pipes t = pipes s \<Longrightarrow> wrote_pipe p [] s t"
  by (simp add: wrote_pipe_def in_pipe_def)

definition write_ret :: "nat \<Rightarrow> u32 \<Rightarrow> byte list \<Rightarrow> nat \<Rightarrow> 'r file_state_scheme \<Rightarrow> int \<Rightarrow> 'r file_state_scheme \<Rightarrow> bool" where
  "write_ret cp p bs n s r t \<longleftrightarrow> held t = {} \<and> ncli t = 0 \<and>
     (r = int n \<and> wrote_pipe p bs s t \<and> none_wait (ChanPipeRead (unat p)) (ptable t) \<or>
      r = -1 \<and> wrote_pipe p (take (pipe_room (pipes s p)) bs) s t \<and>
        (\<not> pi_readopen (pipes s p) \<or> p_killed (ptable s ! cp)))"

definition write_block :: "nat \<Rightarrow> u32 \<Rightarrow> byte list \<Rightarrow> 'r file_state_scheme \<Rightarrow> 'r file_state_scheme \<Rightarrow> bool" where
  "write_block cp p bs s t \<longleftrightarrow> pipe_room (pipes s p) < length bs \<and>
     wrote_pipe p (take (pipe_room (pipes s p)) bs) s t \<and>
     waits cp (ChanPipeWrite (unat p)) t \<and> none_wait (ChanPipeRead (unat p)) (ptable t)"

lemma pipewrite_loop_full:
  assumes pre: "in_pipe cp p s" and full: "pipe_full (pipes s p)"
  shows "wpb (pipewrite_loop p (c # bs) n) (write_ret cp p (c # bs) n s) (write_block cp p (c # bs) s) s"
proof -
  have room: "pipe_room (pipes s p) = 0"
    using full pipe_full_len by (simp add: pipe_room_def)
  have stop: "wpb (kbind (release (pipe_lock p)) (\<lambda>_. kreturn (- 1))) (write_ret cp p (c # bs) n s) B t"
    if "t = s \<or> t = cli_touch s" "\<not> pi_readopen (pipes s p) \<or> p_killed (ptable s ! cp)" for t B
  proof -
    have t: "in_pipe cp p t" "pipes t = pipes s" "pipes (rel (pipe_lock p) t) = pipes s" using that(1) pre in_pipe_touch by auto
    show ?thesis
      using that(2) in_pipeD [OF t(1)] wrote_pipe_Nil [OF pre t(3)]
      by (simp add: release_pipe [OF t(1)] wpb_kreturn write_ret_def room)
  qed
  have wait: "write_block cp p (c # bs) s
      (asleep cp (ChanPipeWrite (unat p)) (wakes (ChanPipeRead (unat p)) (cli_touch s)))"
    using in_pipeD [OF pre] wrote_pipe_Nil [OF pre]
    by (simp add: write_block_def room none_wait_asleep waits_asleep)
  show ?thesis
    using full stop wait in_pipeD [OF pre]
    by (simp add: wp_simps get_pipe_def wpb_sleep)
qed

lemma pipewrite_loop_spec:
  assumes "in_pipe cp p s"
  shows "wpb (pipewrite_loop p bs n) (write_ret cp p bs n s) (write_block cp p bs s) s"
  using assms
proof (induction bs arbitrary: s)
  case Nil
  then show ?case by (simp add: wp_simps wpb_release in_pipe_def wrote_pipe_def write_ret_def)
next
  case (Cons c bs)
  show ?case
  proof (cases "pipe_full (pipes s p)")
    case True
    then show ?thesis using pipewrite_loop_full Cons.prems by blast
  next
    case False
    let ?t = "s\<lparr>pipes := (pipes s)(p := pipe_put c (pipes s p))\<rparr>"
    note ok = in_pipeD [OF Cons.prems]
    note put = pq.put_inv [OF ok(5) False] pq.put_items [OF ok(5) False]
    have t: "in_pipe cp p ?t" using ok put by (simp add: in_pipe_def)
    have room: "pipe_room (pipes s p) = Suc (pipe_room (pipe_put c (pipes s p)))"
      using pq.bounded [OF put(1)] put(2) by (simp add: pipe_room_def)
    have w: "wrote_pipe p ds ?t u \<Longrightarrow> wrote_pipe p (c # ds) s u" for ds u
      using put(2) by (auto simp: wrote_pipe_def)
    have "wpb (pipewrite_loop p bs n) (write_ret cp p (c # bs) n s) (write_block cp p (c # bs) s) ?t"
      by (rule wpb_mono [OF Cons.IH [OF t]]) (use room w in \<open>auto simp: write_ret_def write_block_def pipe_put_def\<close>)
    then show ?thesis using False by (simp add: wp_simps get_pipe_def upd_pipe_def)
  qed
qed


definition read_ret :: "nat \<Rightarrow> u32 \<Rightarrow> nat \<Rightarrow> 'r file_state_scheme \<Rightarrow> int \<times> byte list \<Rightarrow> 'r file_state_scheme \<Rightarrow> bool" where
  "read_ret cp p n s = (\<lambda>(r, bs) t. held t = {} \<and> ncli t = 0 \<and> (\<forall>p'. p' \<noteq> p \<longrightarrow> pipes t p' = pipes s p') \<and>
     (r = int (length bs) \<and> bs = take n (pipe_bytes (pipes s p)) \<and> pipe_ok (pipes t p) \<and>
        pipe_bytes (pipes t p) = drop n (pipe_bytes (pipes s p)) \<and> none_wait (ChanPipeWrite (unat p)) (ptable t) \<and>
        (pipe_bytes (pipes s p) = [] \<longrightarrow> \<not> pi_writeopen (pipes s p)) \<or>
      r = -1 \<and> bs = [] \<and> pipe_bytes (pipes s p) = [] \<and> p_killed (ptable s ! cp) \<and> pipes t = pipes s))"

definition read_block :: "nat \<Rightarrow> u32 \<Rightarrow> 'r file_state_scheme \<Rightarrow> 'r file_state_scheme \<Rightarrow> bool" where
  "read_block cp p s t \<longleftrightarrow> pipe_bytes (pipes s p) = [] \<and> pi_writeopen (pipes s p) \<and> pipes t = pipes s \<and>
     waits cp (ChanPipeRead (unat p)) t"

lemma running_acq: "running cp s \<Longrightarrow> pipe_ok (pipes s p) \<Longrightarrow> in_pipe cp p (acq (pipe_lock p) s)"
  by (simp add: running_def in_pipe_def)

lemma piperead_spec:
  assumes run: "running cp s" and ok: "pipe_ok (pipes s p)"
  shows "wpb (piperead p n) (read_ret cp p (nat n) s) (read_block cp p s) s"
proof -
  note pre = in_pipeD [OF running_acq [OF run ok]]
  have e: "pipe_empty (pipes s p) \<longleftrightarrow> pipe_bytes (pipes s p) = []" by (rule pq.empty_iff [OF ok])
  obtain bs q where t: "pipe_take (nat n) (pipes s p) = (bs, q)" by fastforce
  then have q: "pipe_ok q" "bs = take (nat n) (pipe_bytes (pipes s p))" "pipe_bytes q = drop (nat n) (pipe_bytes (pipes s p))"
    using pipe_take_spec [OF ok, of "nat n"] by simp_all
  show ?thesis
    unfolding piperead_def
    using run pre e t q
    by (auto simp: running_def wp_simps get_pipe_def upd_pipe_def wpb_release wpb_sleep read_ret_def read_block_def waits_asleep)
qed

section \<open>Properties\<close>

text \<open>C8. Bytes come out of a pipe in the order in which they went in, under every interleaving of insertions and
  removals and across the wrap-around of the 32-bit counters: what was in the pipe and what was written since is what
  was read followed by what is in the pipe now.\<close>

theorem pipe_fifo:
  assumes "pipe_ok q" and "queue_run pipe_full pipe_empty pipe_put pipe_get ops q = (ins, outs, q')"
  shows "pipe_ok q' \<and> pipe_bytes q @ ins = outs @ pipe_bytes q'"
  by (rule pq.queue_run_fifo [OF assms(2,1)])

text \<open>A pipe whose counters are about to wrap.\<close>

definition ex_pipe :: "u32 \<Rightarrow> pipe" where
  "ex_pipe w = \<lparr>pi_data = replicate PIPESIZE 0, pi_nread = w, pi_nwrite = w, pi_readopen = True, pi_writeopen = True\<rparr>"

lemma ex_pipe_counters: "pi_nread (ex_pipe w) = w" "pi_nwrite (ex_pipe w) = w" "pi_readopen (ex_pipe w)" "pi_writeopen (ex_pipe w)"
  by (simp_all add: ex_pipe_def)

lemma ex_pipe_ok: "pipe_ok (ex_pipe w)" "pipe_bytes (ex_pipe w) = []"
  by (simp_all add: pipe_ok_def ex_pipe_def pipe_bytes_def ring_empty_iff)

lemma pipe_counters:
  "pi_nwrite (pipe_put c q) = pi_nwrite q + 1" "pi_nread (pipe_put c q) = pi_nread q"
  "pi_nwrite (snd (pipe_get q)) = pi_nwrite q" "pi_nread (snd (pipe_get q)) = pi_nread q + 1"
  by (simp_all add: pipe_put_def pipe_get_def)

theorem pipe_fifo_witness:
  "fst (snd (queue_run pipe_full pipe_empty pipe_put pipe_get [Put 7, Get, Put 8, Put 9, Get, Get] (ex_pipe (- 1)))) = [7, 8, 9]"
  (is "fst (snd ?run) = _")
proof -
  have full: "pipe_full q \<longleftrightarrow> pi_nwrite q = pi_nread q + 512" for q by (simp add: pipe_full_def PIPESIZE_def)
  have i: "fst ?run = [7, 8, 9]" and "pi_nwrite (snd (snd ?run)) = pi_nread (snd (snd ?run))"
    by (simp_all add: full pipe_empty_def pipe_counters ex_pipe_counters)
  then have e: "pipe_bytes (snd (snd ?run)) = []" by (simp only: pipe_bytes_def ring_empty_iff)
  have "?run = (fst ?run, fst (snd ?run), snd (snd ?run))" by (simp only: prod.collapse)
  note f = conjunct2 [OF pipe_fifo [OF ex_pipe_ok(1) this]]
  show ?thesis using f unfolding i e ex_pipe_ok(2) by (simp only: append_Nil append_Nil2)
qed

text \<open>C9. \<^verbatim>\<open>pipewrite\<close> never panics. It returns with all bytes in the pipe, after what was there; or with -1, when the read end
  is closed or the process was killed; or it sleeps with the pipe full, the bytes that fit in it, and no reader asleep.
  No other pipe changes.\<close>

theorem pipewrite_appends:
  assumes "running cp s" and "pipe_ok (pipes s p)"
  shows "wpb (pipewrite p bs) (write_ret cp p bs (length bs) s) (write_block cp p bs s) s"
proof -
  have "pipes (acq (pipe_lock p) s) = pipes s" "ptable (acq (pipe_lock p) s) = ptable s" by simp_all
  then have eq: "write_ret cp p bs n (acq (pipe_lock p) s) = write_ret cp p bs n s"
      "write_block cp p bs (acq (pipe_lock p) s) = write_block cp p bs s" for n
    by (simp_all add: fun_eq_iff write_ret_def write_block_def wrote_pipe_def)
  show ?thesis
    using pipewrite_loop_spec [OF running_acq [OF assms], of bs "length bs"] assms(1)
    by (simp add: pipewrite_def wp_simps running_def eq)
qed


text \<open>A process with a pipe.\<close>

definition ex_file_state :: file_state where
  "ex_file_state = fs_state.extend (ex_fs_state\<lparr>ptable := [ex_proc], cur := Some 0\<rparr>) (file_state.fields [] (\<lambda>_. ex_pipe 5))"

lemma ex_file_sel [simp]:
  "ptable ex_file_state = [ex_proc]" "cur ex_file_state = Some 0" "held ex_file_state = {}" "ncli ex_file_state = 0"
  "pipes ex_file_state = (\<lambda>_. ex_pipe 5)"
  by (simp_all add: ex_file_state_def ex_fs_state_def fs_state.defs file_state.defs)

lemma ex_running: "running 0 ex_file_state" "pipe_ok (pipes ex_file_state p)"
  by (simp_all add: running_def ex_pipe_ok)

theorem pipewrite_appends_witness:
  "\<exists>t. pipewrite 4096 [1, 2, 3] ex_file_state = Ok 3 t \<and> pipe_bytes (pipes t 4096) = [1, 2, 3]"
proof -
  have room: "pipe_room (pipes ex_file_state 4096) = 512" by (simp add: pipe_room_def ex_pipe_ok PIPESIZE_def)
  have "pi_readopen (ex_pipe 5)" "\<not> p_killed ex_proc" by (simp_all add: ex_pipe_def ex_proc_def)
  then show ?thesis
    using pipewrite_appends [OF ex_running, of 4096 "[1, 2, 3]"] room
    by (auto simp: write_ret_def write_block_def wrote_pipe_def ex_pipe_ok elim!: wpbE)
qed


end
