(* ===== verification/File.thy ===== *)
theory File
  imports Pipe
begin

text \<open>
  Open files (\<^verbatim>\<open>file.c\<close>) and \<^verbatim>\<open>pipealloc\<close> of \<^verbatim>\<open>pipe.c\<close>. A file pointer is an index into \<^verbatim>\<open>ftable.file\<close>. What a read
  delivers is a byte list together with the return value; the system call stores it in user memory.
\<close>

definition upd_file :: "nat \<Rightarrow> (kfile \<Rightarrow> kfile) \<Rightarrow> ('r file_state_scheme, unit) K" where
  "upd_file f g = kmod (\<lambda>s. s\<lparr>ftable := (ftable s)[f := g (ftable s ! f)]\<rparr>)"

definition get_file :: "nat \<Rightarrow> (kfile \<Rightarrow> 'a) \<Rightarrow> ('r file_state_scheme, 'a) K" where
  "get_file f g = kget (\<lambda>s. g (ftable s ! f))"

definition filealloc :: "('r file_state_scheme, nat option) K" where
  "filealloc =
     kbind (acquire LFtable) (\<lambda>_.
     kbind (kget (\<lambda>s. List.find (\<lambda>f. f_ref (ftable s ! f) = 0) [0 ..< NFILE])) (\<lambda>found.
     case found of
       Some f \<Rightarrow>
         kbind (upd_file f (\<lambda>x. x\<lparr>f_ref := 1\<rparr>)) (\<lambda>_.
         kbind (release LFtable) (\<lambda>_.
         kreturn (Some f)))
     | None \<Rightarrow>
         kbind (release LFtable) (\<lambda>_.
         kreturn None)))"

definition filedup :: "nat \<Rightarrow> ('r file_state_scheme, nat) K" where
  "filedup f =
     kbind (acquire LFtable) (\<lambda>_.
     kbind (get_file f f_ref) (\<lambda>r.
     if r < 1 then kpanic ''filedup''
     else
       kbind (upd_file f (\<lambda>x. x\<lparr>f_ref := f_ref x + 1\<rparr>)) (\<lambda>_.
       kbind (release LFtable) (\<lambda>_.
       kreturn f))))"

definition fileclose :: "nat \<Rightarrow> ('r file_state_scheme, unit) K" where
  "fileclose f =
     kbind (acquire LFtable) (\<lambda>_.
     kbind (get_file f f_ref) (\<lambda>r.
     if r < 1 then kpanic ''fileclose''
     else
       kbind (upd_file f (\<lambda>x. x\<lparr>f_ref := f_ref x - 1\<rparr>)) (\<lambda>_.
       if 0 < r - 1 then release LFtable
       else
         kbind (get_file f (\<lambda>x. x)) (\<lambda>ff.
         kbind (upd_file f (\<lambda>x. x\<lparr>f_ref := 0, f_type := FD_NONE\<rparr>)) (\<lambda>_.
         kbind (release LFtable) (\<lambda>_.
         if f_type ff = FD_PIPE then pipeclose (f_pipe ff) (f_writable ff)
         else if f_type ff = FD_INODE then
           kbind begin_op (\<lambda>_.
           kbind (iput (f_ip ff)) (\<lambda>_.
           end_op))
         else kreturn ()))))))"

definition filestat :: "nat \<Rightarrow> ('r file_state_scheme, int \<times> stat option) K" where
  "filestat f =
     kbind (get_file f (\<lambda>x. x)) (\<lambda>x.
     if f_type x = FD_INODE then
       kbind (ilock (f_ip x)) (\<lambda>_.
       kbind (stati (f_ip x)) (\<lambda>st.
       kbind (iunlock (f_ip x)) (\<lambda>_.
       kreturn (0, Some st))))
     else kreturn (- 1, None))"

definition fileread ::
  "'r file_state_scheme devsw \<Rightarrow> nat \<Rightarrow> int \<Rightarrow> ('r file_state_scheme, int \<times> byte list) K" where
  "fileread devsw f n =
     kbind (get_file f (\<lambda>x. x)) (\<lambda>x.
     if \<not> f_readable x then kreturn (- 1, [])
     else if f_type x = FD_PIPE then piperead (f_pipe x) n
     else if f_type x = FD_INODE then
       kbind (ilock (f_ip x)) (\<lambda>_.
       kbind (readi devsw (f_ip x) (f_off x) (nat (n mod 2 ^ 32))) (\<lambda>(r, bs).
       kbind (if 0 < r then upd_file f (\<lambda>y. y\<lparr>f_off := (f_off y + nat r) mod 2 ^ 32\<rparr>) else kreturn ()) (\<lambda>_.
       kbind (iunlock (f_ip x)) (\<lambda>_.
       kreturn (r, bs)))))
     else kpanic ''fileread'')"

text \<open>\<^verbatim>\<open>int max = ((MAXOPBLOCKS-1-1-2) / 2) * 512;\<close>\<close>

definition filewrite_max :: nat where
  "filewrite_max = nat ((MAXOPBLOCKS - 1 - 1 - 2) div 2 * 512)"

lemma filewrite_max_eq [simp]: "filewrite_max = 1536"
  by (simp add: filewrite_max_def MAXOPBLOCKS_def)

text \<open>The loop of \<^verbatim>\<open>filewrite\<close>: what is left to write, and the total \<open>n\<close>.\<close>

function filewrite_loop ::
  "'r file_state_scheme devsw \<Rightarrow> nat \<Rightarrow> byte list \<Rightarrow> int \<Rightarrow> ('r file_state_scheme, int) K" where
  "filewrite_loop devsw f bs n =
     (if bs = [] then kreturn n
      else
        (let n1 = min (length bs) filewrite_max in
         kbind begin_op (\<lambda>_.
         kbind (get_file f (\<lambda>x. x)) (\<lambda>x.
         kbind (ilock (f_ip x)) (\<lambda>_.
         kbind (get_file f f_off) (\<lambda>off.
         kbind (writei devsw (f_ip x) (take n1 bs) off) (\<lambda>r.
         kbind (if 0 < r then upd_file f (\<lambda>y. y\<lparr>f_off := (f_off y + nat r) mod 2 ^ 32\<rparr>) else kreturn ()) (\<lambda>_.
         kbind (iunlock (f_ip x)) (\<lambda>_.
         kbind end_op (\<lambda>_.
         if r < 0 then kreturn (- 1)
         else if r \<noteq> int n1 then kpanic ''short filewrite''
         else filewrite_loop devsw f (drop n1 bs) n))))))))))"
  by pat_completeness auto

termination
  by (relation "measure (\<lambda>(devsw, f, bs, n). length bs)") auto

declare filewrite_loop.simps [simp del]

definition filewrite ::
  "'r file_state_scheme devsw \<Rightarrow> nat \<Rightarrow> byte list \<Rightarrow> ('r file_state_scheme, int) K" where
  "filewrite devsw f bs =
     kbind (get_file f (\<lambda>x. x)) (\<lambda>x.
     if \<not> f_writable x then kreturn (- 1)
     else if f_type x = FD_PIPE then pipewrite (f_pipe x) bs
     else if f_type x = FD_INODE then filewrite_loop devsw f bs (int (length bs))
     else kpanic ''filewrite'')"

section \<open>Allocating a pipe\<close>

text \<open>The label \<^verbatim>\<open>bad\<close> of \<^verbatim>\<open>pipealloc\<close>.\<close>

definition pipealloc_bad :: "u32 \<Rightarrow> nat option \<Rightarrow> nat option \<Rightarrow> ('r file_state_scheme, (nat \<times> nat) option) K" where
  "pipealloc_bad p f0 f1 =
     kbind (if p \<noteq> 0 then kfree p else kreturn ()) (\<lambda>_.
     kbind (case f0 of None \<Rightarrow> kreturn () | Some f \<Rightarrow> fileclose f) (\<lambda>_.
     kbind (case f1 of None \<Rightarrow> kreturn () | Some f \<Rightarrow> fileclose f) (\<lambda>_.
     kreturn None)))"

definition pipealloc :: "('r file_state_scheme, (nat \<times> nat) option) K" where
  "pipealloc =
     kbind filealloc (\<lambda>r0.
     case r0 of None \<Rightarrow> pipealloc_bad 0 None None
     | Some f0 \<Rightarrow>
     kbind filealloc (\<lambda>r1.
     case r1 of None \<Rightarrow> pipealloc_bad 0 r0 None
     | Some f1 \<Rightarrow>
     kbind kalloc (\<lambda>p.
     if p = 0 then pipealloc_bad 0 r0 r1
     else
       kbind (upd_pipe p (\<lambda>q. q\<lparr>pi_readopen := True, pi_writeopen := True, pi_nwrite := 0, pi_nread := 0\<rparr>)) (\<lambda>_.
       kbind (upd_file f0 (\<lambda>x. x\<lparr>f_type := FD_PIPE, f_readable := True, f_writable := False, f_pipe := p\<rparr>)) (\<lambda>_.
       kbind (upd_file f1 (\<lambda>x. x\<lparr>f_type := FD_PIPE, f_readable := False, f_writable := True, f_pipe := p\<rparr>)) (\<lambda>_.
       kreturn (Some (f0, f1))))))))"

end
