(* ===== verification/Process.thy ===== *)
theory Process
  imports Dir File
begin

unbundle bit_operations_syntax

text \<open>
  Creating and ending processes (\<^verbatim>\<open>proc.c\<close>): \<^verbatim>\<open>userinit\<close>, \<^verbatim>\<open>fork\<close>, \<^verbatim>\<open>exit\<close>, \<^verbatim>\<open>wait\<close> and \<^verbatim>\<open>forkret\<close>. The binary
  of \<^verbatim>\<open>initcode.S\<close> that the linker embeds is an argument of \<^verbatim>\<open>userinit\<close>.
\<close>

section \<open>Constants of the segment and flag registers\<close>

definition SEG_UCODE :: u32 where "SEG_UCODE = 3"
definition SEG_UDATA :: u32 where "SEG_UDATA = 4"
definition DPL_USER :: u32 where "DPL_USER = 3"
definition FL_IF :: u32 where "FL_IF = 0x200"

record ker_state = file_state +
  forkret_first :: bool       \<comment> \<open>the static \<^verbatim>\<open>first\<close> of \<^verbatim>\<open>forkret\<close>\<close>

section \<open>Operations\<close>

text \<open>The name field holds \<^verbatim>\<open>safestrcpy(p->name, n, sizeof(p->name))\<close>, as a string.\<close>

definition set_name :: "byte list \<Rightarrow> proc \<Rightarrow> proc" where
  "set_name n q = q\<lparr>p_name := cstr (safestrcpy n 16)\<rparr>"

text \<open>\<^verbatim>\<open>"initcode"\<close> and \<^verbatim>\<open>"/"\<close>\<close>

definition str_initcode :: "byte list" where
  "str_initcode = [105, 110, 105, 116, 99, 111, 100, 101]"

definition userinit :: "'r file_state_scheme devsw \<Rightarrow> byte list \<Rightarrow> ('r file_state_scheme, unit) K" where
  "userinit devsw initcode =
     kbind allocproc (\<lambda>r.
     (let p = the r in
      kbind (kmod (\<lambda>s. s\<lparr>initproc := r\<rparr>)) (\<lambda>_.
      kbind setupkvm (\<lambda>pgd.
      kbind (upd_proc p (\<lambda>q. q\<lparr>p_pgdir := pgd\<rparr>)) (\<lambda>_.
      if pgd = 0 then kpanic ''userinit: out of memory?''
      else
        kbind (inituvm pgd initcode) (\<lambda>_.
        kbind (upd_proc p (\<lambda>q. q\<lparr>p_sz := PGSIZE,
          p_tf := zero_tf\<lparr>tf_cs := push_bit 3 SEG_UCODE OR DPL_USER, tf_ds := push_bit 3 SEG_UDATA OR DPL_USER,
                          tf_es := push_bit 3 SEG_UDATA OR DPL_USER, tf_ss := push_bit 3 SEG_UDATA OR DPL_USER,
                          tf_eflags := FL_IF, tf_esp := PGSIZE, tf_eip := 0\<rparr>\<rparr>)) (\<lambda>_.
        kbind (upd_proc p (set_name str_initcode)) (\<lambda>_.
        kbind (namei devsw [slash]) (\<lambda>cwd.
        kbind (upd_proc p (\<lambda>q. q\<lparr>p_cwd := cwd\<rparr>)) (\<lambda>_.
        kbind (acquire LPtable) (\<lambda>_.
        kbind (upd_proc p (\<lambda>q. q\<lparr>p_state := RUNNABLE\<rparr>)) (\<lambda>_.
        release LPtable))))))))))))"

definition fork :: "('r file_state_scheme, int) K" where
  "fork =
     kbind myproc (\<lambda>cp.
     (let curproc = the cp in
      kbind allocproc (\<lambda>r.
      case r of
        None \<Rightarrow> kreturn (- 1)
      | Some np \<Rightarrow>
          kbind (get_proc curproc (\<lambda>q. q)) (\<lambda>c.
          kbind (copyuvm (p_pgdir c) (p_sz c)) (\<lambda>pgd.
          kbind (upd_proc np (\<lambda>q. q\<lparr>p_pgdir := pgd\<rparr>)) (\<lambda>_.
          if pgd = 0 then
            kbind (get_proc np p_kstack) (\<lambda>stk.
            kbind (kfree stk) (\<lambda>_.
            kbind (upd_proc np (\<lambda>q. q\<lparr>p_kstack := 0, p_state := UNUSED\<rparr>)) (\<lambda>_.
            kreturn (- 1))))
          else
            kbind (upd_proc np (\<lambda>q. q\<lparr>p_sz := p_sz c, p_parent := Some curproc, p_tf := (p_tf c)\<lparr>tf_eax := 0\<rparr>\<rparr>)) (\<lambda>_.
            kbind (kfor [0 ..< NOFILE] (\<lambda>i.
              case p_ofile c ! i of
                None \<Rightarrow> kreturn ()
              | Some f \<Rightarrow>
                  kbind (filedup f) (\<lambda>f'.
                  upd_proc np (\<lambda>q. q\<lparr>p_ofile := (p_ofile q)[i := Some f']\<rparr>)))) (\<lambda>_.
            kbind (idup (the (p_cwd c))) (\<lambda>cwd.
            kbind (upd_proc np (\<lambda>q. q\<lparr>p_cwd := Some cwd\<rparr>)) (\<lambda>_.
            kbind (upd_proc np (set_name (p_name c))) (\<lambda>_.
            kbind (get_proc np p_pid) (\<lambda>pid.
            kbind (acquire LPtable) (\<lambda>_.
            kbind (upd_proc np (\<lambda>q. q\<lparr>p_state := RUNNABLE\<rparr>)) (\<lambda>_.
            kbind (release LPtable) (\<lambda>_.
            kreturn pid)))))))))))))))"

text \<open>The last two loops and the end of \<^verbatim>\<open>exit\<close>, which run with \<^verbatim>\<open>ptable.lock\<close> held.\<close>

definition exit_reparent :: "nat \<Rightarrow> ('r proc_state_scheme, unit) K" where
  "exit_reparent curproc =
     kbind (kget initproc) (\<lambda>init.
     kfor [0 ..< NPROC] (\<lambda>i.
       kbind (get_proc i (\<lambda>q. q)) (\<lambda>q.
       if p_parent q = Some curproc then
         kbind (upd_proc i (\<lambda>q. q\<lparr>p_parent := init\<rparr>)) (\<lambda>_.
         if p_state q = ZOMBIE then wakeup1 (ChanProc (the init)) else kreturn ())
       else kreturn ())))"

definition exit_tail :: "nat \<Rightarrow> ('r proc_state_scheme, 'a) K" where
  "exit_tail curproc =
     kbind (get_proc curproc p_parent) (\<lambda>par.
     kbind (wakeup1 (ChanProc (the par))) (\<lambda>_.
     kbind (exit_reparent curproc) (\<lambda>_.
     kbind (upd_proc curproc (\<lambda>q. q\<lparr>p_state := ZOMBIE\<rparr>)) (\<lambda>_.
     kbind sched (\<lambda>_ :: unit.
     kpanic ''zombie exit'')))))"

definition exit :: "('r file_state_scheme, 'a) K" where
  "exit =
     kbind myproc (\<lambda>cp.
     kbind (kget initproc) (\<lambda>init.
     if cp = init then kpanic ''init exiting''
     else
       (let curproc = the cp in
        kbind (kfor [0 ..< NOFILE] (\<lambda>fd.
          kbind (get_proc curproc (\<lambda>q. p_ofile q ! fd)) (\<lambda>f.
          case f of
            None \<Rightarrow> kreturn ()
          | Some f' \<Rightarrow>
              kbind (fileclose f') (\<lambda>_.
              upd_proc curproc (\<lambda>q. q\<lparr>p_ofile := (p_ofile q)[fd := None]\<rparr>))))) (\<lambda>_.
        kbind begin_op (\<lambda>_.
        kbind (get_proc curproc p_cwd) (\<lambda>cwd.
        kbind (iput (the cwd)) (\<lambda>_.
        kbind end_op (\<lambda>_.
        kbind (upd_proc curproc (\<lambda>q. q\<lparr>p_cwd := None\<rparr>)) (\<lambda>_.
        kbind (acquire LPtable) (\<lambda>_.
        exit_tail curproc))))))))))"

text \<open>
  \<^verbatim>\<open>wait\<close>: one scan of the table, which returns a child that has exited, or reports that there is none, or
  sleeps until a child exits.
\<close>

definition wait_scan :: "nat \<Rightarrow> ('r proc_state_scheme, int) K" where
  "wait_scan curproc =
     kbind (kget ptable) (\<lambda>ps.
     case List.find (\<lambda>i. p_parent (ps ! i) = Some curproc \<and> p_state (ps ! i) = ZOMBIE) [0 ..< NPROC] of
       Some i \<Rightarrow>
         kbind (kfree (p_kstack (ps ! i))) (\<lambda>_.
         kbind (upd_proc i (\<lambda>q. q\<lparr>p_kstack := 0\<rparr>)) (\<lambda>_.
         kbind (freevm (p_pgdir (ps ! i))) (\<lambda>_.
         kbind (upd_proc i (\<lambda>q. q\<lparr>p_pid := 0, p_parent := None, p_name := [], p_killed := False, p_state := UNUSED\<rparr>)) (\<lambda>_.
         kbind (release LPtable) (\<lambda>_.
         kreturn (p_pid (ps ! i)))))))
     | None \<Rightarrow>
         if \<not> list_ex (\<lambda>i. p_parent (ps ! i) = Some curproc) [0 ..< NPROC] \<or> p_killed (ps ! curproc) then
           kbind (release LPtable) (\<lambda>_.
           kreturn (- 1))
         else sleep (ChanProc curproc) LPtable)"

definition wait :: "('r proc_state_scheme, int) K" where
  "wait =
     kbind myproc (\<lambda>cp.
     kbind (acquire LPtable) (\<lambda>_.
     wait_scan (the cp)))"

definition forkret :: "('r ker_state_scheme, unit) K" where
  "forkret =
     kbind (release LPtable) (\<lambda>_.
     kbind (kget forkret_first) (\<lambda>first.
     if first then
       kbind (kmod (\<lambda>s. s\<lparr>forkret_first := False\<rparr>)) (\<lambda>_.
       kbind (iinit ROOTDEV) (\<lambda>_.
       initlog ROOTDEV))
     else kreturn ()))"

end
