(* ===== verification/Uargs.thy ===== *)
theory Uargs
  imports Proc CString
begin

unbundle bit_operations_syntax

text \<open>
  How the kernel reads and writes the memory of the current process: the page walk the hardware makes through
  \<^verbatim>\<open>%cr3\<close>, and the functions of \<^verbatim>\<open>syscall.c\<close> that fetch the arguments of a system call. An access to a page
  that is not mapped is a page fault in kernel mode, for which \<^verbatim>\<open>trap\<close> panics.
\<close>

section \<open>User memory\<close>

definition pg_walk :: "(u32 \<Rightarrow> u32) \<Rightarrow> u32 \<Rightarrow> u32 \<Rightarrow> u32 option" where
  "pg_walk m pgdir va =
     (let pde = m (pgdir + 4 * PDX va) in
      if pde AND PTE_P = 0 then None
      else
        (let pte = m (P2V (PTE_ADDR pde) + 4 * PTX va) in
         if pte AND PTE_P = 0 then None else Some (P2V (PTE_ADDR pte) + (va AND 0xFFF))))"

definition load_user1 :: "u32 \<Rightarrow> ('r vm_state_scheme, byte) K" where
  "load_user1 va =
     ktry (kget (\<lambda>s. pg_walk (mem s) (P2V (cr3 s)) va)) (kpanic ''trap'') (\<lambda>a.
     kget (\<lambda>s. load_byte (mem s) a))"

definition store_user1 :: "u32 \<Rightarrow> byte \<Rightarrow> ('r vm_state_scheme, unit) K" where
  "store_user1 va b =
     ktry (kget (\<lambda>s. pg_walk (mem s) (P2V (cr3 s)) va)) (kpanic ''trap'') (\<lambda>a.
     kmod (\<lambda>s. s\<lparr>mem := store_byte (mem s) a b\<rparr>))"

fun load_user :: "u32 \<Rightarrow> nat \<Rightarrow> ('r vm_state_scheme, byte list) K" where
  "load_user va 0 = kreturn []"
| "load_user va (Suc n) =
     kbind (load_user1 va) (\<lambda>b.
     kbind (load_user (va + 1) n) (\<lambda>bs.
     kreturn (b # bs)))"

fun store_user :: "u32 \<Rightarrow> byte list \<Rightarrow> ('r vm_state_scheme, unit) K" where
  "store_user va [] = kreturn ()"
| "store_user va (b # bs) =
     kbind (store_user1 va b) (\<lambda>_.
     store_user (va + 1) bs)"

section \<open>System call arguments\<close>

text \<open>A failed fetch, return value -1, is \<open>None\<close>; otherwise the result is what the C function stores through its
  pointer argument.\<close>

definition fetchint :: "u32 \<Rightarrow> ('r proc_state_scheme, u32 option) K" where
  "fetchint addr =
     kbind myproc (\<lambda>cp.
     kbind (get_proc (the cp) p_sz) (\<lambda>sz.
     if sz \<le> addr \<or> sz < addr + 4 then kreturn None
     else
       kbind (load_user addr 4) (\<lambda>bs.
       kreturn (Some (of_nat (le_dec bs))))))"

text \<open>The scan of \<^verbatim>\<open>fetchstr\<close> over the \<open>n\<close> bytes up to the end of the process.\<close>

fun scan_str :: "u32 \<Rightarrow> nat \<Rightarrow> ('r vm_state_scheme, byte list option) K" where
  "scan_str s 0 = kreturn None"
| "scan_str s (Suc n) =
     kbind (load_user1 s) (\<lambda>b.
     if b = 0 then kreturn (Some [])
     else
       kbind (scan_str (s + 1) n) (\<lambda>r.
       kreturn (map_option (\<lambda>bs. b # bs) r)))"

definition fetchstr :: "u32 \<Rightarrow> ('r proc_state_scheme, byte list option) K" where
  "fetchstr addr =
     kbind myproc (\<lambda>cp.
     kbind (get_proc (the cp) p_sz) (\<lambda>sz.
     if sz \<le> addr then kreturn None
     else scan_str addr (unat sz - unat addr)))"

definition argint :: "u32 \<Rightarrow> ('r proc_state_scheme, u32 option) K" where
  "argint n =
     kbind myproc (\<lambda>cp.
     kbind (get_proc (the cp) (\<lambda>q. tf_esp (p_tf q))) (\<lambda>esp.
     fetchint (esp + 4 + 4 * n)))"

definition argptr :: "u32 \<Rightarrow> u32 \<Rightarrow> ('r proc_state_scheme, u32 option) K" where
  "argptr n len =
     kbind myproc (\<lambda>cp.
     ktry (argint n) (kreturn None) (\<lambda>i.
     kbind (get_proc (the cp) p_sz) (\<lambda>sz.
     if sint len < 0 \<or> sz \<le> i \<or> sz < i + len then kreturn None
     else kreturn (Some i))))"

definition argstr :: "u32 \<Rightarrow> ('r proc_state_scheme, byte list option) K" where
  "argstr n = ktry (argint n) (kreturn None) fetchstr"

end
