(* ===== verification/Exec.thy ===== *)
theory Exec
  imports Dir Uargs
begin

unbundle bit_operations_syntax

text \<open>
  Loading a program: \<^verbatim>\<open>exec.c\<close>, \<^verbatim>\<open>loaduvm\<close> of \<^verbatim>\<open>vm.c\<close> and the formats of \<^verbatim>\<open>elf.h\<close>. The argument vector is the list
  of its strings. A jump to the label \<^verbatim>\<open>bad\<close> is a call of \<open>exec_bad\<close>.
\<close>

section \<open>ELF headers\<close>

definition MAXARG :: nat where "MAXARG = 32"
definition ELF_MAGIC :: u32 where "ELF_MAGIC = 0x464C457F"
definition ELF_PROG_LOAD :: u32 where "ELF_PROG_LOAD = 1"

record elfhdr =
  eh_magic :: u32
  eh_entry :: u32
  eh_phoff :: u32
  eh_phnum :: nat

record proghdr =
  ph_type :: u32
  ph_off :: u32
  ph_vaddr :: u32
  ph_filesz :: u32
  ph_memsz :: u32

definition word_at :: "byte list \<Rightarrow> nat \<Rightarrow> u32" where
  "word_at bs i = of_nat (le_dec (take 4 (drop i bs)))"

definition ELFHDR_SIZE :: nat where "ELFHDR_SIZE = 52"
definition PROGHDR_SIZE :: nat where "PROGHDR_SIZE = 32"

definition dec_elfhdr :: "byte list \<Rightarrow> elfhdr" where
  "dec_elfhdr bs = \<lparr>eh_magic = word_at bs 0, eh_entry = word_at bs 24, eh_phoff = word_at bs 28,
     eh_phnum = le_dec (take 2 (drop 44 bs))\<rparr>"

definition dec_proghdr :: "byte list \<Rightarrow> proghdr" where
  "dec_proghdr bs = \<lparr>ph_type = word_at bs 0, ph_off = word_at bs 4, ph_vaddr = word_at bs 8,
     ph_filesz = word_at bs 16, ph_memsz = word_at bs 20\<rparr>"

section \<open>Loading a segment\<close>

definition loaduvm ::
  "'r fs_state_scheme devsw \<Rightarrow> u32 \<Rightarrow> u32 \<Rightarrow> nat \<Rightarrow> u32 \<Rightarrow> u32 \<Rightarrow> ('r fs_state_scheme, int) K" where
  "loaduvm devsw pgdir addr ip offset sz =
     (if addr mod PGSIZE \<noteq> 0 then kpanic ''loaduvm: addr must be page aligned''
      else
        kbind (kfirst [0 ..< (unat sz + 4095) div 4096] (\<lambda>k.
          (let i = of_nat k * PGSIZE in
           ktry (walkpgdir pgdir (addr + i) False) (kpanic ''loaduvm: address should exist'') (\<lambda>pte.
           kbind (kget (\<lambda>s. PTE_ADDR (mem s pte))) (\<lambda>pa.
           (let n = (if sz - i < PGSIZE then sz - i else PGSIZE) in
            kbind (readi devsw ip (unat (offset + i)) (unat n)) (\<lambda>(r, bs).
            kbind (kmod (\<lambda>s. s\<lparr>mem := store_bytes (mem s) (P2V pa) bs\<rparr>)) (\<lambda>_.
            kreturn (if r \<noteq> int (unat n) then Some (- 1) else None))))))))) (\<lambda>r.
        kreturn (case r of None \<Rightarrow> 0 | Some e \<Rightarrow> e)))"

section \<open>exec\<close>

definition exec_bad :: "u32 \<Rightarrow> nat option \<Rightarrow> ('r fs_state_scheme, int) K" where
  "exec_bad pgdir ip =
     kbind (if pgdir \<noteq> 0 then freevm pgdir else kreturn ()) (\<lambda>_.
     kbind (case ip of
              None \<Rightarrow> kreturn ()
            | Some i \<Rightarrow> kbind (iunlockput i) (\<lambda>_. end_op)) (\<lambda>_.
     kreturn (- 1)))"

text \<open>The loop over the program headers: \<open>n\<close> headers from file offset \<open>off\<close> on, the size reached so far.\<close>

fun exec_load ::
  "'r fs_state_scheme devsw \<Rightarrow> u32 \<Rightarrow> nat \<Rightarrow> nat \<Rightarrow> u32 \<Rightarrow> u32 \<Rightarrow> ('r fs_state_scheme, u32 option) K" where
  "exec_load devsw pgdir ip 0 off sz = kreturn (Some sz)"
| "exec_load devsw pgdir ip (Suc n) off sz =
     kbind (readi devsw ip (unat off) PROGHDR_SIZE) (\<lambda>(r, bs).
     if r \<noteq> int PROGHDR_SIZE then kreturn None
     else
       (let ph = dec_proghdr bs; next_off = off + of_nat PROGHDR_SIZE in
        if ph_type ph \<noteq> ELF_PROG_LOAD then exec_load devsw pgdir ip n next_off sz
        else if ph_memsz ph < ph_filesz ph then kreturn None
        else if ph_vaddr ph + ph_memsz ph < ph_vaddr ph then kreturn None
        else
          kbind (allocuvm pgdir sz (ph_vaddr ph + ph_memsz ph)) (\<lambda>sz'.
          if sz' = 0 then kreturn None
          else if ph_vaddr ph mod PGSIZE \<noteq> 0 then kreturn None
          else
            kbind (loaduvm devsw pgdir (ph_vaddr ph) ip (ph_off ph) (ph_filesz ph)) (\<lambda>l.
            if l < 0 then kreturn None
            else exec_load devsw pgdir ip n next_off sz'))))"

text \<open>What a read through a null page table pointer in \<^verbatim>\<open>uva2ka\<close> finds: the word at address 0 of the current
  process.\<close>

definition null_word :: "'r vm_state_scheme \<Rightarrow> u32" where
  "null_word s = (case pg_walk (mem s) (P2V (cr3 s)) 0 of None \<Rightarrow> 0 | Some a \<Rightarrow> mem s a)"

definition copyout_k :: "u32 \<Rightarrow> u32 \<Rightarrow> byte list \<Rightarrow> ('r vm_state_scheme, int) K" where
  "copyout_k pgdir va buf = kbind (kget null_word) (\<lambda>w. copyout w pgdir va buf)"

text \<open>The loop that pushes the argument strings: their addresses and the stack pointer.\<close>

fun exec_args :: "u32 \<Rightarrow> nat \<Rightarrow> u32 \<Rightarrow> byte list list \<Rightarrow> ('r vm_state_scheme, (u32 list \<times> u32) option) K" where
  "exec_args pgdir argc sp [] = kreturn (Some ([], sp))"
| "exec_args pgdir argc sp (a # as) =
     (if MAXARG \<le> argc then kreturn None
      else
        (let sp' = (sp - (of_nat (length a) + 1)) AND NOT 3 in
         kbind (copyout_k pgdir sp' (a @ [0])) (\<lambda>r.
         if r < 0 then kreturn None
         else
           ktry (exec_args pgdir (argc + 1) sp' as) (kreturn None) (\<lambda>(us, sp'').
           kreturn (Some (sp' # us, sp''))))))"

definition ustack_bytes :: "u32 list \<Rightarrow> u32 \<Rightarrow> byte list" where
  "ustack_bytes us sp =
     concat (map (\<lambda>w. le_enc 4 (unat w))
       ([0xFFFFFFFF, of_nat (length us), sp - (of_nat (length us) + 1) * 4] @ us @ [0]))"

text \<open>\<^verbatim>\<open>for(last=s=path; *s; s++) if(*s == '/') last = s+1;\<close>\<close>

fun last_elem :: "byte list \<Rightarrow> byte list \<Rightarrow> byte list" where
  "last_elem l [] = l"
| "last_elem l (c # s) = last_elem (if c = slash then s else l) s"

definition exec_commit :: "nat option \<Rightarrow> byte list \<Rightarrow> elfhdr \<Rightarrow> u32 \<Rightarrow> u32 \<Rightarrow> u32 \<Rightarrow> ('r proc_state_scheme, int) K" where
  "exec_commit cp path elf pgdir sz sp =
     (let p = the cp in
      kbind (upd_proc p (\<lambda>q. q\<lparr>p_name := cstr (safestrcpy (last_elem path path) 16)\<rparr>)) (\<lambda>_.
      kbind (get_proc p p_pgdir) (\<lambda>oldpgdir.
      kbind (upd_proc p (\<lambda>q. q\<lparr>p_sz := sz, p_pgdir := pgdir, p_tf := (p_tf q)\<lparr>tf_eip := eh_entry elf, tf_esp := sp\<rparr>\<rparr>)) (\<lambda>_.
      kbind (switchuvm cp) (\<lambda>_.
      kbind (freevm oldpgdir) (\<lambda>_.
      kreturn 0))))))"

definition exec_stack ::
  "nat option \<Rightarrow> byte list \<Rightarrow> byte list list \<Rightarrow> elfhdr \<Rightarrow> u32 \<Rightarrow> u32 \<Rightarrow> ('r fs_state_scheme, int) K" where
  "exec_stack cp path argv elf pgdir sz0 =
     (let sz1 = PGROUNDUP sz0 in
      kbind (allocuvm pgdir sz1 (sz1 + 2 * PGSIZE)) (\<lambda>sz.
      if sz = 0 then exec_bad pgdir None
      else
        kbind (clearpteu pgdir (sz - 2 * PGSIZE)) (\<lambda>_.
        ktry (exec_args pgdir 0 sz argv) (exec_bad pgdir None) (\<lambda>(us, sp1).
        (let sp = sp1 - (3 + of_nat (length us) + 1) * 4 in
         kbind (copyout_k pgdir sp (ustack_bytes us sp1)) (\<lambda>r.
         if r < 0 then exec_bad pgdir None
         else exec_commit cp path elf pgdir sz sp))))))"

definition exec ::
  "'r fs_state_scheme devsw \<Rightarrow> byte list \<Rightarrow> byte list list \<Rightarrow> ('r fs_state_scheme, int) K" where
  "exec devsw path argv =
     kbind myproc (\<lambda>cp.
     kbind begin_op (\<lambda>_.
     ktry (namei devsw path) (kbind end_op (\<lambda>_. kreturn (- 1))) (\<lambda>ip.
     kbind (ilock ip) (\<lambda>_.
     kbind (readi devsw ip 0 ELFHDR_SIZE) (\<lambda>(r, bs).
     if r \<noteq> int ELFHDR_SIZE then exec_bad 0 (Some ip)
     else
       (let elf = dec_elfhdr bs in
        if eh_magic elf \<noteq> ELF_MAGIC then exec_bad 0 (Some ip)
        else
          kbind setupkvm (\<lambda>pgdir.
          if pgdir = 0 then exec_bad 0 (Some ip)
          else
            ktry (exec_load devsw pgdir ip (eh_phnum elf) (eh_phoff elf) 0) (exec_bad pgdir (Some ip)) (\<lambda>sz.
            kbind (iunlockput ip) (\<lambda>_.
            kbind end_op (\<lambda>_.
            exec_stack cp path argv elf pgdir sz))))))))))"

end
