(* ===== verification/Sysfile.thy ===== *)
theory Sysfile
  imports Process Exec
begin

unbundle bit_operations_syntax

text \<open>
  The system calls on files (\<^verbatim>\<open>sysfile.c\<close>). Each fetches its arguments from the user stack and returns the value
  that \<^verbatim>\<open>syscall\<close> stores in \<^verbatim>\<open>%eax\<close>. The result of a failing step is -1; \<open>ktry\<close> chains the steps.
\<close>

section \<open>File descriptors\<close>

definition argfd :: "u32 \<Rightarrow> ('r proc_state_scheme, (nat \<times> nat) option) K" where
  "argfd n =
     ktry (argint n) (kreturn None) (\<lambda>w.
     (let fd = sint w in
      if fd < 0 \<or> int NOFILE \<le> fd then kreturn None
      else
        kbind myproc (\<lambda>cp.
        kbind (get_proc (the cp) (\<lambda>q. p_ofile q ! nat fd)) (\<lambda>f.
        kreturn (map_option (\<lambda>f. (nat fd, f)) f)))))"

definition set_ofile :: "nat \<Rightarrow> nat option \<Rightarrow> ('r proc_state_scheme, unit) K" where
  "set_ofile fd f =
     kbind myproc (\<lambda>cp.
     upd_proc (the cp) (\<lambda>q. q\<lparr>p_ofile := (p_ofile q)[fd := f]\<rparr>))"

definition fdalloc :: "nat \<Rightarrow> ('r proc_state_scheme, nat option) K" where
  "fdalloc f =
     kbind myproc (\<lambda>cp.
     kbind (get_proc (the cp) (\<lambda>q. List.find (\<lambda>fd. p_ofile q ! fd = None) [0 ..< NOFILE])) (\<lambda>r.
     case r of
       None \<Rightarrow> kreturn None
     | Some fd \<Rightarrow>
         kbind (upd_proc (the cp) (\<lambda>q. q\<lparr>p_ofile := (p_ofile q)[fd := Some f]\<rparr>)) (\<lambda>_.
         kreturn (Some fd))))"

definition sys_dup :: "('r file_state_scheme, int) K" where
  "sys_dup =
     ktry (argfd 0) (kreturn (- 1)) (\<lambda>(ofd, f).
     ktry (fdalloc f) (kreturn (- 1)) (\<lambda>fd.
     kbind (filedup f) (\<lambda>_.
     kreturn (int fd))))"

definition sys_read :: "'r file_state_scheme devsw \<Rightarrow> ('r file_state_scheme, int) K" where
  "sys_read devsw =
     ktry (argfd 0) (kreturn (- 1)) (\<lambda>(fd, f).
     ktry (argint 2) (kreturn (- 1)) (\<lambda>n.
     ktry (argptr 1 n) (kreturn (- 1)) (\<lambda>p.
     kbind (fileread devsw f (sint n)) (\<lambda>(r, bs).
     kbind (store_user p bs) (\<lambda>_.
     kreturn r)))))"

definition sys_write :: "'r file_state_scheme devsw \<Rightarrow> ('r file_state_scheme, int) K" where
  "sys_write devsw =
     ktry (argfd 0) (kreturn (- 1)) (\<lambda>(fd, f).
     ktry (argint 2) (kreturn (- 1)) (\<lambda>n.
     ktry (argptr 1 n) (kreturn (- 1)) (\<lambda>p.
     kbind (load_user p (unat n)) (\<lambda>bs.
     filewrite devsw f bs))))"

definition sys_close :: "('r file_state_scheme, int) K" where
  "sys_close =
     ktry (argfd 0) (kreturn (- 1)) (\<lambda>(fd, f).
     kbind (set_ofile fd None) (\<lambda>_.
     kbind (fileclose f) (\<lambda>_.
     kreturn 0)))"

text \<open>\<^verbatim>\<open>struct stat\<close> in memory: the fields at offsets 0, 4, 8, 12 and 16, 20 bytes in all.\<close>

definition store_stat :: "u32 \<Rightarrow> stat \<Rightarrow> ('r vm_state_scheme, unit) K" where
  "store_stat p st =
     kbind (store_user p (enc16 (st_type st))) (\<lambda>_.
     kbind (store_user (p + 4) (le_enc 4 (st_dev st))) (\<lambda>_.
     kbind (store_user (p + 8) (le_enc 4 (st_ino st))) (\<lambda>_.
     kbind (store_user (p + 12) (enc16 (st_nlink st))) (\<lambda>_.
     store_user (p + 16) (le_enc 4 (st_size st))))))"

definition sys_fstat :: "('r file_state_scheme, int) K" where
  "sys_fstat =
     ktry (argfd 0) (kreturn (- 1)) (\<lambda>(fd, f).
     ktry (argptr 1 20) (kreturn (- 1)) (\<lambda>p.
     kbind (filestat f) (\<lambda>(r, st).
     kbind (case st of None \<Rightarrow> kreturn () | Some st' \<Rightarrow> store_stat p st') (\<lambda>_.
     kreturn r))))"

section \<open>Links\<close>

text \<open>\<^verbatim>\<open>ip->nlink++\<close> and \<^verbatim>\<open>ip->nlink--\<close> on a \<^verbatim>\<open>short\<close>.\<close>

definition add_nlink :: "int \<Rightarrow> nat \<Rightarrow> ('r fs_state_scheme, unit) K" where
  "add_nlink d ip = upd_ino ip (\<lambda>p. p\<lparr>i_nlink := s16 (i_nlink p + d)\<rparr>)"

definition link_bad :: "nat \<Rightarrow> ('r fs_state_scheme, int) K" where
  "link_bad ip =
     kbind (ilock ip) (\<lambda>_.
     kbind (add_nlink (- 1) ip) (\<lambda>_.
     kbind (iupdate ip) (\<lambda>_.
     kbind (iunlockput ip) (\<lambda>_.
     kbind end_op (\<lambda>_.
     kreturn (- 1))))))"

definition end_fail :: "('r log_state_scheme, int) K" where
  "end_fail = kbind end_op (\<lambda>_. kreturn (- 1))"

definition sys_link :: "'r fs_state_scheme devsw \<Rightarrow> ('r fs_state_scheme, int) K" where
  "sys_link devsw =
     ktry (argstr 0) (kreturn (- 1)) (\<lambda>old.
     ktry (argstr 1) (kreturn (- 1)) (\<lambda>new.
     kbind begin_op (\<lambda>_.
     ktry (namei devsw old) end_fail (\<lambda>ip.
     kbind (ilock ip) (\<lambda>_.
     kbind (get_ino ip i_type) (\<lambda>type.
     if type = T_DIR then
       kbind (iunlockput ip) (\<lambda>_.
       end_fail)
     else
       kbind (add_nlink 1 ip) (\<lambda>_.
       kbind (iupdate ip) (\<lambda>_.
       kbind (iunlock ip) (\<lambda>_.
       ktry (nameiparent devsw new) (link_bad ip) (\<lambda>(dp, name).
       kbind (ilock dp) (\<lambda>_.
       kbind (kget (\<lambda>s. (i_dev (icache s ! dp), i_dev (icache s ! ip), i_inum (icache s ! ip)))) (\<lambda>(ddev, idev, inum).
       kbind (if ddev \<noteq> idev then kreturn (- 1) else dirlink devsw dp name inum) (\<lambda>r.
       if r < 0 then
         kbind (iunlockput dp) (\<lambda>_.
         link_bad ip)
       else
         kbind (iunlockput dp) (\<lambda>_.
         kbind (iput ip) (\<lambda>_.
         kbind end_op (\<lambda>_.
         kreturn 0))))))))))))))))"

text \<open>The offsets \<^verbatim>\<open>isdirempty\<close> looks at: the entries after \<^verbatim>\<open>.\<close> and \<^verbatim>\<open>..\<close>\<close>

definition isdirempty :: "'r fs_state_scheme devsw \<Rightarrow> nat \<Rightarrow> ('r fs_state_scheme, bool) K" where
  "isdirempty devsw dp =
     kbind (get_ino dp i_size) (\<lambda>sz.
     kbind (kfirst (filter (\<lambda>off. 2 * DIRENT_SIZE \<le> off) (dir_offs sz)) (\<lambda>off.
       kbind (read_dirent devsw ''isdirempty: readi'' dp off) (\<lambda>de.
       kreturn (if de_inum de \<noteq> 0 then Some () else None)))) (\<lambda>r.
     kreturn (r = None)))"

definition unlink_bad :: "nat \<Rightarrow> ('r fs_state_scheme, int) K" where
  "unlink_bad dp =
     kbind (iunlockput dp) (\<lambda>_.
     end_fail)"

definition dot :: "byte list" where "dot = [46]"
definition dotdot :: "byte list" where "dotdot = [46, 46]"

text \<open>From the point where the directory \<open>dp\<close> and the entry's inode \<open>ip\<close> are locked.\<close>

definition unlink_entry :: "'r fs_state_scheme devsw \<Rightarrow> nat \<Rightarrow> nat \<Rightarrow> nat \<Rightarrow> ('r fs_state_scheme, int) K" where
  "unlink_entry devsw dp ip off =
     kbind (get_ino ip (\<lambda>p. (i_nlink p, i_type p))) (\<lambda>(nlink, type).
     if nlink < 1 then kpanic ''unlink: nlink < 1''
     else
       kbind (if type = T_DIR then isdirempty devsw ip else kreturn True) (\<lambda>empty.
       if \<not> empty then
         kbind (iunlockput ip) (\<lambda>_.
         unlink_bad dp)
       else
         kbind (writei devsw dp (replicate DIRENT_SIZE 0) off) (\<lambda>r.
         if r \<noteq> int DIRENT_SIZE then kpanic ''unlink: writei''
         else
           kbind (if type = T_DIR then kbind (add_nlink (- 1) dp) (\<lambda>_. iupdate dp) else kreturn ()) (\<lambda>_.
           kbind (iunlockput dp) (\<lambda>_.
           kbind (add_nlink (- 1) ip) (\<lambda>_.
           kbind (iupdate ip) (\<lambda>_.
           kbind (iunlockput ip) (\<lambda>_.
           kbind end_op (\<lambda>_.
           kreturn 0)))))))))"

definition sys_unlink :: "'r fs_state_scheme devsw \<Rightarrow> ('r fs_state_scheme, int) K" where
  "sys_unlink devsw =
     ktry (argstr 0) (kreturn (- 1)) (\<lambda>path.
     kbind begin_op (\<lambda>_.
     ktry (nameiparent devsw path) end_fail (\<lambda>(dp, name).
     kbind (ilock dp) (\<lambda>_.
     if namecmp name dot = 0 \<or> namecmp name dotdot = 0 then unlink_bad dp
     else
       ktry (dirlookup devsw dp name) (unlink_bad dp) (\<lambda>(ip, off).
       kbind (ilock ip) (\<lambda>_.
       unlink_entry devsw dp ip off))))))"

section \<open>Creating and opening\<close>

text \<open>\<^verbatim>\<open>create\<close> after \<^verbatim>\<open>ialloc\<close>, with the parent directory \<open>dp\<close> locked.\<close>

definition create_new ::
  "'r fs_state_scheme devsw \<Rightarrow> nat \<Rightarrow> byte list \<Rightarrow> int \<Rightarrow> int \<Rightarrow> int \<Rightarrow> nat \<Rightarrow> ('r fs_state_scheme, nat option) K" where
  "create_new devsw dp name type major minor ip =
     kbind (ilock ip) (\<lambda>_.
     kbind (upd_ino ip (\<lambda>p. p\<lparr>i_major := major, i_minor := minor, i_nlink := 1\<rparr>)) (\<lambda>_.
     kbind (iupdate ip) (\<lambda>_.
     kbind (get_ino ip i_inum) (\<lambda>inum.
     kbind (if type = T_DIR then
              kbind (add_nlink 1 dp) (\<lambda>_.
              kbind (iupdate dp) (\<lambda>_.
              kbind (dirlink devsw ip dot inum) (\<lambda>r.
              if r < 0 then kpanic ''create dots''
              else
                kbind (get_ino dp i_inum) (\<lambda>dinum.
                kbind (dirlink devsw ip dotdot dinum) (\<lambda>r.
                if r < 0 then kpanic ''create dots'' else kreturn ())))))
            else kreturn ()) (\<lambda>_.
     kbind (dirlink devsw dp name inum) (\<lambda>r.
     if r < 0 then kpanic ''create: dirlink''
     else
       kbind (iunlockput dp) (\<lambda>_.
       kreturn (Some ip))))))))"

definition create ::
  "'r fs_state_scheme devsw \<Rightarrow> byte list \<Rightarrow> int \<Rightarrow> int \<Rightarrow> int \<Rightarrow> ('r fs_state_scheme, nat option) K" where
  "create devsw path type major minor =
     ktry (nameiparent devsw path) (kreturn None) (\<lambda>(dp, name).
     kbind (ilock dp) (\<lambda>_.
     kbind (dirlookup devsw dp name) (\<lambda>found.
     case found of
       Some (ip, off) \<Rightarrow>
         kbind (iunlockput dp) (\<lambda>_.
         kbind (ilock ip) (\<lambda>_.
         kbind (get_ino ip i_type) (\<lambda>t.
         if type = T_FILE \<and> t = T_FILE then kreturn (Some ip)
         else
           kbind (iunlockput ip) (\<lambda>_.
           kreturn None))))
     | None \<Rightarrow>
         kbind (get_ino dp i_dev) (\<lambda>dev.
         kbind (ialloc dev type) (\<lambda>ip.
         create_new devsw dp name type major minor ip)))))"

definition O_RDONLY :: u32 where "O_RDONLY = 0x000"
definition O_WRONLY :: u32 where "O_WRONLY = 0x001"
definition O_RDWR :: u32 where "O_RDWR = 0x002"
definition O_CREATE :: u32 where "O_CREATE = 0x200"

text \<open>The inode \<^verbatim>\<open>sys_open\<close> opens, locked; \<open>None\<close> when the call has failed and the transaction is over.\<close>

definition open_inode :: "'r fs_state_scheme devsw \<Rightarrow> byte list \<Rightarrow> u32 \<Rightarrow> ('r fs_state_scheme, nat option) K" where
  "open_inode devsw path omode =
     (if omode AND O_CREATE \<noteq> 0 then
        ktry (create devsw path T_FILE 0 0) (kbind end_op (\<lambda>_. kreturn None)) (\<lambda>ip.
        kreturn (Some ip))
      else
        ktry (namei devsw path) (kbind end_op (\<lambda>_. kreturn None)) (\<lambda>ip.
        kbind (ilock ip) (\<lambda>_.
        kbind (get_ino ip i_type) (\<lambda>type.
        if type = T_DIR \<and> omode \<noteq> O_RDONLY then
          kbind (iunlockput ip) (\<lambda>_.
          kbind end_op (\<lambda>_.
          kreturn None))
        else kreturn (Some ip)))))"

definition open_fail :: "nat option \<Rightarrow> nat \<Rightarrow> ('r file_state_scheme, int) K" where
  "open_fail f ip =
     kbind (case f of None \<Rightarrow> kreturn () | Some f' \<Rightarrow> fileclose f') (\<lambda>_.
     kbind (iunlockput ip) (\<lambda>_.
     end_fail))"

definition sys_open :: "'r file_state_scheme devsw \<Rightarrow> ('r file_state_scheme, int) K" where
  "sys_open devsw =
     ktry (argstr 0) (kreturn (- 1)) (\<lambda>path.
     ktry (argint 1) (kreturn (- 1)) (\<lambda>omode.
     kbind begin_op (\<lambda>_.
     ktry (open_inode devsw path omode) (kreturn (- 1)) (\<lambda>ip.
     ktry filealloc (open_fail None ip) (\<lambda>f.
     ktry (fdalloc f) (open_fail (Some f) ip) (\<lambda>fd.
     kbind (iunlock ip) (\<lambda>_.
     kbind end_op (\<lambda>_.
     kbind (upd_file f (\<lambda>x. x\<lparr>f_type := FD_INODE, f_ip := ip, f_off := 0,
         f_readable := (omode AND O_WRONLY = 0),
         f_writable := (omode AND O_WRONLY \<noteq> 0 \<or> omode AND O_RDWR \<noteq> 0)\<rparr>)) (\<lambda>_.
     kreturn (int fd))))))))))"

definition sys_mkdir :: "'r fs_state_scheme devsw \<Rightarrow> ('r fs_state_scheme, int) K" where
  "sys_mkdir devsw =
     kbind begin_op (\<lambda>_.
     ktry (argstr 0) end_fail (\<lambda>path.
     ktry (create devsw path T_DIR 0 0) end_fail (\<lambda>ip.
     kbind (iunlockput ip) (\<lambda>_.
     kbind end_op (\<lambda>_.
     kreturn 0)))))"

definition sys_mknod :: "'r fs_state_scheme devsw \<Rightarrow> ('r fs_state_scheme, int) K" where
  "sys_mknod devsw =
     kbind begin_op (\<lambda>_.
     ktry (argstr 0) end_fail (\<lambda>path.
     ktry (argint 1) end_fail (\<lambda>major.
     ktry (argint 2) end_fail (\<lambda>minor.
     ktry (create devsw path T_DEV (s16 (sint major)) (s16 (sint minor))) end_fail (\<lambda>ip.
     kbind (iunlockput ip) (\<lambda>_.
     kbind end_op (\<lambda>_.
     kreturn 0)))))))"

definition sys_chdir :: "'r fs_state_scheme devsw \<Rightarrow> ('r fs_state_scheme, int) K" where
  "sys_chdir devsw =
     kbind myproc (\<lambda>cp.
     kbind begin_op (\<lambda>_.
     ktry (argstr 0) end_fail (\<lambda>path.
     ktry (namei devsw path) end_fail (\<lambda>ip.
     kbind (ilock ip) (\<lambda>_.
     kbind (get_ino ip i_type) (\<lambda>type.
     if type \<noteq> T_DIR then
       kbind (iunlockput ip) (\<lambda>_.
       end_fail)
     else
       kbind (iunlock ip) (\<lambda>_.
       kbind (get_proc (the cp) p_cwd) (\<lambda>cwd.
       kbind (iput (the cwd)) (\<lambda>_.
       kbind end_op (\<lambda>_.
       kbind (upd_proc (the cp) (\<lambda>q. q\<lparr>p_cwd := Some ip\<rparr>)) (\<lambda>_.
       kreturn 0)))))))))))"

section \<open>exec and pipe\<close>

text \<open>The loop of \<^verbatim>\<open>sys_exec\<close> that fetches the argument strings; \<open>k\<close> is \<^verbatim>\<open>NELEM(argv) - i\<close>.\<close>

fun fetch_argv :: "nat \<Rightarrow> u32 \<Rightarrow> ('r proc_state_scheme, byte list list option) K" where
  "fetch_argv 0 uargv = kreturn None"
| "fetch_argv (Suc k) uargv =
     ktry (fetchint uargv) (kreturn None) (\<lambda>uarg.
     if uarg = 0 then kreturn (Some [])
     else
       ktry (fetchstr uarg) (kreturn None) (\<lambda>a.
       ktry (fetch_argv k (uargv + 4)) (kreturn None) (\<lambda>as.
       kreturn (Some (a # as)))))"

definition sys_exec :: "'r fs_state_scheme devsw \<Rightarrow> ('r fs_state_scheme, int) K" where
  "sys_exec devsw =
     ktry (argstr 0) (kreturn (- 1)) (\<lambda>path.
     ktry (argint 1) (kreturn (- 1)) (\<lambda>uargv.
     ktry (fetch_argv MAXARG uargv) (kreturn (- 1)) (\<lambda>argv.
     exec devsw path argv)))"

definition pipe_fail :: "nat option \<Rightarrow> nat \<Rightarrow> nat \<Rightarrow> ('r file_state_scheme, int) K" where
  "pipe_fail fd0 rf wfile =
     kbind (case fd0 of None \<Rightarrow> kreturn () | Some fd \<Rightarrow> set_ofile fd None) (\<lambda>_.
     kbind (fileclose rf) (\<lambda>_.
     kbind (fileclose wfile) (\<lambda>_.
     kreturn (- 1))))"

definition sys_pipe :: "('r file_state_scheme, int) K" where
  "sys_pipe =
     ktry (argptr 0 8) (kreturn (- 1)) (\<lambda>fd.
     ktry pipealloc (kreturn (- 1)) (\<lambda>(rf, wfile).
     ktry (fdalloc rf) (pipe_fail None rf wfile) (\<lambda>fd0.
     ktry (fdalloc wfile) (pipe_fail (Some fd0) rf wfile) (\<lambda>fd1.
     kbind (store_user fd (le_enc 4 fd0)) (\<lambda>_.
     kbind (store_user (fd + 4) (le_enc 4 fd1)) (\<lambda>_.
     kreturn 0))))))"

end
