(* ===== verification/Kbd.thy ===== *)
theory Kbd
  imports Prelude
begin

unbundle bit_operations_syntax

text \<open>
  The keyboard (\<^verbatim>\<open>kbd.c\<close>, \<^verbatim>\<open>kbd.h\<close>): the scan code tables and the translation of scan codes to characters. A
  designated initialiser \<^verbatim>\<open>[k] v\<close> of a C table is an entry of the association list, which takes precedence over the
  positional entries; entries that are not given are 0.
\<close>

section \<open>Tables\<close>

definition SHIFT :: u32 where "SHIFT = 1"
definition CTL :: u32 where "CTL = 2"
definition ALT :: u32 where "ALT = 4"
definition CAPSLOCK :: u32 where "CAPSLOCK = 8"
definition NUMLOCK :: u32 where "NUMLOCK = 16"
definition SCROLLLOCK :: u32 where "SCROLLLOCK = 32"
definition E0ESC :: u32 where "E0ESC = 64"

definition shiftcode :: "nat \<Rightarrow> nat" where
  "shiftcode k =
     (case map_of [(0x1d, 0x2), (0x2a, 0x1), (0x36, 0x1), (0x38, 0x4), (0x9d, 0x2), (0xb8, 0x4)] k of
        Some v \<Rightarrow> v
      | None \<Rightarrow> 0)"

definition togglecode :: "nat \<Rightarrow> nat" where
  "togglecode k =
     (case map_of [(0x3a, 0x8), (0x45, 0x10), (0x46, 0x20)] k of
        Some v \<Rightarrow> v
      | None \<Rightarrow> 0)"

definition normalmap :: "nat \<Rightarrow> nat" where
  "normalmap k =
     (case map_of [(0x9c, 0xa), (0xb5, 0x2f), (0xc8, 0xe2), (0xd0, 0xe3), (0xc9, 0xe6), (0xd1, 0xe7), (0xcb, 0xe4), (0xcd, 0xe5), (0x97, 0xe0), (0xcf, 0xe1), (0xd2, 0xe8), (0xd3, 0xe9)] k of
        Some v \<Rightarrow> v
      | None \<Rightarrow> (let row = [
          0, 27, 49, 50, 51, 52, 53, 54, 55, 56, 57, 48, 45, 61, 8, 9,
          113, 119, 101, 114, 116, 121, 117, 105, 111, 112, 91, 93, 10, 0, 97, 115,
          100, 102, 103, 104, 106, 107, 108, 59, 39, 96, 0, 92, 122, 120, 99, 118,
          98, 110, 109, 44, 46, 47, 0, 42, 0, 32, 0, 0, 0, 0, 0, 0,
          0, 0, 0, 0, 0, 0, 0, 55, 56, 57, 45, 52, 53, 54, 43, 49,
          50, 51, 48, 46, 0, 0, 0, 0] in
          if k < length row then row ! k else 0))"

definition shiftmap :: "nat \<Rightarrow> nat" where
  "shiftmap k =
     (case map_of [(0x9c, 0xa), (0xb5, 0x2f), (0xc8, 0xe2), (0xd0, 0xe3), (0xc9, 0xe6), (0xd1, 0xe7), (0xcb, 0xe4), (0xcd, 0xe5), (0x97, 0xe0), (0xcf, 0xe1), (0xd2, 0xe8), (0xd3, 0xe9)] k of
        Some v \<Rightarrow> v
      | None \<Rightarrow> (let row = [
          0, 27, 33, 64, 35, 36, 37, 94, 38, 42, 40, 41, 95, 43, 8, 9,
          81, 87, 69, 82, 84, 89, 85, 73, 79, 80, 123, 125, 10, 0, 65, 83,
          68, 70, 71, 72, 74, 75, 76, 58, 34, 126, 0, 124, 90, 88, 67, 86,
          66, 78, 77, 60, 62, 63, 0, 42, 0, 32, 0, 0, 0, 0, 0, 0,
          0, 0, 0, 0, 0, 0, 0, 55, 56, 57, 45, 52, 53, 54, 43, 49,
          50, 51, 48, 46, 0, 0, 0, 0] in
          if k < length row then row ! k else 0))"

definition ctlmap :: "nat \<Rightarrow> nat" where
  "ctlmap k =
     (case map_of [(0x9c, 0xd), (0xb5, 0xef), (0xc8, 0xe2), (0xd0, 0xe3), (0xc9, 0xe6), (0xd1, 0xe7), (0xcb, 0xe4), (0xcd, 0xe5), (0x97, 0xe0), (0xcf, 0xe1), (0xd2, 0xe8), (0xd3, 0xe9)] k of
        Some v \<Rightarrow> v
      | None \<Rightarrow> (let row = [
          0, 0, 0, 0, 0, 0, 0, 0, 0, 0, 0, 0, 0, 0, 0, 0,
          17, 23, 5, 18, 20, 25, 21, 9, 15, 16, 0, 0, 13, 0, 1, 19,
          4, 6, 7, 8, 10, 11, 12, 0, 0, 0, 0, 28, 26, 24, 3, 22,
          2, 14, 13, 0, 0, 239, 0, 0] in
          if k < length row then row ! k else 0))"

section \<open>Translation\<close>

text \<open>\<^verbatim>\<open>charcode\<close>, indexed by the \<^verbatim>\<open>CTL\<close> and \<^verbatim>\<open>SHIFT\<close> bits.\<close>

definition charcode :: "u32 \<Rightarrow> nat \<Rightarrow> nat" where
  "charcode i = (if i = 0 then normalmap else if i = 1 then shiftmap else ctlmap)"

text \<open>
  \<^verbatim>\<open>kbdgetc\<close> when the controller has a byte \<open>data\<close>: the value it returns and the new value of the static
  variable \<^verbatim>\<open>shift\<close>. (With no byte in the controller it returns -1 and changes nothing.)
\<close>

definition caps :: "nat \<Rightarrow> nat" where
  "caps c = (if 97 \<le> c \<and> c \<le> 122 then c - 32 else if 65 \<le> c \<and> c \<le> 90 then c + 32 else c)"

definition kbdgetc :: "u32 \<Rightarrow> byte \<Rightarrow> nat \<times> u32" where
  "kbdgetc shift data =
     (if data = 0xE0 then (0, shift OR E0ESC)
      else if data AND 0x80 \<noteq> 0 then
        (let d = (if shift AND E0ESC \<noteq> 0 then data else data AND 0x7F) in
         (0, shift AND NOT (of_nat (shiftcode (unat d)) OR E0ESC)))
      else
        (let d = (if shift AND E0ESC \<noteq> 0 then data OR 0x80 else data);
             sh1 = (if shift AND E0ESC \<noteq> 0 then shift AND NOT E0ESC else shift);
             sh2 = (sh1 OR of_nat (shiftcode (unat d))) XOR of_nat (togglecode (unat d));
             c = charcode (sh2 AND (CTL OR SHIFT)) (unat d) in
         (if sh2 AND CAPSLOCK \<noteq> 0 then caps c else c, sh2)))"

text \<open>The characters \<^verbatim>\<open>kbdintr\<close> passes to \<^verbatim>\<open>consoleintr\<close> for the bytes that are in the controller.\<close>

fun kbd_chars :: "u32 \<Rightarrow> byte list \<Rightarrow> nat list \<times> u32" where
  "kbd_chars shift [] = ([], shift)"
| "kbd_chars shift (d # ds) =
     (let (c, sh) = kbdgetc shift d; (cs, sh') = kbd_chars sh ds in (c # cs, sh'))"

end
