(* ===== verification/Console.thy ===== *)
theory Console
  imports Process Kbd
begin

unbundle bit_operations_syntax

text \<open>
  The console (\<^verbatim>\<open>console.c\<close>), with the serial port (\<^verbatim>\<open>uart.c\<close>) and the keyboard (theory Kbd) behind it. The
  screen is the CGA text memory and the cursor register; what was sent to the serial port is a list of bytes.
  A character code is a number, 256 being \<^verbatim>\<open>BACKSPACE\<close>. \<^verbatim>\<open>panic\<close> is the outcome \<open>Panic\<close>, so \<^verbatim>\<open>panicked\<close> is never
  set in a state that runs on; the process listing that control-P prints is not modelled.

  The line buffer has three indices that run freely modulo \<open>2 ^ 32\<close>: bytes between \<^verbatim>\<open>r\<close> and \<^verbatim>\<open>w\<close> can be read,
  those between \<^verbatim>\<open>w\<close> and \<^verbatim>\<open>e\<close> are being edited.
\<close>

section \<open>State\<close>

definition BACKSPACE :: nat where "BACKSPACE = 0x100"
definition INPUT_BUF :: nat where "INPUT_BUF = 128"
definition CONSOLE :: int where "CONSOLE = 1"

record inputq =
  in_buf :: "byte list"
  in_r :: u32
  in_w :: u32
  in_e :: u32

type_synonym cell = "16 word"

record cons_state = ker_state +
  input :: inputq
  kbd_shift :: u32             \<comment> \<open>the static \<^verbatim>\<open>shift\<close> of \<^verbatim>\<open>kbdgetc\<close>\<close>
  uart :: bool                 \<comment> \<open>is there a uart?\<close>
  uart_out :: "byte list"      \<comment> \<open>what was sent to it\<close>
  crt :: "nat \<Rightarrow> cell"          \<comment> \<open>CGA memory\<close>
  crt_pos :: nat               \<comment> \<open>the cursor register\<close>

section \<open>Output\<close>

definition uartputc :: "nat \<Rightarrow> ('r cons_state_scheme, unit) K" where
  "uartputc c = kmod (\<lambda>s. if uart s then s\<lparr>uart_out := uart_out s @ [of_nat c]\<rparr> else s)"

text \<open>The screen and the cursor after a character; \<open>None\<close> where \<^verbatim>\<open>cgaputc\<close> panics.\<close>

definition cga_write :: "nat \<Rightarrow> (nat \<Rightarrow> cell) \<Rightarrow> nat \<Rightarrow> (nat \<Rightarrow> cell) \<times> nat" where
  "cga_write c scr pos =
     (if c = 10 then (scr, pos + (80 - pos mod 80))
      else if c = BACKSPACE then (scr, if 0 < pos then pos - 1 else pos)
      else (scr(pos := (of_nat c AND 0xFF) OR 0x0700), pos + 1))"

definition cga_scroll :: "(nat \<Rightarrow> cell) \<Rightarrow> nat \<Rightarrow> (nat \<Rightarrow> cell) \<times> nat" where
  "cga_scroll scr pos =
     (if 24 \<le> pos div 80 then
        (let up = (\<lambda>i. if i < 23 * 80 then scr (i + 80) else scr i); p = pos - 80 in
         (\<lambda>i. if p \<le> i \<and> i < 24 * 80 then 0 else up i, p))
      else (scr, pos))"

definition cga :: "nat \<Rightarrow> (nat \<Rightarrow> cell) \<Rightarrow> nat \<Rightarrow> ((nat \<Rightarrow> cell) \<times> nat) option" where
  "cga c scr pos =
     (let (scr1, pos1) = cga_write c scr pos in
      if 25 * 80 < pos1 then None
      else
        (let (scr2, pos2) = cga_scroll scr1 pos1 in
         Some (scr2(pos2 := 32 OR 0x0700), pos2)))"

definition cgaputc :: "nat \<Rightarrow> ('r cons_state_scheme, unit) K" where
  "cgaputc c =
     ktry (kget (\<lambda>s. cga c (crt s) (crt_pos s))) (kpanic ''pos under/overflow'') (\<lambda>(scr, pos).
     kmod (\<lambda>s. s\<lparr>crt := scr, crt_pos := pos\<rparr>))"

definition consputc :: "nat \<Rightarrow> ('r cons_state_scheme, unit) K" where
  "consputc c =
     kbind (if c = BACKSPACE then
              kbind (uartputc 8) (\<lambda>_.
              kbind (uartputc 32) (\<lambda>_.
              uartputc 8))
            else uartputc c) (\<lambda>_.
     cgaputc c)"

section \<open>Formatted output\<close>

text \<open>The bytes \<^verbatim>\<open>printint\<close> prints.\<close>

definition hexdigit :: "u32 \<Rightarrow> byte" where
  "hexdigit d = (if d < 10 then 48 + ucast d else 87 + ucast d)"

definition printint :: "u32 \<Rightarrow> u32 \<Rightarrow> bool \<Rightarrow> byte list" where
  "printint xx base sign =
     (let neg = (sign \<and> sint xx < 0); x = (if neg then - xx else xx) in
      (if neg then [45] else []) @ rev (digits_rev hexdigit base x))"

text \<open>
  The bytes \<^verbatim>\<open>cprintf\<close> prints for a format and the words on the stack above it; \<open>str\<close> is the string at an
  address.
\<close>

fun cprintf_out :: "(u32 \<Rightarrow> byte list) \<Rightarrow> byte list \<Rightarrow> u32 list \<Rightarrow> byte list" where
  "cprintf_out str [] args = []"
| "cprintf_out str [c] args = (if c = 0 \<or> c = 37 then [] else [c])"
| "cprintf_out str (c # d # fmt) args =
     (if c = 0 then []
      else if c \<noteq> 37 then c # cprintf_out str (d # fmt) args
      else if d = 0 then []
      else if d = 100 then printint (hd args) 10 True @ cprintf_out str fmt (tl args)
      else if d = 120 \<or> d = 112 then printint (hd args) 16 False @ cprintf_out str fmt (tl args)
      else if d = 115 then
        (if hd args = 0 then [40, 110, 117, 108, 108, 41] else cstr (str (hd args))) @ cprintf_out str fmt (tl args)
      else if d = 37 then 37 # cprintf_out str fmt args
      else 37 # d # cprintf_out str fmt args)"

definition cprintf :: "bool \<Rightarrow> (u32 \<Rightarrow> byte list) \<Rightarrow> byte list \<Rightarrow> u32 list \<Rightarrow> ('r cons_state_scheme, unit) K" where
  "cprintf locking str fmt args =
     kbind (if locking then acquire LCons else kreturn ()) (\<lambda>_.
     kbind (kfor (cprintf_out str fmt args) (\<lambda>b. consputc (unat b))) (\<lambda>_.
     if locking then release LCons else kreturn ()))"

section \<open>Input\<close>

text \<open>The loop of control-U: how many characters it erases.\<close>

fun kill_line :: "nat \<Rightarrow> inputq \<Rightarrow> inputq \<times> nat" where
  "kill_line 0 q = (q, 0)"
| "kill_line (Suc n) q =
     (if in_e q \<noteq> in_w q \<and> in_buf q ! (unat (in_e q - 1) mod INPUT_BUF) \<noteq> 10 then
        (let (q', k) = kill_line n (q\<lparr>in_e := in_e q - 1\<rparr>) in (q', Suc k))
      else (q, 0))"

text \<open>
  One turn of the loop of \<^verbatim>\<open>consoleintr\<close>: the new line buffer, the calls of \<^verbatim>\<open>consputc\<close> and whether sleepers are
  woken.
\<close>

definition cons_char :: "nat \<Rightarrow> inputq \<Rightarrow> inputq \<times> nat list \<times> bool" where
  "cons_char c q =
     (if c = 16 then (q, [], False)
      else if c = 21 then
        (let (q', k) = kill_line (unat (in_e q - in_w q)) q in (q', replicate k BACKSPACE, False))
      else if c = 8 \<or> c = 127 then
        (if in_e q \<noteq> in_w q then (q\<lparr>in_e := in_e q - 1\<rparr>, [BACKSPACE], False) else (q, [], False))
      else if c \<noteq> 0 \<and> in_e q - in_r q < of_nat INPUT_BUF then
        (let c' = (if c = 13 then 10 else c);
             q1 = q\<lparr>in_buf := (in_buf q)[unat (in_e q) mod INPUT_BUF := of_nat c'], in_e := in_e q + 1\<rparr> in
         if c' = 10 \<or> c' = 4 \<or> in_e q1 = in_r q1 + of_nat INPUT_BUF
         then (q1\<lparr>in_w := in_e q1\<rparr>, [c'], True)
         else (q1, [c'], False))
      else (q, [], False))"

definition consoleintr :: "nat list \<Rightarrow> ('r cons_state_scheme, unit) K" where
  "consoleintr cs =
     kbind (acquire LCons) (\<lambda>_.
     kbind (kfor cs (\<lambda>c.
       kbind (kget (\<lambda>s. cons_char c (input s))) (\<lambda>(q, echo, wake).
       kbind (kmod (\<lambda>s. s\<lparr>input := q\<rparr>)) (\<lambda>_.
       kbind (kfor echo consputc) (\<lambda>_.
       if wake then wakeup ChanInput else kreturn ()))))) (\<lambda>_.
     release LCons))"

definition kbdintr :: "byte list \<Rightarrow> ('r cons_state_scheme, unit) K" where
  "kbdintr ds =
     kbind (kget (\<lambda>s. kbd_chars (kbd_shift s) ds)) (\<lambda>(cs, sh).
     kbind (kmod (\<lambda>s. s\<lparr>kbd_shift := sh\<rparr>)) (\<lambda>_.
     consoleintr cs))"

text \<open>\<open>ds\<close> are the bytes the serial port has received; with no port \<^verbatim>\<open>uartgetc\<close> returns -1 at once.\<close>

definition uartintr :: "byte list \<Rightarrow> ('r cons_state_scheme, unit) K" where
  "uartintr ds =
     kbind (kget uart) (\<lambda>u.
     consoleintr (if u then map unat ds else []))"

section \<open>The console device\<close>

text \<open>
  The loop of \<^verbatim>\<open>consoleread\<close>, with \<^verbatim>\<open>cons.lock\<close> held: \<open>n\<close> bytes are still wanted, \<open>got\<close> have been delivered. A
  reader that finds no input sleeps and resumes with \<open>sleep_resume\<close> and this loop.
\<close>

definition consread_end :: "nat \<Rightarrow> byte list \<Rightarrow> ('r cons_state_scheme, int \<times> byte list) K" where
  "consread_end ip got =
     kbind (release LCons) (\<lambda>_.
     kbind (ilock ip) (\<lambda>_.
     kreturn (int (length got), got)))"

fun consread_loop :: "nat \<Rightarrow> nat \<Rightarrow> byte list \<Rightarrow> ('r cons_state_scheme, int \<times> byte list) K" where
  "consread_loop ip 0 got = consread_end ip got"
| "consread_loop ip (Suc n) got =
     kbind (kget input) (\<lambda>q.
     if in_r q = in_w q then
       kbind myproc (\<lambda>cp.
       kbind (get_proc (the cp) p_killed) (\<lambda>killed.
       if killed then
         kbind (release LCons) (\<lambda>_.
         kbind (ilock ip) (\<lambda>_.
         kreturn (- 1, got)))
       else sleep ChanInput LCons))
     else
       (let c = in_buf q ! (unat (in_r q) mod INPUT_BUF) in
        if c = 4 then
          kbind (if got = [] then kmod (\<lambda>s. s\<lparr>input := q\<lparr>in_r := in_r q + 1\<rparr>\<rparr>) else kreturn ()) (\<lambda>_.
          consread_end ip got)
        else
          kbind (kmod (\<lambda>s. s\<lparr>input := q\<lparr>in_r := in_r q + 1\<rparr>\<rparr>)) (\<lambda>_.
          if c = 10 then consread_end ip (got @ [c])
          else consread_loop ip n (got @ [c]))))"

definition consoleread :: "nat \<Rightarrow> int \<Rightarrow> ('r cons_state_scheme, int \<times> byte list) K" where
  "consoleread ip n =
     kbind (iunlock ip) (\<lambda>_.
     kbind (acquire LCons) (\<lambda>_.
     consread_loop ip (nat n) []))"

definition consolewrite :: "nat \<Rightarrow> byte list \<Rightarrow> ('r cons_state_scheme, int) K" where
  "consolewrite ip bs =
     kbind (iunlock ip) (\<lambda>_.
     kbind (acquire LCons) (\<lambda>_.
     kbind (kfor bs (\<lambda>b. consputc (unat b))) (\<lambda>_.
     kbind (release LCons) (\<lambda>_.
     kbind (ilock ip) (\<lambda>_.
     kreturn (int (length bs)))))))"

text \<open>\<^verbatim>\<open>consoleinit\<close> installs the console in the device switch.\<close>

definition kernel_devsw :: "'r cons_state_scheme devsw" where
  "kernel_devsw major =
     (if major = CONSOLE then (Some consoleread, Some consolewrite) else (None, None))"

section \<open>The cursor\<close>

definition cursor_ok :: "nat \<Rightarrow> bool" where
  "cursor_ok pos \<longleftrightarrow> pos \<le> 24 * 80"

lemma cga_ok:
  assumes "cursor_ok pos"
  shows "\<exists>scr' pos'. cga c scr pos = Some (scr', pos') \<and> cursor_ok pos'"
proof -
  obtain scr1 pos1 where w: "cga_write c scr pos = (scr1, pos1)" by fastforce
  have "pos + (80 - pos mod 80) \<le> 25 * 80" using assms unfolding cursor_ok_def by linarith
  then have p: "pos1 \<le> 25 * 80" using w assms by (auto simp: cga_write_def cursor_ok_def split: if_splits)
  obtain scr2 pos2 where s: "cga_scroll scr1 pos1 = (scr2, pos2)" by fastforce
  then have "pos2 \<le> 24 * 80" using p by (auto simp: cga_scroll_def Let_def split: if_splits)
  then show ?thesis using w s p by (simp add: cga_def cursor_ok_def)
qed

text \<open>What the output functions leave alone.\<close>

definition no_out :: "'r cons_state_scheme \<Rightarrow> 'r cons_state_scheme" where
  "no_out s = s\<lparr>uart_out := [], crt := (\<lambda>_. 0), crt_pos := 0\<rparr>"

lemma no_outD:
  assumes "no_out t = no_out s"
  shows "held t = held s" "ncli t = ncli s" "input t = input s" "uart t = uart s" "ptable t = ptable s" "intena t = intena s"
    "int_on t = int_on s"
  using arg_cong [OF assms, of held] arg_cong [OF assms, of ncli] arg_cong [OF assms, of input] arg_cong [OF assms, of uart]
    arg_cong [OF assms, of ptable] arg_cong [OF assms, of intena] arg_cong [OF assms, of int_on]
  by (simp_all add: no_out_def)

text \<open>The bytes a character code sends to the serial port.\<close>

definition serial :: "nat \<Rightarrow> byte list" where
  "serial c = (if c = BACKSPACE then [8, 32, 8] else [of_nat c])"

lemma consputc_ok:
  assumes "cursor_ok (crt_pos s)"
  shows "wp (consputc c) (\<lambda>_ t. no_out t = no_out s \<and> cursor_ok (crt_pos t) \<and>
     uart_out t = uart_out s @ (if uart s then serial c else [])) s"
proof -
  obtain scr pos where "cga c (crt s) (crt_pos s) = Some (scr, pos)" "cursor_ok pos"
    using cga_ok [OF assms] by blast
  then show ?thesis
    by (auto simp: consputc_def uartputc_def cgaputc_def serial_def wp_simps no_out_def)
qed

lemma consputc_list:
  assumes "cursor_ok (crt_pos s)"
  shows "wp (kfor cs consputc) (\<lambda>_ t. no_out t = no_out s \<and> cursor_ok (crt_pos t) \<and>
     uart_out t = uart_out s @ (if uart s then concat (map serial cs) else [])) s"
  using assms
proof (induction cs arbitrary: s)
  case Nil
  then show ?case by (simp add: wp_kreturn)
next
  case (Cons c cs)
  show ?case
    unfolding kfor.simps
  proof (rule wp_seq [OF consputc_ok [OF Cons.prems]])
    fix u :: unit and t
    assume t: "no_out t = no_out s \<and> cursor_ok (crt_pos t) \<and> uart_out t = uart_out s @ (if uart s then serial c else [])"
    show "wp (kfor cs consputc) (\<lambda>_ t. no_out t = no_out s \<and> cursor_ok (crt_pos t) \<and>
        uart_out t = uart_out s @ (if uart s then concat (map serial (c # cs)) else [])) t"
      by (rule wp_mono [OF Cons.IH]) (use t no_outD(4) [of s t] in auto)
  qed
qed

section \<open>The line discipline\<close>

definition cons_ok :: "inputq \<Rightarrow> bool" where
  "cons_ok q \<longleftrightarrow> length (in_buf q) = INPUT_BUF \<and> unat (in_w q - in_r q) \<le> unat (in_e q - in_r q) \<and>
     unat (in_e q - in_r q) \<le> INPUT_BUF \<and> 10 \<notin> set (ring (in_buf q) (in_w q) (in_e q))"

text \<open>The bytes that can be read, and the line being edited.\<close>

definition cons_abs :: "inputq \<Rightarrow> byte list \<times> byte list" where
  "cons_abs q = (ring (in_buf q) (in_r q) (in_w q), ring (in_buf q) (in_w q) (in_e q))"

definition line_spec :: "nat \<Rightarrow> byte list \<times> byte list \<Rightarrow> byte list \<times> byte list" where
  "line_spec c = (\<lambda>(rd, ed).
     if c = 16 then (rd, ed)
     else if c = 21 then (rd, [])
     else if c = 8 \<or> c = 127 then (rd, butlast ed)
     else if c = 0 \<or> INPUT_BUF \<le> length rd + length ed then (rd, ed)
     else
       (let ed' = ed @ [if c = 13 then 10 else of_nat c] in
        if c = 13 \<or> c = 10 \<or> c = 4 \<or> length rd + length ed' = INPUT_BUF then (rd @ ed', []) else (rd, ed')))"

lemma ring_size_input: "length d = INPUT_BUF \<Longrightarrow> ring_size d"
  by (auto simp: ring_size_def INPUT_BUF_def)

lemma kill_line_all:
  "10 \<notin> set (ring (in_buf q) (in_w q) (in_e q)) \<Longrightarrow> length (in_buf q) = INPUT_BUF \<Longrightarrow> n = unat (in_e q - in_w q) \<Longrightarrow>
    kill_line n q = (q\<lparr>in_e := in_w q\<rparr>, n)"
proof (induction n arbitrary: q)
  case 0
  then have "in_e q = in_w q" by (metis ring_empty_iff length_0_conv length_ring)
  then show ?case by simp
next
  case (Suc n)
  then have ne: "in_e q \<noteq> in_w q" by auto
  let ?q = "q\<lparr>in_e := in_e q - 1\<rparr>"
  have r: "ring (in_buf q) (in_w q) (in_e q) \<noteq> []" using ne by (simp add: ring_empty_iff)
  have "in_buf q ! (unat (in_e q - 1) mod INPUT_BUF) \<noteq> 10"
    using ring_last [OF ne, of "in_buf q"] last_in_set [OF r] Suc.prems by auto
  moreover have "kill_line n ?q = (?q\<lparr>in_e := in_w ?q\<rparr>, n)"
  proof (rule Suc.IH)
    note b = ring_drop_last [OF ne, of "in_buf q"]
    show "10 \<notin> set (ring (in_buf ?q) (in_w ?q) (in_e ?q))" using Suc.prems(1) b by (auto dest: in_set_butlastD)
    show "n = unat (in_e ?q - in_w ?q)" using arg_cong [OF b, of length] Suc.prems(3) by simp
    show "length (in_buf ?q) = INPUT_BUF" using Suc.prems(2) by simp
  qed
  ultimately show ?case using ne by simp
qed


lemma cons_split:
  assumes "cons_ok q"
  shows "unat (in_e q - in_r q) = unat (in_w q - in_r q) + unat (in_e q - in_w q)"
  using arg_cong [OF ring_split, of "in_w q" "in_r q" "in_e q" length "in_buf q"] assms by (simp add: cons_ok_def)

lemma cons_erase:
  assumes ok: "cons_ok q" and ne: "in_e q \<noteq> in_w q"
  shows "cons_ok (q\<lparr>in_e := in_e q - 1\<rparr>) \<and>
    cons_abs (q\<lparr>in_e := in_e q - 1\<rparr>) = (fst (cons_abs q), butlast (snd (cons_abs q)))"
proof -
  note b = ring_drop_last [OF ne, of "in_buf q"]
  have "unat (in_e q - in_w q) \<noteq> 0" using ne by (simp add: unat_eq_0)
  then have er: "in_e q \<noteq> in_r q" using cons_split [OF ok] by auto
  have len: "unat (in_e q - 1 - in_r q) = unat (in_e q - in_r q) - 1"
    using arg_cong [OF ring_drop_last [OF er, of "in_buf q"], of length] by simp
  have "10 \<notin> set (butlast (ring (in_buf q) (in_w q) (in_e q)))"
    using ok in_set_butlastD by (force simp: cons_ok_def)
  then show ?thesis
    using ok b len cons_split [OF ok] \<open>unat (in_e q - in_w q) \<noteq> 0\<close> by (auto simp: cons_ok_def cons_abs_def)
qed

lemma cons_kill:
  assumes "cons_ok q"
  shows "cons_ok (q\<lparr>in_e := in_w q\<rparr>) \<and> cons_abs (q\<lparr>in_e := in_w q\<rparr>) = (fst (cons_abs q), [])"
proof -
  have "ring (in_buf q) (in_w q) (in_w q) = []" by (simp add: ring_empty_iff)
  then show ?thesis using assms by (auto simp: cons_ok_def cons_abs_def)
qed

lemma cons_insert:
  fixes b :: byte
  assumes ok: "cons_ok q" and room: "unat (in_e q - in_r q) < INPUT_BUF"
  defines "q1 \<equiv> q\<lparr>in_buf := (in_buf q)[unat (in_e q) mod INPUT_BUF := b], in_e := in_e q + 1\<rparr>"
  shows "cons_abs q1 = (fst (cons_abs q), snd (cons_abs q) @ [b])" (is ?abs)
    and "unat (in_e q1 - in_r q1) = Suc (unat (in_e q - in_r q))" (is ?len)
    and "b \<noteq> 10 \<Longrightarrow> cons_ok q1"
    and "cons_ok (q1\<lparr>in_w := in_e q1\<rparr>)" (is ?ok)
    and "cons_abs (q1\<lparr>in_w := in_e q1\<rparr>) = (fst (cons_abs q) @ snd (cons_abs q) @ [b], [])" (is ?abs2)
proof -
  let ?d = "in_buf q" and ?d' = "(in_buf q)[unat (in_e q) mod INPUT_BUF := b]"
  have len: "length ?d = INPUT_BUF" "length ?d \<le> 2 ^ 32 - 1" using ok by (simp_all add: cons_ok_def INPUT_BUF_def)
  have ew: "unat (in_e q - in_w q) < length ?d" and er: "unat (in_e q - in_r q) < length ?d"
    using cons_split [OF ok] room len by simp_all
  have p: "ring ?d' (in_w q) (in_e q + 1) = ring ?d (in_w q) (in_e q) @ [b]"
    "ring ?d' (in_r q) (in_e q + 1) = ring ?d (in_r q) (in_e q) @ [b]"
    using ring_put [OF ring_size_input [OF len(1)] len(2) ew, of b] ring_put [OF ring_size_input [OF len(1)] len(2) er, of b] len
    by simp_all
  have i: "unat (in_e q + 1 - in_r q) = Suc (unat (in_e q - in_r q))" by (rule ring_inc [OF er len(2)])
  then show ?len by (simp add: q1_def)
  have s: "ring ?d (in_r q) (in_e q) = ring ?d (in_r q) (in_w q) @ ring ?d (in_w q) (in_e q)"
    using ok by (intro ring_split) (simp add: cons_ok_def)
  have "ring ?d' (in_r q) (in_e q + 1) = ring ?d' (in_r q) (in_w q) @ ring ?d' (in_w q) (in_e q + 1)"
    using ok i by (intro ring_split) (simp add: cons_ok_def)
  then have rd: "ring ?d' (in_r q) (in_w q) = ring ?d (in_r q) (in_w q)" using p s by simp
  then show ?abs using p by (simp add: q1_def cons_abs_def)
  show "cons_ok q1" if "b \<noteq> 10" using ok i p room that by (auto simp: q1_def cons_ok_def)
  have e: "ring x (in_e q + 1) (in_e q + 1) = []" for x :: "byte list" by (simp add: ring_empty_iff)
  show ?ok using ok i room e by (auto simp: q1_def cons_ok_def)
  show ?abs2 using p s e by (simp add: q1_def cons_abs_def)
qed

definition echoes :: "nat \<Rightarrow> byte list \<times> byte list \<Rightarrow> nat list" where
  "echoes c = (\<lambda>(rd, ed).
     if c = 16 then []
     else if c = 21 then replicate (length ed) BACKSPACE
     else if c = 8 \<or> c = 127 then (if ed = [] then [] else [BACKSPACE])
     else if c = 0 \<or> INPUT_BUF \<le> length rd + length ed then []
     else [if c = 13 then 10 else c])"

lemma cons_char_refines:
  assumes ok: "cons_ok q" and c: "c < 256" and r: "cons_char c q = (q', echo, wk)"
  shows "cons_ok q' \<and> cons_abs q' = line_spec c (cons_abs q) \<and> echo = echoes c (cons_abs q) \<and>
    (wk \<or> fst (cons_abs q') = fst (cons_abs q))"
proof -
  have len: "length (fst (cons_abs q)) + length (snd (cons_abs q)) = unat (in_e q - in_r q)"
    using cons_split [OF ok] by (simp add: cons_abs_def)
  have le: "in_e q - in_r q < of_nat INPUT_BUF \<longleftrightarrow> unat (in_e q - in_r q) < INPUT_BUF"
    by (simp add: word_less_nat_alt INPUT_BUF_def)
  have full: "x = in_r q + of_nat INPUT_BUF \<longleftrightarrow> unat (x - in_r q) = INPUT_BUF" for x
    by (rule ring_full_iff) (simp add: INPUT_BUF_def)
  have emp: "snd (cons_abs q) = [] \<longleftrightarrow> in_e q = in_w q" by (simp add: cons_abs_def ring_empty_iff)
  have len2: "length (snd (cons_abs q)) = unat (in_e q - in_w q)" by (simp add: cons_abs_def)
  have kl: "kill_line (unat (in_e q - in_w q)) q = (q\<lparr>in_e := in_w q\<rparr>, unat (in_e q - in_w q))"
    using ok by (intro kill_line_all) (simp_all add: cons_ok_def)
  let ?b = "if c = 13 then 10 else of_nat c :: byte"
  have nl: "c \<noteq> 13 \<Longrightarrow> c \<noteq> 10 \<Longrightarrow> ?b \<noteq> 10" using c by (auto simp: word_unat_eq_iff unat_of_nat)
  note ins = cons_insert [OF ok, of ?b]
  consider "c = 16" | "c = 21" | "c = 8 \<or> c = 127" | "c \<noteq> 16 \<and> c \<noteq> 21 \<and> c \<noteq> 8 \<and> c \<noteq> 127" by blast
  then show ?thesis
  proof cases
    case 2
    then show ?thesis using r kl cons_kill [OF ok] len2 by (auto simp: cons_char_def line_spec_def echoes_def split: prod.splits)
  next
    case 3
    then show ?thesis
      using r ok emp cons_erase [OF ok]
      by (auto simp: cons_char_def line_spec_def echoes_def split: prod.splits if_splits)
  next
    case 4
    show ?thesis
    proof (cases "c = 0 \<or> INPUT_BUF \<le> unat (in_e q - in_r q)")
      case True
      then show ?thesis using 4 r ok len le by (auto simp: cons_char_def line_spec_def echoes_def split: prod.splits)
    next
      case False
      then have room: "unat (in_e q - in_r q) < INPUT_BUF" by simp
      let ?q1 = "q\<lparr>in_buf := (in_buf q)[unat (in_e q) mod INPUT_BUF := ?b], in_e := in_e q + 1\<rparr>"
      have b: "of_nat (if c = 13 then 10 else c) = ?b" by simp
      have char: "cons_char c q =
          (if c = 13 \<or> c = 10 \<or> c = 4 \<or> unat (in_e ?q1 - in_r ?q1) = INPUT_BUF
           then (?q1\<lparr>in_w := in_e ?q1\<rparr>, [if c = 13 then 10 else c], True) else (?q1, [if c = 13 then 10 else c], False))"
        using 4 False room le full by (auto simp: cons_char_def Let_def)
      have spec: "line_spec c (cons_abs q) =
          (if c = 13 \<or> c = 10 \<or> c = 4 \<or> Suc (unat (in_e q - in_r q)) = INPUT_BUF
           then (fst (cons_abs q) @ snd (cons_abs q) @ [?b], []) else (fst (cons_abs q), snd (cons_abs q) @ [?b]))"
        using 4 False len by (auto simp: line_spec_def Let_def split: prod.splits)
      have "echoes c (cons_abs q) = [if c = 13 then 10 else c]"
        using 4 False len by (auto simp: echoes_def split: prod.splits)
      then show ?thesis
        using r nl ins [OF room] unfolding char spec by (auto split: if_splits)
    qed
  qed (use r ok in \<open>auto simp: cons_char_def line_spec_def echoes_def split: prod.splits\<close>)
qed


lemma cons_acq_rel [simp]:
  "input (acq lk s) = input s" "input (rel lk s) = input s" "crt_pos (acq lk s) = crt_pos s" "crt_pos (rel lk s) = crt_pos s"
  "uart (acq lk s) = uart s" "uart (rel lk s) = uart s" "uart_out (acq lk s) = uart_out s" "uart_out (rel lk s) = uart_out s"
  "input (wakes ch s) = input s" "crt_pos (wakes ch s) = crt_pos s"
  by (simp_all add: acq_def rel_def wakes_def)

definition intr_inv :: "'r cons_state_scheme \<Rightarrow> nat list \<Rightarrow> 'r cons_state_scheme \<Rightarrow> bool" where
  "intr_inv s cs t \<longleftrightarrow> held t = insert LCons (held s) \<and> ncli t = Suc (ncli s) \<and> cursor_ok (crt_pos t) \<and>
     cons_ok (input t) \<and> cons_abs (input t) = fold line_spec cs (cons_abs (input s)) \<and>
     (fst (cons_abs (input t)) = fst (cons_abs (input s)) \<or> none_wait ChanInput (ptable t))"

definition intr_turn :: "nat \<Rightarrow> ('r cons_state_scheme, unit) K" where
  "intr_turn c =
     kbind (kget (\<lambda>s. cons_char c (input s))) (\<lambda>(q, echo, wake).
       kbind (kmod (\<lambda>s. s\<lparr>input := q\<rparr>)) (\<lambda>_.
       kbind (kfor echo consputc) (\<lambda>_.
       if wake then wakeup ChanInput else kreturn ())))"

lemma intr_turn_ok:
  assumes inv: "intr_inv s cs t" and c: "c < 256" and lk: "LPtable \<notin> held s"
  shows "wp (intr_turn c) (\<lambda>_. intr_inv s (cs @ [c])) t"
proof -
  obtain q echo wk where r: "cons_char c (input t) = (q, echo, wk)" by (metis prod_cases3)
  note ref = cons_char_refines [OF _ c r]
  have inv': "held t = insert LCons (held s)" "ncli t = Suc (ncli s)" using inv by (simp_all add: intr_inv_def)
  have new: "cons_ok q" "cons_abs q = line_spec c (fold line_spec cs (cons_abs (input s)))"
    using ref inv unfolding intr_inv_def by metis+
  have quiet: "wk \<or> fst (line_spec c (fold line_spec cs (cons_abs (input s)))) = fst (cons_abs (input s)) \<or>
      none_wait ChanInput (ptable t)"
    using ref inv new(2) unfolding intr_inv_def by metis
  let ?t = "t\<lparr>input := q\<rparr>"
  have "wp (kfor echo consputc) (\<lambda>_ u. no_out u = no_out ?t \<and> cursor_ok (crt_pos u)) ?t"
    by (rule wp_mono [OF consputc_list]) (use inv in \<open>auto simp: intr_inv_def\<close>)
  then have "wp (kbind (kfor echo consputc) (\<lambda>_. if wk then wakeup ChanInput else kreturn ())) (\<lambda>_. intr_inv s (cs @ [c])) ?t"
  proof (rule wp_seq)
    fix x :: unit and u
    assume u: "no_out u = no_out ?t \<and> cursor_ok (crt_pos u)"
    then have "held u = held t" "ncli u = ncli t" "input u = q" "ptable u = ptable t" "cursor_ok (crt_pos u)"
      using no_outD [of u ?t] by simp_all
    then show "wp (if wk then wakeup ChanInput else kreturn ()) (\<lambda>_. intr_inv s (cs @ [c])) u"
      using new quiet inv' lk by (cases wk) (simp_all add: intr_inv_def wp_wakeup wp_kreturn)
  qed
  then show ?thesis by (simp add: intr_turn_def wp_simps r)
qed

text \<open>C11. The console interrupt handler never panics and edits the line as the line discipline says, whatever is typed: a
  character is appended or, with the 128 bytes in use, dropped; backspace takes the last one back; control-U empties the
  line and touches nothing that was entered before; newline, control-D or a full buffer hands the line to readers,
  none of which is then left asleep.\<close>

theorem consoleintr_edits:
  assumes "LCons \<notin> held s" "LPtable \<notin> held s" and "cursor_ok (crt_pos s)" and "cons_ok (input s)" and "\<forall>c \<in> set cs. c < 256"
  shows "wp (consoleintr cs) (\<lambda>_ t. cons_ok (input t) \<and> cons_abs (input t) = fold line_spec cs (cons_abs (input s)) \<and>
     (fst (cons_abs (input t)) = fst (cons_abs (input s)) \<or> none_wait ChanInput (ptable t)) \<and>
     cursor_ok (crt_pos t) \<and> held t = held s \<and> ncli t = ncli s) s"
proof -
  let ?s = "acq LCons s"
  have "wp (kfor cs intr_turn) (\<lambda>_. (\<lambda>k. intr_inv s (take k cs)) (length cs)) ?s"
  proof (rule wp_kfor_inv)
    show "intr_inv s (take 0 cs) ?s" using assms by (simp add: intr_inv_def)
    show "wp (intr_turn (cs ! k)) (\<lambda>_. intr_inv s (take (Suc k) cs)) t" if "k < length cs" "intr_inv s (take k cs) t" for k t
      using intr_turn_ok [OF that(2) _ assms(2), of "cs ! k"] assms(5) that(1) by (simp add: take_Suc_conv_app_nth)
  qed
  then have "wp (kbind (kfor cs intr_turn) (\<lambda>_. release LCons)) (\<lambda>_ t. cons_ok (input t) \<and>
     cons_abs (input t) = fold line_spec cs (cons_abs (input s)) \<and>
     (fst (cons_abs (input t)) = fst (cons_abs (input s)) \<or> none_wait ChanInput (ptable t)) \<and>
     cursor_ok (crt_pos t) \<and> held t = held s \<and> ncli t = ncli s) ?s"
    by (rule wp_seq) (use assms(1) in \<open>auto simp: intr_inv_def wp_release\<close>)
  then show ?thesis using assms(1) by (simp add: consoleintr_def wp_kbind wp_acquire intr_turn_def [abs_def])
qed



text \<open>A console on which nothing has happened yet.\<close>

definition ex_cons_state :: cons_state where
  "ex_cons_state = ker_state.extend (file_state.extend ex_file_state (ker_state.fields True))
     (cons_state.fields \<lparr>in_buf = replicate INPUT_BUF 0, in_r = 0, in_w = 0, in_e = 0\<rparr> 0 True [] (\<lambda>_. 0) 0)"

lemma ex_cons_sel [simp]:
  "held ex_cons_state = {}" "crt_pos ex_cons_state = 0" "uart ex_cons_state" "uart_out ex_cons_state = []"
  "input ex_cons_state = \<lparr>in_buf = replicate INPUT_BUF 0, in_r = 0, in_w = 0, in_e = 0\<rparr>"
  by (simp_all add: ex_cons_state_def ex_file_state_def ex_fs_state_def fs_state.defs file_state.defs ker_state.defs cons_state.defs)

lemma ex_cons_ok: "cons_ok (input ex_cons_state)" "cons_abs (input ex_cons_state) = ([], [])"
proof -
  have "ring d 0 0 = []" for d :: "byte list" by (simp add: ring_empty_iff)
  then show "cons_ok (input ex_cons_state)" "cons_abs (input ex_cons_state) = ([], [])"
    by (simp_all add: cons_ok_def cons_abs_def)
qed

text \<open>Typing \<open>l s x\<close>, backspace, return, and the beginning of another line.\<close>

theorem consoleintr_edits_witness:
  "\<exists>t. consoleintr [108, 115, 120, 8, 13, 99] ex_cons_state = Ok () t \<and> cons_abs (input t) = ([108, 115, 10], [99])"
proof -
  have "wp (consoleintr [108, 115, 120, 8, 13, 99]) (\<lambda>_ t. cons_abs (input t) = ([108, 115, 10], [99])) ex_cons_state"
    by (rule wp_mono [OF consoleintr_edits]) (use ex_cons_ok in \<open>auto simp: cursor_ok_def line_spec_def INPUT_BUF_def\<close>)
  then show ?thesis by (simp add: wp_iff_Ok)
qed


end
