(* ===== verification/Trap.thy ===== *)
theory Trap
  imports Sysfile Console
begin

unbundle bit_operations_syntax

text \<open>
  The remaining system calls (\<^verbatim>\<open>sysproc.c\<close>), the dispatcher (\<^verbatim>\<open>syscall.c\<close>) and the trap handler (\<^verbatim>\<open>trap.c\<close>). The
  time that \<^verbatim>\<open>cmostime\<close> reads (theory Lapic) is an argument of \<^verbatim>\<open>sys_date\<close>. The messages of \<^verbatim>\<open>syscall\<close> and \<^verbatim>\<open>trap\<close> are
  console output and are left out.
\<close>

section \<open>System calls on processes\<close>

definition sys_fork :: "('r file_state_scheme, int) K" where
  "sys_fork = fork"

definition sys_exit :: "('r file_state_scheme, int) K" where
  "sys_exit = exit"

definition sys_wait :: "('r proc_state_scheme, int) K" where
  "sys_wait = wait"

definition sys_kill :: "('r proc_state_scheme, int) K" where
  "sys_kill = ktry (argint 0) (kreturn (- 1)) (\<lambda>pid. kill (sint pid))"

definition sys_getpid :: "('r proc_state_scheme, int) K" where
  "sys_getpid = kbind myproc (\<lambda>cp. get_proc (the cp) p_pid)"

definition sys_sbrk :: "('r proc_state_scheme, int) K" where
  "sys_sbrk =
     ktry (argint 0) (kreturn (- 1)) (\<lambda>n.
     kbind myproc (\<lambda>cp.
     kbind (get_proc (the cp) p_sz) (\<lambda>addr.
     kbind (growproc (sint n)) (\<lambda>r.
     kreturn (if r < 0 then - 1 else sint addr)))))"

text \<open>The loop of \<^verbatim>\<open>sys_sleep\<close> with \<^verbatim>\<open>tickslock\<close> held; the comparison is unsigned.\<close>

definition sleep_round :: "u32 \<Rightarrow> u32 \<Rightarrow> ('r proc_state_scheme, int) K" where
  "sleep_round n ticks0 =
     kbind (kget ticks) (\<lambda>t.
     if t - ticks0 < n then
       kbind myproc (\<lambda>cp.
       kbind (get_proc (the cp) p_killed) (\<lambda>killed.
       if killed then
         kbind (release LTicks) (\<lambda>_.
         kreturn (- 1))
       else sleep ChanTicks LTicks))
     else
       kbind (release LTicks) (\<lambda>_.
       kreturn 0))"

definition sys_sleep :: "('r proc_state_scheme, int) K" where
  "sys_sleep =
     ktry (argint 0) (kreturn (- 1)) (\<lambda>n.
     kbind (acquire LTicks) (\<lambda>_.
     kbind (kget ticks) (\<lambda>ticks0.
     sleep_round n ticks0)))"

definition sys_uptime :: "('r proc_state_scheme, int) K" where
  "sys_uptime =
     kbind (acquire LTicks) (\<lambda>_.
     kbind (kget ticks) (\<lambda>xticks.
     kbind (release LTicks) (\<lambda>_.
     kreturn (sint xticks))))"

text \<open>\<^verbatim>\<open>argptr(0, (void*)&r, sizeof(r))\<close> passes the size of the pointer, 4; \<open>now\<close> are the six words \<^verbatim>\<open>cmostime\<close>
  stores.\<close>

definition sys_date :: "u32 list \<Rightarrow> ('r proc_state_scheme, int) K" where
  "sys_date now =
     ktry (argptr 0 4) (kreturn (- 1)) (\<lambda>r.
     kbind (store_user r (concat (map (\<lambda>w. le_enc 4 (unat w)) now))) (\<lambda>_.
     kreturn 0))"

section \<open>Dispatch\<close>

text \<open>\<^verbatim>\<open>syscalls[]\<close>\<close>

definition syscalls :: "u32 list \<Rightarrow> nat \<Rightarrow> ('r cons_state_scheme, int) K option" where
  "syscalls now num =
     map_of
      [(1, sys_fork), (2, sys_exit), (3, sys_wait), (4, sys_pipe), (5, sys_read kernel_devsw), (6, sys_kill),
       (7, sys_exec kernel_devsw), (8, sys_fstat), (9, sys_chdir kernel_devsw), (10, sys_dup), (11, sys_getpid),
       (12, sys_sbrk), (13, sys_sleep), (14, sys_uptime), (15, sys_open kernel_devsw), (16, sys_write kernel_devsw),
       (17, sys_mknod kernel_devsw), (18, sys_unlink kernel_devsw), (19, sys_link kernel_devsw),
       (20, sys_mkdir kernel_devsw), (21, sys_close), (22, sys_date now)] num"

definition NSYSCALLS :: int where "NSYSCALLS = 23"

definition syscall :: "u32 list \<Rightarrow> ('r cons_state_scheme, unit) K" where
  "syscall now =
     kbind myproc (\<lambda>cp.
     (let p = the cp in
      kbind (get_proc p (\<lambda>q. sint (tf_eax (p_tf q)))) (\<lambda>num.
      kbind (if 0 < num \<and> num < NSYSCALLS then
               (case syscalls now (nat num) of
                  Some f \<Rightarrow> f
                | None \<Rightarrow> kreturn (- 1))
             else kreturn (- 1)) (\<lambda>r.
      upd_proc p (\<lambda>q. q\<lparr>p_tf := (p_tf q)\<lparr>tf_eax := of_int r\<rparr>\<rparr>)))))"

section \<open>Traps\<close>

definition T_SYSCALL :: u32 where "T_SYSCALL = 64"
definition T_IRQ0 :: u32 where "T_IRQ0 = 32"
definition IRQ_TIMER :: u32 where "IRQ_TIMER = 0"
definition IRQ_KBD :: u32 where "IRQ_KBD = 1"
definition IRQ_COM1 :: u32 where "IRQ_COM1 = 4"
definition IRQ_IDE :: u32 where "IRQ_IDE = 14"
definition IRQ_SPURIOUS :: u32 where "IRQ_SPURIOUS = 31"

text \<open>What the machine supplies when a trap is taken: the processor's number, the bytes waiting in the keyboard
  controller and the serial port, and the time.\<close>

record trap_env =
  te_cpu :: nat
  te_kbd :: "byte list"
  te_com :: "byte list"
  te_now :: "u32 list"

definition cur_killed :: "('r proc_state_scheme, bool) K" where
  "cur_killed =
     kbind myproc (\<lambda>cp.
     case cp of None \<Rightarrow> kreturn False | Some p \<Rightarrow> get_proc p p_killed)"

definition trap_timer :: "nat \<Rightarrow> ('r proc_state_scheme, unit) K" where
  "trap_timer cpu =
     (if cpu = 0 then
        kbind (acquire LTicks) (\<lambda>_.
        kbind (kmod (\<lambda>s. s\<lparr>ticks := ticks s + 1\<rparr>)) (\<lambda>_.
        kbind (wakeup ChanTicks) (\<lambda>_.
        release LTicks)))
      else kreturn ())"

text \<open>The switch over the trap number. \<^verbatim>\<open>ideintr\<close> does nothing in the build with the memory disk.\<close>

definition trap_switch :: "trap_env \<Rightarrow> trapframe \<Rightarrow> ('r cons_state_scheme, unit) K" where
  "trap_switch env tf =
     (let no = tf_trapno tf in
      if no = T_IRQ0 + IRQ_TIMER then trap_timer (te_cpu env)
      else if no = T_IRQ0 + IRQ_IDE then kreturn ()
      else if no = T_IRQ0 + IRQ_IDE + 1 then kreturn ()
      else if no = T_IRQ0 + IRQ_KBD then kbdintr (te_kbd env)
      else if no = T_IRQ0 + IRQ_COM1 then uartintr (te_com env)
      else if no = T_IRQ0 + 7 \<or> no = T_IRQ0 + IRQ_SPURIOUS then kreturn ()
      else
        kbind myproc (\<lambda>cp.
        case cp of
          None \<Rightarrow> kpanic ''trap''
        | Some p \<Rightarrow>
            if tf_cs tf AND 3 = 0 then kpanic ''trap''
            else upd_proc p (\<lambda>q. q\<lparr>p_killed := True\<rparr>)))"

text \<open>
  \<^verbatim>\<open>trap\<close>. The process runs on after \<^verbatim>\<open>yield\<close> when it is scheduled again; the test for a pending kill that follows
  is then made in the state of that moment.
\<close>

definition trap :: "trap_env \<Rightarrow> trapframe \<Rightarrow> ('r cons_state_scheme, unit) K" where
  "trap env tf =
     (if tf_trapno tf = T_SYSCALL then
        kbind cur_killed (\<lambda>k1.
        if k1 then exit
        else
          kbind myproc (\<lambda>cp.
          kbind (upd_proc (the cp) (\<lambda>q. q\<lparr>p_tf := tf\<rparr>)) (\<lambda>_.
          kbind (syscall (te_now env)) (\<lambda>_.
          kbind cur_killed (\<lambda>k2.
          if k2 then exit else kreturn ())))))
      else
        kbind (trap_switch env tf) (\<lambda>_.
        kbind cur_killed (\<lambda>k1.
        if k1 \<and> tf_cs tf AND 3 = DPL_USER then exit
        else
          kbind myproc (\<lambda>cp.
          kbind (case cp of
                   None \<Rightarrow> kreturn False
                 | Some p \<Rightarrow> get_proc p (\<lambda>q. p_state q = RUNNING)) (\<lambda>running.
          kbind (if running \<and> tf_trapno tf = T_IRQ0 + IRQ_TIMER then yield else kreturn ()) (\<lambda>_.
          kbind cur_killed (\<lambda>k2.
          if k2 \<and> tf_cs tf AND 3 = DPL_USER then exit else kreturn ())))))))"

end
