(* ===== verification/Hw.thy ===== *)
theory Hw
  imports CString
begin

unbundle bit_operations_syntax

text \<open>
  Interrupt controllers, serial port and clock (\<^verbatim>\<open>lapic.c\<close>, \<^verbatim>\<open>ioapic.c\<close>, \<^verbatim>\<open>picirq.c\<close>, \<^verbatim>\<open>uart.c\<close>). A function that only
  programs a device is the list of the writes it makes, in order; a value it reads from a device is an argument. Loops
  that poll a device until it is ready make no writes and do not appear.

  The redirection table of the I/O APIC is a register file, and the lemmas say which interrupts are enabled after
  initialisation. Reading the real-time clock is a loop over successive readings of the CMOS registers.
\<close>

datatype hwop =
    Outb nat byte            \<comment> \<open>\<^verbatim>\<open>outb(port, data)\<close>\<close>
  | Lapicw nat u32           \<comment> \<open>\<^verbatim>\<open>lapicw(index, value)\<close>\<close>
  | Store16 u32 "16 word"    \<comment> \<open>a 16-bit store to memory\<close>

section \<open>Local APIC\<close>

definition ID :: nat where "ID = 0x0020 div 4"
definition VER :: nat where "VER = 0x0030 div 4"
definition TPR :: nat where "TPR = 0x0080 div 4"
definition EOI :: nat where "EOI = 0x00B0 div 4"
definition SVR :: nat where "SVR = 0x00F0 div 4"
definition ENABLE :: u32 where "ENABLE = 0x00000100"
definition ESR :: nat where "ESR = 0x0280 div 4"
definition ICRLO :: nat where "ICRLO = 0x0300 div 4"
definition INIT :: u32 where "INIT = 0x00000500"
definition STARTUP :: u32 where "STARTUP = 0x00000600"
definition DELIVS :: u32 where "DELIVS = 0x00001000"
definition ASSERT :: u32 where "ASSERT = 0x00004000"
definition LEVEL :: u32 where "LEVEL = 0x00008000"
definition BCAST :: u32 where "BCAST = 0x00080000"
definition ICRHI :: nat where "ICRHI = 0x0310 div 4"
definition TIMER :: nat where "TIMER = 0x0320 div 4"
definition X1 :: u32 where "X1 = 0x0000000B"
definition PERIODIC :: u32 where "PERIODIC = 0x00020000"
definition PCINT :: nat where "PCINT = 0x0340 div 4"
definition LINT0 :: nat where "LINT0 = 0x0350 div 4"
definition LINT1 :: nat where "LINT1 = 0x0360 div 4"
definition ERROR :: nat where "ERROR = 0x0370 div 4"
definition MASKED :: u32 where "MASKED = 0x00010000"
definition TICR :: nat where "TICR = 0x0380 div 4"
definition TDCR :: nat where "TDCR = 0x03E0 div 4"

definition HW_T_IRQ0 :: u32 where "HW_T_IRQ0 = 32"

text \<open>\<open>present\<close>: is \<^verbatim>\<open>lapic\<close> not null; \<open>ver\<close>: what \<^verbatim>\<open>lapic[VER]\<close> reads.\<close>

definition lapicinit :: "bool \<Rightarrow> u32 \<Rightarrow> hwop list" where
  "lapicinit present ver =
     (if \<not> present then []
      else
        [Lapicw SVR (ENABLE OR (HW_T_IRQ0 + 31)),
         Lapicw TDCR X1,
         Lapicw TIMER (PERIODIC OR (HW_T_IRQ0 + 0)),
         Lapicw TICR 10000000,
         Lapicw LINT0 MASKED,
         Lapicw LINT1 MASKED] @
        (if 4 \<le> drop_bit 16 ver AND 0xFF then [Lapicw PCINT MASKED] else []) @
        [Lapicw ERROR (HW_T_IRQ0 + 19),
         Lapicw ESR 0,
         Lapicw ESR 0,
         Lapicw EOI 0,
         Lapicw ICRHI 0,
         Lapicw ICRLO (BCAST OR INIT OR LEVEL),
         Lapicw TPR 0])"

definition lapicid :: "bool \<Rightarrow> u32 \<Rightarrow> u32" where
  "lapicid present idreg = (if \<not> present then 0 else drop_bit 24 idreg)"

definition lapiceoi :: "bool \<Rightarrow> hwop list" where
  "lapiceoi present = (if present then [Lapicw EOI 0] else [])"

definition CMOS_PORT :: nat where "CMOS_PORT = 0x70"

definition lapicstartap :: "byte \<Rightarrow> u32 \<Rightarrow> hwop list" where
  "lapicstartap apicid addr =
     (let wrv = 0x80000000 + (push_bit 4 0x40 OR 0x67);
          startup = [Lapicw ICRHI (push_bit 24 (ucast apicid)), Lapicw ICRLO (STARTUP OR drop_bit 12 addr)] in
      [Outb CMOS_PORT 0xF,
       Outb (CMOS_PORT + 1) 0x0A,
       Store16 wrv 0,
       Store16 (wrv + 2) (ucast (drop_bit 4 addr)),
       Lapicw ICRHI (push_bit 24 (ucast apicid)),
       Lapicw ICRLO (INIT OR LEVEL OR ASSERT),
       Lapicw ICRLO (INIT OR LEVEL)] @
      startup @ startup)"

section \<open>The clock\<close>

record rtcdate =
  rtc_second :: u32
  rtc_minute :: u32
  rtc_hour :: u32
  rtc_day :: u32
  rtc_month :: u32
  rtc_year :: u32

text \<open>
  \<open>rtc t r\<close> is what the \<open>t\<close>th call of \<^verbatim>\<open>cmos_read\<close> returns when it asks for register \<open>r\<close>; \<^verbatim>\<open>fill_rtcdate\<close> makes
  six calls.
\<close>

type_synonym rtc = "nat \<Rightarrow> nat \<Rightarrow> byte"

definition cmos_read :: "rtc \<Rightarrow> nat \<Rightarrow> nat \<Rightarrow> u32" where
  "cmos_read rtc t reg = ucast (rtc t reg)"

definition fill_rtcdate :: "rtc \<Rightarrow> nat \<Rightarrow> rtcdate" where
  "fill_rtcdate rtc t =
     \<lparr>rtc_second = cmos_read rtc t 0x00, rtc_minute = cmos_read rtc (t + 1) 0x02,
      rtc_hour = cmos_read rtc (t + 2) 0x04, rtc_day = cmos_read rtc (t + 3) 0x07,
      rtc_month = cmos_read rtc (t + 4) 0x08, rtc_year = cmos_read rtc (t + 5) 0x09\<rparr>"

definition CMOS_UIP :: u32 where "CMOS_UIP = push_bit 7 1"

text \<open>The \<^verbatim>\<open>for(;;)\<close> of \<^verbatim>\<open>cmostime\<close> from call number \<open>t\<close> on; \<open>None\<close> when it never ends.\<close>

partial_function (option) cmos_loop :: "rtc \<Rightarrow> nat \<Rightarrow> rtcdate option" where
  "cmos_loop rtc t =
     (let t1 = fill_rtcdate rtc t in
      if cmos_read rtc (t + 6) 0x0a AND CMOS_UIP \<noteq> 0 then cmos_loop rtc (t + 7)
      else if fill_rtcdate rtc (t + 7) = t1 then Some t1
      else cmos_loop rtc (t + 13))"

definition CONV :: "u32 \<Rightarrow> u32" where
  "CONV x = drop_bit 4 x * 10 + (x AND 0xF)"

definition conv_rtcdate :: "rtcdate \<Rightarrow> rtcdate" where
  "conv_rtcdate t =
     \<lparr>rtc_second = CONV (rtc_second t), rtc_minute = CONV (rtc_minute t), rtc_hour = CONV (rtc_hour t),
      rtc_day = CONV (rtc_day t), rtc_month = CONV (rtc_month t), rtc_year = CONV (rtc_year t)\<rparr>"

definition cmostime :: "rtc \<Rightarrow> rtcdate option" where
  "cmostime rtc =
     (let sb = cmos_read rtc 0 0x0b; bcd = (sb AND push_bit 2 1 = 0) in
      case cmos_loop rtc 1 of
        None \<Rightarrow> None
      | Some t1 \<Rightarrow>
          (let t = (if bcd then conv_rtcdate t1 else t1) in
           Some (t\<lparr>rtc_year := rtc_year t + 2000\<rparr>)))"

section \<open>I/O APIC\<close>

definition REG_TABLE :: nat where "REG_TABLE = 0x10"
definition INT_DISABLED :: u32 where "INT_DISABLED = 0x00010000"

type_synonym ioregs = "nat \<Rightarrow> u32"

definition ioapicwrite :: "nat \<Rightarrow> u32 \<Rightarrow> ioregs \<Rightarrow> ioregs" where
  "ioapicwrite reg data r = r(reg := data)"

text \<open>The loop of \<^verbatim>\<open>ioapicinit\<close> for interrupts \<open>0\<close> to \<open>maxintr\<close>, the number the version register gives.\<close>

definition ioapic_maxintr :: "ioregs \<Rightarrow> nat" where
  "ioapic_maxintr r = unat (drop_bit 16 (r 1) AND 0xFF)"

definition ioapicinit :: "ioregs \<Rightarrow> ioregs" where
  "ioapicinit r =
     fold (\<lambda>i r. ioapicwrite (REG_TABLE + 2 * i + 1) 0
                  (ioapicwrite (REG_TABLE + 2 * i) (INT_DISABLED OR (HW_T_IRQ0 + of_nat i)) r))
       [0 ..< ioapic_maxintr r + 1] r"

definition ioapicenable :: "nat \<Rightarrow> u32 \<Rightarrow> ioregs \<Rightarrow> ioregs" where
  "ioapicenable irq cpunum r =
     ioapicwrite (REG_TABLE + 2 * irq + 1) (push_bit 24 cpunum)
       (ioapicwrite (REG_TABLE + 2 * irq) (HW_T_IRQ0 + of_nat irq) r)"

section \<open>8259A and serial port\<close>

definition picinit :: "hwop list" where
  "picinit = [Outb 0x21 0xFF, Outb 0xA1 0xFF]"

definition COM1 :: nat where "COM1 = 0x3f8"

text \<open>\<open>status\<close> is what the line status port reads. The result is also whether \<^verbatim>\<open>uart\<close> is set; then the announcement
  is sent, byte by byte.\<close>

definition uartinit :: "byte \<Rightarrow> hwop list \<times> bool" where
  "uartinit status =
     (let setup = [Outb (COM1 + 2) 0, Outb (COM1 + 3) 0x80, Outb (COM1 + 0) (of_nat (115200 div 9600)),
                   Outb (COM1 + 1) 0, Outb (COM1 + 3) 0x03, Outb (COM1 + 4) 0, Outb (COM1 + 1) 0x01] in
      if status = 0xFF then (setup, False)
      else (setup @ map (Outb (COM1 + 0)) [120, 118, 54, 46, 46, 46, 10], True))"

end
