(* ===== verification/Mp.thy ===== *)
theory Mp
  imports CString
begin

text \<open>
  Finding the processors (\<^verbatim>\<open>mp.c\<close>, \<^verbatim>\<open>mp.h\<close>). Physical memory below 1 MB, where the tables are, is a function from
  addresses to bytes. The loop of \<^verbatim>\<open>mpinit\<close> over the table entries is a partial function: on an entry of unknown
  type it does not end.
\<close>

type_synonym pmem = "nat \<Rightarrow> byte"

definition NCPU :: nat where "NCPU = 8"

definition bytes_at :: "pmem \<Rightarrow> nat \<Rightarrow> nat \<Rightarrow> byte list" where
  "bytes_at m a n = map m [a ..< a + n]"

text \<open>\<^verbatim>\<open>sum\<close>: a \<^verbatim>\<open>uchar\<close>, so modulo 256.\<close>

definition mp_sum :: "pmem \<Rightarrow> nat \<Rightarrow> nat \<Rightarrow> byte" where
  "mp_sum m a len = sum_list (bytes_at m a len)"

definition MP_SIZE :: nat where "MP_SIZE = 16"
definition MPCONF_SIZE :: nat where "MPCONF_SIZE = 44"

definition sig_mp :: "byte list" where "sig_mp = [95, 77, 80, 95]"
definition sig_pcmp :: "byte list" where "sig_pcmp = [80, 67, 77, 80]"

definition mpsearch1 :: "pmem \<Rightarrow> nat \<Rightarrow> nat \<Rightarrow> nat option" where
  "mpsearch1 m a len =
     List.find (\<lambda>p. memcmp (bytes_at m p 4) sig_mp 4 = 0 \<and> mp_sum m p MP_SIZE = 0)
       (map (\<lambda>i. a + i * MP_SIZE) [0 ..< (len + MP_SIZE - 1) div MP_SIZE])"

text \<open>The BIOS data area is at \<^verbatim>\<open>0x400\<close>.\<close>

definition mpsearch :: "pmem \<Rightarrow> nat option" where
  "mpsearch m =
     (let ebda = (unat (m 0x40F) * 256 + unat (m 0x40E)) * 16;
          rom = mpsearch1 m 0xF0000 0x10000 in
      if ebda \<noteq> 0 then
        (case mpsearch1 m ebda 1024 of Some p \<Rightarrow> Some p | None \<Rightarrow> rom)
      else
        (let base = (unat (m 0x414) * 256 + unat (m 0x413)) * 1024 in
         case mpsearch1 m ((base + 2 ^ 32 - 1024) mod 2 ^ 32) 1024 of Some p \<Rightarrow> Some p | None \<Rightarrow> rom))"

definition conf_length :: "pmem \<Rightarrow> nat \<Rightarrow> nat" where
  "conf_length m conf = le_dec (bytes_at m (conf + 4) 2)"

text \<open>The addresses of the floating pointer and of the configuration table.\<close>

definition mpconfig :: "pmem \<Rightarrow> (nat \<times> nat) option" where
  "mpconfig m =
     (case mpsearch m of
        None \<Rightarrow> None
      | Some mp \<Rightarrow>
          (let conf = le_dec (bytes_at m (mp + 4) 4) in
           if conf = 0 then None
           else if memcmp (bytes_at m conf 4) sig_pcmp 4 \<noteq> 0 then None
           else if m (conf + 6) \<noteq> 1 \<and> m (conf + 6) \<noteq> 4 then None
           else if mp_sum m conf (conf_length m conf) \<noteq> 0 then None
           else Some (mp, conf)))"

text \<open>What \<^verbatim>\<open>mpinit\<close> collects: the APIC ids of the processors (\<^verbatim>\<open>cpus[0..ncpu)\<close>) and the id of the I/O APIC.\<close>

record mp_info =
  mp_apicids :: "byte list"
  mp_ioapicid :: byte

definition add_cpu :: "byte \<Rightarrow> mp_info \<Rightarrow> mp_info" where
  "add_cpu a i = (if length (mp_apicids i) < NCPU then i\<lparr>mp_apicids := mp_apicids i @ [a]\<rparr> else i)"

partial_function (option) mp_scan :: "pmem \<Rightarrow> nat \<Rightarrow> nat \<Rightarrow> mp_info \<Rightarrow> mp_info option" where
  "mp_scan m p e i =
     (if e \<le> p then Some i
      else if m p = 0 then mp_scan m (p + 20) e (add_cpu (m (p + 1)) i)
      else if m p = 2 then mp_scan m (p + 8) e (i\<lparr>mp_ioapicid := m (p + 1)\<rparr>)
      else if m p = 1 \<or> m p = 3 \<or> m p = 4 then mp_scan m (p + 8) e i
      else mp_scan m p e i)"

datatype mp_result = MpInfo mp_info nat bool | MpPanic string | MpHang

text \<open>The second component of \<open>MpInfo\<close> is \<^verbatim>\<open>conf->lapicaddr\<close>, the third whether the IMCR is written (\<^verbatim>\<open>mp->imcrp\<close>).\<close>

definition mpinit :: "pmem \<Rightarrow> mp_result" where
  "mpinit m =
     (case mpconfig m of
        None \<Rightarrow> MpPanic ''Expect to run on an SMP''
      | Some (mp, conf) \<Rightarrow>
          (case mp_scan m (conf + MPCONF_SIZE) (conf + conf_length m conf) \<lparr>mp_apicids = [], mp_ioapicid = 0\<rparr> of
             None \<Rightarrow> MpHang
           | Some i \<Rightarrow> MpInfo i (le_dec (bytes_at m (conf + 36) 4)) (m (mp + 12) \<noteq> 0)))"

section \<open>When the scan ends\<close>

text \<open>The entries of a configuration table: their types and the bytes that follow.\<close>

definition known_entry :: "byte \<Rightarrow> bool" where
  "known_entry t \<longleftrightarrow> t = 0 \<or> t = 1 \<or> t = 2 \<or> t = 3 \<or> t = 4"

definition entry_size :: "byte \<Rightarrow> nat" where
  "entry_size t = (if t = 0 then 20 else 8)"

inductive mp_table :: "pmem \<Rightarrow> nat \<Rightarrow> nat \<Rightarrow> (byte \<times> byte) list \<Rightarrow> bool" for m where
  table_end: "e \<le> p \<Longrightarrow> mp_table m p e []"
| table_entry: "p < e \<Longrightarrow> known_entry (m p) \<Longrightarrow> mp_table m (p + entry_size (m p)) e es \<Longrightarrow>
     mp_table m p e ((m p, m (p + 1)) # es)"

definition collect :: "byte \<times> byte \<Rightarrow> mp_info \<Rightarrow> mp_info" where
  "collect = (\<lambda>(t, x) i. if t = 0 then add_cpu x i else if t = 2 then i\<lparr>mp_ioapicid := x\<rparr> else i)"

lemma mp_scan_table: "mp_table m p e es \<Longrightarrow> mp_scan m p e i = Some (fold collect es i)"
proof (induction arbitrary: i rule: mp_table.induct)
  case (table_end e p)
  then show ?case by (subst mp_scan.simps) simp
next
  case (table_entry p e es)
  then show ?case
    by (subst mp_scan.simps) (auto simp: known_entry_def entry_size_def collect_def)
qed

lemma table_step:
  "mp_table m (p + entry_size (m p)) e es \<Longrightarrow> j = fold collect es (collect (m p, m (p + 1)) i) \<Longrightarrow> p < e \<Longrightarrow> known_entry (m p) \<Longrightarrow>
    \<exists>es. mp_table m p e es \<and> j = fold collect es i"
  by (rule exI [of _ "(m p, m (p + 1)) # es"]) (simp add: table_entry)

lemma mp_scan_Some: "mp_scan m p e i = Some j \<Longrightarrow> \<exists>es. mp_table m p e es \<and> j = fold collect es i"
proof (erule mp_scan.raw_induct [where P = "\<lambda>m p e i j. \<exists>es. mp_table m p e es \<and> j = fold collect es i", rotated])
  fix scan m p e i j
  assume 1: "\<And>m p e i j. scan m p e i = Some j \<Longrightarrow> \<exists>es. mp_table m p e es \<and> j = fold collect es i"
    "(if e \<le> p then Some i
      else if m p = 0 then scan m (p + 20) e (add_cpu (m (p + 1)) i)
      else if m p = 2 then scan m (p + 8) e (i\<lparr>mp_ioapicid := m (p + 1)\<rparr>)
      else if m p = 1 \<or> m p = 3 \<or> m p = 4 then scan m (p + 8) e i
      else scan m p e i) = Some j"
  show "\<exists>es. mp_table m p e es \<and> j = fold collect es i"
  proof (cases "e \<le> p")
    case True
    then show ?thesis using 1(2) table_end [of e p m] by (intro exI [of _ "[]"]) simp
  next
    case False
    show ?thesis
    proof (cases "known_entry (m p)")
      case True
      then have "scan m (p + entry_size (m p)) e (collect (m p, m (p + 1)) i) = Some j"
        using 1(2) False by (auto simp: known_entry_def entry_size_def collect_def)
      then obtain es where "mp_table m (p + entry_size (m p)) e es" "j = fold collect es (collect (m p, m (p + 1)) i)"
        using 1(1) by blast
      then show ?thesis using table_step [of m p e es j i] True False by simp
    next
      case unknown: False
      then have "scan m p e i = Some j" using 1(2) False by (auto simp: known_entry_def)
      then show ?thesis by (rule 1(1))
    qed
  qed
qed


end
