(* ===== verification/Ide.thy ===== *)
theory Ide
  imports Bio
begin

unbundle bit_operations_syntax

text \<open>
  The IDE disk driver (\<^verbatim>\<open>ide.c\<close>), the alternative to the memory disk of theory Bio: requests queue up behind the one the
  disk is working on, the process sleeps, and the interrupt handler completes the request and starts the next.

  The disk is modelled as the ATA contract the driver relies on: a command names a drive, a sector and a direction; when
  it completes, a written sector has the data that was sent, and a read delivers the sector's content. The pointers
  \<^verbatim>\<open>qnext\<close> form the list \<open>idequeue\<close>.
\<close>

section \<open>State\<close>

definition FSSIZE :: nat where "FSSIZE = 1000"

record ata_cmd =
  ata_write :: bool
  ata_drive :: nat
  ata_sector :: nat
  ata_data :: "byte list"       \<comment> \<open>what \<^verbatim>\<open>outsl\<close> sent, for a write\<close>

record ide_state = bio_state +
  idequeue :: "nat list"
  havedisk1 :: bool
  ata :: "ata_cmd option"       \<comment> \<open>the command the disk is working on\<close>

section \<open>Driver\<close>

text \<open>The seven \<^verbatim>\<open>outb\<close> of \<^verbatim>\<open>idestart\<close> put the sector number into four registers, 28 bits in all.\<close>

definition ata_regs :: "nat \<Rightarrow> nat \<Rightarrow> nat \<times> nat" where
  "ata_regs dev sector =
     (let r3 = sector mod 256; r4 = sector div 256 mod 256; r5 = sector div 65536 mod 256;
          r6 = dev mod 2 * 16 + sector div 16777216 mod 16 in
      (r6 div 16, r3 + 256 * r4 + 65536 * r5 + 16777216 * (r6 mod 16)))"

definition idestart :: "nat \<Rightarrow> ('r ide_state_scheme, unit) K" where
  "idestart b =
     kbind (get_buf b (\<lambda>f. f)) (\<lambda>f.
     if FSSIZE \<le> b_blockno f then kpanic ''incorrect blockno''
     else
       (let (drive, sector) = ata_regs (b_dev f) (b_blockno f * (BSIZE div 512)) in
        kmod (\<lambda>s. s\<lparr>ata := Some \<lparr>ata_write = b_dirty f, ata_drive = drive, ata_sector = sector,
                                  ata_data = (if b_dirty f then b_data f else [])\<rparr>\<rparr>)))"

text \<open>
  \<^verbatim>\<open>ideintr\<close>. \<open>ok\<close> is whether \<^verbatim>\<open>idewait(1)\<close> finds no error; \<open>insl\<close> is what the data port delivers.
\<close>

definition ideintr :: "bool \<Rightarrow> byte list \<Rightarrow> ('r ide_state_scheme, unit) K" where
  "ideintr ok insl =
     kbind (acquire LIde) (\<lambda>_.
     kbind (kget idequeue) (\<lambda>q.
     case q of
       [] \<Rightarrow> release LIde
     | b # rest \<Rightarrow>
         kbind (kmod (\<lambda>s. s\<lparr>idequeue := rest\<rparr>)) (\<lambda>_.
         kbind (get_buf b b_dirty) (\<lambda>dirty.
         kbind (if \<not> dirty \<and> ok then upd_buf b (\<lambda>f. f\<lparr>b_data := insl\<rparr>) else kreturn ()) (\<lambda>_.
         kbind (upd_buf b (\<lambda>f. f\<lparr>b_valid := True, b_dirty := False\<rparr>)) (\<lambda>_.
         kbind (wakeup (ChanBuf b)) (\<lambda>_.
         kbind (case rest of [] \<Rightarrow> kreturn () | c # _ \<Rightarrow> idestart c) (\<lambda>_.
         release LIde))))))))"

text \<open>The end of \<^verbatim>\<open>iderw\<close>, with \<^verbatim>\<open>idelock\<close> held: wait until the request is done.\<close>

definition ide_wait_done :: "nat \<Rightarrow> ('r ide_state_scheme, unit) K" where
  "ide_wait_done b =
     kbind (get_buf b (\<lambda>f. b_valid f \<and> \<not> b_dirty f)) (\<lambda>d.
     if \<not> d then sleep (ChanBuf b) LIde else release LIde)"

definition ide_iderw :: "nat \<Rightarrow> ('r ide_state_scheme, unit) K" where
  "ide_iderw b =
     kbind (holdingsleep_buf b) (\<lambda>h.
     if \<not> h then kpanic ''iderw: buf not locked''
     else
       kbind (kget (\<lambda>s. (bufs s ! b, havedisk1 s))) (\<lambda>(f, have1).
       if b_valid f \<and> \<not> b_dirty f then kpanic ''iderw: nothing to do''
       else if b_dev f \<noteq> 0 \<and> \<not> have1 then kpanic ''iderw: ide disk 1 not present''
       else
         kbind (acquire LIde) (\<lambda>_.
         kbind (kmod (\<lambda>s. s\<lparr>idequeue := idequeue s @ [b]\<rparr>)) (\<lambda>_.
         kbind (kget idequeue) (\<lambda>q.
         kbind (if hd q = b then idestart b else kreturn ()) (\<lambda>_.
         ide_wait_done b))))))"

section \<open>The disk\<close>

text \<open>
  The disk completes its command: the sectors of drive 1 afterwards, and what the data port delivers. It then raises
  the interrupt.
\<close>

definition ata_complete :: "ata_cmd \<Rightarrow> diskimg \<Rightarrow> diskimg \<times> byte list" where
  "ata_complete c d =
     (if ata_write c then (d(ata_sector c := ata_data c), []) else (d, d (ata_sector c)))"

definition disk_interrupt :: "('r ide_state_scheme, unit) K" where
  "disk_interrupt =
     kbind (kget (\<lambda>s. (ata s, disk s))) (\<lambda>(a, d).
     case a of
       None \<Rightarrow> kreturn ()
     | Some c \<Rightarrow>
         (let (d', insl) = ata_complete c d in
          kbind (kmod (\<lambda>s. s\<lparr>disk := d', ata := None\<rparr>)) (\<lambda>_.
          ideintr True insl)))"

section \<open>The registers\<close>

lemma ata_regs_eq: "sector < 2 ^ 28 \<Longrightarrow> ata_regs dev sector = (dev mod 2, sector)"
proof -
  assume "sector < 2 ^ 28"
  then have s: "sector < 268435456" by simp
  have a: "sector div 65536 = sector div 256 div 256" "sector div 16777216 = sector div 256 div 256 div 256"
    by (simp_all add: div_mult2_eq [symmetric])
  define q1 q2 q3 where q: "q1 = sector div 256" "q2 = q1 div 256" "q3 = q2 div 256"
  have "sector = 256 * q1 + sector mod 256" "q1 = 256 * q2 + q1 mod 256" "q2 = 256 * q3 + q2 mod 256"
    using q mult_div_mod_eq [of 256] by metis+
  moreover have "q3 < 16" using s unfolding q by (simp add: less_mult_imp_div_less)
  ultimately have "sector mod 256 + 256 * (q1 mod 256) + 65536 * (q2 mod 256) + 16777216 * (q3 mod 16) = sector"
    by simp
  then show ?thesis by (simp add: ata_regs_def Let_def a q)
qed

section \<open>The queue\<close>

definition ata_of :: "buf \<Rightarrow> ata_cmd" where
  "ata_of f = \<lparr>ata_write = b_dirty f, ata_drive = 1, ata_sector = b_blockno f, ata_data = (if b_dirty f then b_data f else [])\<rparr>"

definition request :: "buf \<Rightarrow> bool" where
  "request f \<longleftrightarrow> \<not> (b_valid f \<and> \<not> b_dirty f) \<and> b_dev f = 1 \<and> b_blockno f < FSSIZE"

text \<open>The disk works on the first request of the queue, and every buffer in the queue has something to do.\<close>

definition ide_inv :: "'r ide_state_scheme \<Rightarrow> bool" where
  "ide_inv s \<longleftrightarrow> distinct (idequeue s) \<and> (\<forall>b \<in> set (idequeue s). b < length (bufs s) \<and> request (bufs s ! b)) \<and>
     ata s = (case idequeue s of [] \<Rightarrow> None | b # _ \<Rightarrow> Some (ata_of (bufs s ! b)))"

text \<open>What a transfer does to the buffers and the disk.\<close>

definition transfer :: "nat \<Rightarrow> buf list \<times> diskimg \<Rightarrow> buf list \<times> diskimg" where
  "transfer b = (\<lambda>(bs, d).
     if b_dirty (bs ! b) then
       (bs[b := (bs ! b)\<lparr>b_dirty := False, b_valid := True\<rparr>], d(b_blockno (bs ! b) := b_data (bs ! b)))
     else (bs[b := (bs ! b)\<lparr>b_data := d (b_blockno (bs ! b)), b_valid := True\<rparr>], d))"

lemma iderw_transfer:
  assumes "iderw b s = Ok u t" and "b < length (bufs s)"
  shows "(bufs t, disk t) = transfer b (bufs s, disk s)"
  using assms
  by (auto simp: iderw_def kbind_Ok_iff kpanic_def kget_def kmod_def upd_buf_def transfer_def holdingsleep_buf_def holdingsleep_def
      acquire_eq release_Ok_iff myproc_eq get_proc_def kreturn_def split: if_splits)

lemma buf_updates:
  fixes f :: buf
  shows "f\<lparr>b_valid := True, b_dirty := False\<rparr> = f\<lparr>b_dirty := False, b_valid := True\<rparr>"
    and "\<not> b_dirty f \<Longrightarrow> f\<lparr>b_data := x, b_dirty := False, b_valid := True\<rparr> = f\<lparr>b_data := x, b_valid := True\<rparr>"
  by simp_all

lemma ide_acq_rel [simp]:
  "idequeue (acq lk s) = idequeue s" "idequeue (rel lk s) = idequeue s" "idequeue (wakes ch s) = idequeue s"
  "idequeue (cli_touch s) = idequeue s" "ata (acq lk s) = ata s" "ata (rel lk s) = ata s" "ata (wakes ch s) = ata s"
  "ata (cli_touch s) = ata s" "havedisk1 (acq lk s) = havedisk1 s" "havedisk1 (rel lk s) = havedisk1 s"
  "havedisk1 (cli_touch s) = havedisk1 s"
  by (simp_all add: acq_def rel_def wakes_def cli_touch_def)

lemma ide_asleep [simp]:
  "idequeue (asleep p ch s) = idequeue s" "ata (asleep p ch s) = ata s" "bufs (asleep p ch s) = bufs s" "disk (asleep p ch s) = disk s"
  by (simp_all add: asleep_def)

lemma ide_inv_cong: "ide_inv s \<Longrightarrow> idequeue t = idequeue s \<Longrightarrow> bufs t = bufs s \<Longrightarrow> ata t = ata s \<Longrightarrow> ide_inv t"
  by (simp add: ide_inv_def split: list.splits)

lemma idestart_eq:
  assumes "b_blockno (bufs s ! b) < FSSIZE" "b_dev (bufs s ! b) = 1"
  shows "idestart b s = Ok () (s\<lparr>ata := Some (ata_of (bufs s ! b))\<rparr>)"
proof -
  have "ata_regs 1 (b_blockno (bufs s ! b) * (BSIZE div 512)) = (1, b_blockno (bufs s ! b))"
    using assms(1) by (subst ata_regs_eq) (simp_all add: FSSIZE_def BSIZE_def)
  then show ?thesis using assms by (simp add: idestart_def k_defs get_buf_def ata_of_def)
qed

lemma wp_idestart:
  assumes "b_blockno (bufs s ! b) < FSSIZE" "b_dev (bufs s ! b) = 1"
  shows "wp (idestart b) Q s = Q () (s\<lparr>ata := Some (ata_of (bufs s ! b))\<rparr>)"
  by (simp add: wp_def idestart_eq [OF assms])

lemma disk_interrupt_step:
  fixes s :: "'r ide_state_scheme"
  assumes inv: "ide_inv s" and q: "idequeue s = b # rest" and lk: "LIde \<notin> held s" "LPtable \<notin> held s"
  shows "wp disk_interrupt (\<lambda>_ t. ide_inv t \<and> idequeue t = rest \<and> (bufs t, disk t) = transfer b (bufs s, disk s) \<and>
     none_wait (ChanBuf b) (ptable t) \<and> held t = held s \<and> ncli t = ncli s) s"
proof -
  let ?f = "bufs s ! b"
  have b: "b < length (bufs s)" "request ?f" "b \<notin> set rest" "ata s = Some (ata_of ?f)"
    using inv q by (auto simp: ide_inv_def)
  have r: "b_blockno (bufs s ! c) < FSSIZE" "b_dev (bufs s ! c) = 1" "c \<noteq> b" if "c \<in> set rest" for c
    using inv q that by (auto simp: ide_inv_def request_def)
  have iv: "ide_inv t" if "idequeue t = rest" "bufs t = (bufs s)[b := g]" "ata t = (case rest of [] \<Rightarrow> None | c # _ \<Rightarrow> Some (ata_of (bufs s ! c)))" for t :: "'r ide_state_scheme" and g
  proof -
    have "bufs t ! c = bufs s ! c" if "c \<in> set rest" for c using \<open>bufs t = _\<close> r(3) [OF that] by simp
    then show ?thesis using inv q that by (auto simp: ide_inv_def split: list.splits)
  qed
  have "wp disk_interrupt (\<lambda>_ t. idequeue t = rest \<and> bufs t = fst (transfer b (bufs s, disk s)) \<and>
      disk t = snd (transfer b (bufs s, disk s)) \<and> ata t = (case rest of [] \<Rightarrow> None | c # _ \<Rightarrow> Some (ata_of (bufs s ! c))) \<and>
      none_wait (ChanBuf b) (ptable t) \<and> held t = held s \<and> ncli t = ncli s) s"
    using b lk r
    by (cases rest; cases "b_dirty ?f")
      (simp_all add: disk_interrupt_def ideintr_def wp_simps ata_complete_def ata_of_def get_buf_def upd_buf_def q wp_idestart
        transfer_def buf_updates)
  moreover have "ide_inv t" if "idequeue t = rest" "bufs t = fst (transfer b (bufs s, disk s))"
      "ata t = (case rest of [] \<Rightarrow> None | c # _ \<Rightarrow> Some (ata_of (bufs s ! c)))" for t :: "'r ide_state_scheme"
  proof (rule iv [OF that(1) _ that(3)])
    show "bufs t = (bufs s)[b := fst (transfer b (bufs s, disk s)) ! b]" using b(1) that(2) by (simp add: transfer_def)
  qed
  ultimately show ?thesis
    by (elim wp_mono) simp
qed

definition drain_inv :: "'r ide_state_scheme \<Rightarrow> nat \<Rightarrow> 'r ide_state_scheme \<Rightarrow> bool" where
  "drain_inv s k t \<longleftrightarrow> ide_inv t \<and> idequeue t = drop k (idequeue s) \<and>
     (bufs t, disk t) = fold transfer (take k (idequeue s)) (bufs s, disk s) \<and> held t = held s \<and> ncli t = ncli s"

lemma ide_drain:
  assumes "ide_inv s" "LIde \<notin> held s" "LPtable \<notin> held s"
  shows "wp (kfor [0 ..< length (idequeue s)] (\<lambda>_. disk_interrupt)) (\<lambda>_. drain_inv s (length [0 ..< length (idequeue s)])) s"
proof (rule wp_kfor_inv)
  show "drain_inv s 0 s" using assms(1) by (simp add: drain_inv_def)
  fix k t
  assume k: "k < length [0 ..< length (idequeue s)]" and i: "drain_inv s k t"
  have q: "idequeue t = idequeue s ! k # drop (Suc k) (idequeue s)"
    using k i by (simp add: Cons_nth_drop_Suc drain_inv_def)
  show "wp disk_interrupt (\<lambda>_. drain_inv s (Suc k)) t"
    by (rule wp_mono [OF disk_interrupt_step [OF _ q]])
      (use i k assms in \<open>auto simp: take_Suc_conv_app_nth drain_inv_def\<close>)
qed

lemma transfer_done:
  assumes "b < length bs"
  shows "b_valid (fst (transfer b (bs, d)) ! b) \<and> \<not> b_dirty (fst (transfer b (bs, d)) ! b)"
  using assms by (simp add: transfer_def)

lemma transfer_other: "c \<noteq> b \<Longrightarrow> fst (transfer b x) ! c = fst x ! c" "length (fst (transfer b x)) = length (fst x)"
  by (auto simp: transfer_def split: prod.split)

lemma fold_transfer_done:
  "distinct q \<Longrightarrow> \<forall>b \<in> set q. b < length (fst x) \<Longrightarrow> b \<in> set q \<Longrightarrow>
    b_valid (fst (fold transfer q x) ! b) \<and> \<not> b_dirty (fst (fold transfer q x) ! b)"
proof (induction q rule: rev_induct)
  case (snoc c q)
  have len: "length (fst (fold transfer q x)) = length (fst x)"
    by (induction q arbitrary: x) (simp_all add: transfer_other)
  show ?case
  proof (cases "b = c")
    case True
    then show ?thesis using transfer_done [of c "fst (fold transfer q x)" "snd (fold transfer q x)"] len snoc.prems by simp
  next
    case False
    then show ?thesis using snoc by (simp add: transfer_other)
  qed
qed simp

text \<open>C17. The IDE driver serves its queue in order: a request that joins it puts the process to sleep behind the earlier
  ones, keeping the disk busy with the first one.\<close>

theorem ide_iderw_queues:
  assumes "ide_inv s" "running cp s" "havedisk1 s" and "b < length (bufs s)" "request (bufs s ! b)" "b \<notin> set (idequeue s)"
    and "sl_locked (buf_lock b s)" "sl_pid (buf_lock b s) = p_pid (ptable s ! cp)"
  shows "\<exists>t. ide_iderw b s = Block t \<and> ide_inv t \<and> idequeue t = idequeue s @ [b] \<and> bufs t = bufs s \<and> disk t = disk s \<and>
     waits cp (ChanBuf b) t"
proof -
  note run = assms(2) [unfolded running_def]
  let ?t = "rel (LBufSl b) (cli_touch (acq (LBufSl b) s))"
  have h: "holdingsleep_buf b s = Ok True ?t"
    using run assms(7,8) by (simp add: holdingsleep_buf_def holdingsleep_def kbind_def acquire_eq release_eq myproc_eq k_defs get_proc_def buf_lock_def)
  have sl: "ide_wait_done b u = Block (asleep cp (ChanBuf b) u)"
    if "bufs u = bufs s" "cur u = Some cp" "held u = {LIde}" "ncli u = 1" "cp < length (ptable u)" for u
    using that assms(5) by (simp add: ide_wait_done_def kbind_def get_buf_def kget_def request_def sleep_eq)
  let ?u = "(acq LIde ?t)\<lparr>idequeue := idequeue s @ [b]\<rparr>"
  let ?v = "if idequeue s = [] then ?u\<lparr>ata := Some (ata_of (bufs s ! b))\<rparr> else ?u"
  have "hd (idequeue s @ [b]) = b \<longleftrightarrow> idequeue s = []" using assms(6) by (cases "idequeue s") auto
  then have "ide_iderw b s = ide_wait_done b ?v"
    using h run assms(3,5) by (auto simp: ide_iderw_def kbind_def k_defs request_def acquire_eq idestart_eq)
  also have "\<dots> = Block (asleep cp (ChanBuf b) ?v)" using run by (intro sl) auto
  finally have "ide_iderw b s = Block (asleep cp (ChanBuf b) ?v)" .
  moreover have "ide_inv ?v" using assms(1,4-6) by (auto simp: ide_inv_def split: list.splits)
  moreover have "ide_inv (asleep cp (ChanBuf b) ?v)" by (rule ide_inv_cong [OF \<open>ide_inv ?v\<close>]) simp_all
  moreover have "waits cp (ChanBuf b) (asleep cp (ChanBuf b) ?v)" using run by (intro waits_asleep) simp
  ultimately show ?thesis by auto
qed

text \<open>C18. Once the disk has raised an interrupt for every request in the queue, each has been carried out, in the order of the
  queue and exactly as the memory disk's \<^verbatim>\<open>iderw\<close> would have done it at once, and every buffer is valid and clean.\<close>

theorem ide_serves_queue:
  assumes "ide_inv s" "LIde \<notin> held s" "LPtable \<notin> held s"
  shows "wp (kfor [0 ..< length (idequeue s)] (\<lambda>_. disk_interrupt)) (\<lambda>_ t. idequeue t = [] \<and>
     (bufs t, disk t) = fold transfer (idequeue s) (bufs s, disk s) \<and>
     (\<forall>b \<in> set (idequeue s). b_valid (bufs t ! b) \<and> \<not> b_dirty (bufs t ! b))) s \<and>
     (\<forall>b u v. iderw b (u :: 'b bio_state_scheme) = Ok () v \<longrightarrow> b < length (bufs u) \<longrightarrow> (bufs v, disk v) = transfer b (bufs u, disk u))"
proof (intro conjI allI impI)
  have d: "distinct (idequeue s)" "\<forall>b \<in> set (idequeue s). b < length (fst (bufs s, disk s))"
    using assms(1) by (auto simp: ide_inv_def)
  have b: "b_valid (fst (fold transfer (idequeue s) (bufs s, disk s)) ! b) \<and> \<not> b_dirty (fst (fold transfer (idequeue s) (bufs s, disk s)) ! b)"
    if "b \<in> set (idequeue s)" for b by (rule fold_transfer_done [OF d that])
  show "wp (kfor [0 ..< length (idequeue s)] (\<lambda>_. disk_interrupt)) (\<lambda>_ t. idequeue t = [] \<and>
     (bufs t, disk t) = fold transfer (idequeue s) (bufs s, disk s) \<and>
     (\<forall>b \<in> set (idequeue s). b_valid (bufs t ! b) \<and> \<not> b_dirty (bufs t ! b))) s"
    by (rule wp_mono [OF ide_drain [OF assms]]) (simp add: drain_inv_def, metis b fst_conv)
qed (rule iderw_transfer)


text \<open>A process that holds buffer 0, which is to be written to block 5.\<close>

definition ex_dirty_buf :: buf where
  "ex_dirty_buf = free_buf\<lparr>b_dirty := True, b_dev := 1, b_blockno := 5, b_data := replicate BSIZE 9,
     b_lock := \<lparr>sl_locked = True, sl_pid = 1\<rparr>\<rparr>"

definition ex_ide_state :: "nat list \<Rightarrow> ata_cmd option \<Rightarrow> ide_state" where
  "ex_ide_state q a = bio_state.extend (ex_bio_state\<lparr>bufs := [ex_dirty_buf]\<rparr>) (ide_state.fields q True a)"

lemma ex_ide_sel [simp]:
  "idequeue (ex_ide_state q a) = q" "ata (ex_ide_state q a) = a" "havedisk1 (ex_ide_state q a)"
  "bufs (ex_ide_state q a) = [ex_dirty_buf]" "held (ex_ide_state q a) = {}" "ncli (ex_ide_state q a) = 0"
  "cur (ex_ide_state q a) = Some 0" "ptable (ex_ide_state q a) = [ex_proc]"
  by (simp_all add: ex_ide_state_def ex_bio_state_def bio_state.defs ide_state.defs)

lemma ex_ide_request: "request ex_dirty_buf"
  by (simp add: request_def ex_dirty_buf_def FSSIZE_def)

theorem ide_iderw_queues_witness:
  "\<exists>t. ide_iderw 0 (ex_ide_state [] None) = Block t \<and> idequeue t = [0] \<and> waits 0 (ChanBuf 0) t"
proof -
  have "ide_inv (ex_ide_state [] None)" "running 0 (ex_ide_state [] None)" by (simp_all add: ide_inv_def running_def)
  then show ?thesis
    using ide_iderw_queues [of "ex_ide_state [] None" 0 0] ex_ide_request
    by (auto simp: buf_lock_def ex_dirty_buf_def ex_proc_def)
qed

theorem ide_serves_queue_witness:
  "\<exists>t. kfor [0 ..< 1] (\<lambda>_. disk_interrupt) (ex_ide_state [0] (Some (ata_of ex_dirty_buf))) = Ok () t \<and> disk t 5 = replicate BSIZE 9"
proof -
  let ?s = "ex_ide_state [0] (Some (ata_of ex_dirty_buf))"
  have "ide_inv ?s" using ex_ide_request by (simp add: ide_inv_def)
  note conjunct1 [OF ide_serves_queue [OF this]]
  then have "wp (kfor [0 ..< 1] (\<lambda>_. disk_interrupt)) (\<lambda>_ t. disk t 5 = replicate BSIZE 9) ?s"
    by (simp add: One_nat_def) (erule wp_mono, simp add: transfer_def ex_dirty_buf_def)
  then show ?thesis by (simp add: wp_iff_Ok)
qed

end
