(* ===== verification/Printf.thy ===== *)
theory Printf
  imports CString
begin

text \<open>
  Formatted output of user programs (\<^verbatim>\<open>printf.c\<close>): the bytes that \<^verbatim>\<open>printf\<close> writes, one \<^verbatim>\<open>write\<close> call each, to its
  descriptor. The words on the stack above the format are a list; \<open>str\<close> is the string at an address. The loop is
  a two-state machine: in state \<open>True\<close> a percent sign has been seen.
\<close>

definition u_hexdigit :: "u32 \<Rightarrow> byte" where
  "u_hexdigit d = (if d < 10 then 48 + ucast d else 55 + ucast d)"

definition u_printint :: "u32 \<Rightarrow> u32 \<Rightarrow> bool \<Rightarrow> byte list" where
  "u_printint xx base sg =
     (let neg = (sg \<and> sint xx < 0); x = (if neg then - xx else xx) in
      (if neg then [45] else []) @ rev (digits_rev u_hexdigit base x))"

fun printf_loop :: "(u32 \<Rightarrow> byte list) \<Rightarrow> bool \<Rightarrow> byte list \<Rightarrow> u32 list \<Rightarrow> byte list" where
  "printf_loop str st [] ap = []"
| "printf_loop str st (c # fmt) ap =
     (if c = 0 then []
      else if \<not> st then
        (if c = 37 then printf_loop str True fmt ap else c # printf_loop str False fmt ap)
      else if c = 100 then u_printint (hd ap) 10 True @ printf_loop str False fmt (tl ap)
      else if c = 120 \<or> c = 112 then u_printint (hd ap) 16 False @ printf_loop str False fmt (tl ap)
      else if c = 115 then
        (if hd ap = 0 then [40, 110, 117, 108, 108, 41] else cstr (str (hd ap))) @ printf_loop str False fmt (tl ap)
      else if c = 99 then ucast (hd ap) # printf_loop str False fmt (tl ap)
      else if c = 37 then c # printf_loop str False fmt ap
      else 37 # c # printf_loop str False fmt ap)"

definition printf :: "(u32 \<Rightarrow> byte list) \<Rightarrow> byte list \<Rightarrow> u32 list \<Rightarrow> byte list" where
  "printf str fmt ap = printf_loop str False fmt ap"

section \<open>Numbers\<close>

lemma u_hexdigit_10: "unat (u_hexdigit (x mod 10)) = 48 + unat (x mod 10)"
proof -
  have lt: "unat (x mod 10) < 10" by (simp add: unat_mod)
  then have "x mod 10 < 10" by (simp add: word_less_nat_alt)
  moreover have "unat (ucast (x mod 10) :: byte) = unat (x mod 10)" using lt by (simp add: unsigned_ucast_eq take_bit_eq_mod)
  ultimately show ?thesis using lt by (simp add: u_hexdigit_def unat_plus_if')
qed

lemma wrap32_small: "- (2 ^ 31) \<le> n \<Longrightarrow> n < 2 ^ 31 \<Longrightarrow> wrap32 n = n"
  by (simp add: wrap32_def)

lemma sint_nonneg:
  fixes x :: u32
  assumes "0 \<le> sint x"
  shows "sint x = int (unat x) \<and> unat x < 2 ^ 31"
proof -
  have s: "sint x = (uint x + 2 ^ 31) mod 2 ^ 32 - 2 ^ 31"
    using int_word_sint [of "uint x", where 'a = 32] by simp
  have u: "0 \<le> uint x" "uint x < 2 ^ 32" using uint_lt2p [of x] by simp_all
  have "uint x < 2 ^ 31"
  proof (rule ccontr)
    assume "\<not> uint x < 2 ^ 31"
    then have "(uint x + 2 ^ 31) mod 2 ^ 32 = uint x + 2 ^ 31 - 2 ^ 32"
      using u minus_mod_self2 [of "uint x + 2 ^ 31" "2 ^ 32"] mod_pos_pos_trivial [of "uint x + 2 ^ 31 - 2 ^ 32" "2 ^ 32"] by auto
    then show False using s assms u by auto
  qed
  then have "sint x = uint x" using s u by (simp add: mod_pos_pos_trivial)
  moreover have "unat x < 2 ^ 31" using \<open>uint x < 2 ^ 31\<close> by (simp flip: of_nat_less_iff [where 'a = int])
  ultimately show ?thesis by simp
qed

lemma atoi_digits:
  assumes "unat x < 2 ^ 31"
  shows "atoi_from 0 (rev (digits_rev u_hexdigit 10 x) @ s) = atoi_from (int (unat x)) s"
  using assms
proof (induction x arbitrary: s rule: measure_induct_rule [of unat])
  case (less x)
  let ?c = "u_hexdigit (x mod 10)"
  have base: "\<not> (10 :: u32) \<le> 1" by (simp add: word_le_nat_alt)
  define n where "n = unat x"
  have d: "unat (x div 10) = n div 10" "unat (x mod 10) = n mod 10" by (simp_all add: n_def unat_div unat_mod)
  have n: "n < 2 ^ 31" using less.prems by (simp add: n_def)
  have c: "unat ?c = 48 + n mod 10" using u_hexdigit_10 d by simp
  have val: "int (n div 10) * 10 + int (n mod 10) = int n" by presburger
  have "n mod 10 \<le> 9" by simp
  then have step: "atoi_from (int (n div 10)) (?c # s) = atoi_from (int n) s"
    using c val n by (simp only: atoi_from.simps) (simp add: wrap32_small)
  have "atoi_from 0 (rev (digits_rev u_hexdigit 10 x) @ s) = atoi_from (int n) s"
  proof (cases "x div 10 = 0")
    case True
    then have "n div 10 = 0" using d(1) by simp
    with True base step show ?thesis by (simp add: digits_rev.simps [of _ 10 x] del: atoi_from.simps)
  next
    case False
    then have "unat (x div 10) \<noteq> 0" by (simp add: unat_eq_0)
    then have lt: "unat (x div 10) < unat x" using d(1) n_def by (cases "n = 0") auto
    then have "unat (x div 10) < 2 ^ 31" using less.prems by simp
    then have "atoi_from 0 (rev (digits_rev u_hexdigit 10 (x div 10)) @ ?c # s) = atoi_from (int (n div 10)) (?c # s)"
      using less.IH [OF lt] d(1) by simp
    with False base step show ?thesis by (simp add: digits_rev.simps [of _ 10 x] del: atoi_from.simps)
  qed
  then show ?case by (simp add: n_def)
qed



lemma atoi_negative: "atoi (u_printint (- 5) 10 True) = 0"
  by (simp add: u_printint_def atoi_def)

end
