(* ===== verification/Grep.thy ===== *)
theory Grep
  imports CString
begin

text \<open>
  The text tools \<^verbatim>\<open>grep.c\<close> and \<^verbatim>\<open>wc.c\<close>. The matcher is the one of Kernighan and Pike with \<^verbatim>\<open>^ . * $\<close>; a pattern or a line
  is the list of its bytes, none of them 0. The loop of \<^verbatim>\<open>grep\<close> works on the chunks that \<^verbatim>\<open>read\<close> returns.
\<close>

section \<open>The matcher\<close>

function matchhere :: "byte list \<Rightarrow> byte list \<Rightarrow> bool"
  and matchstar :: "byte \<Rightarrow> byte list \<Rightarrow> byte list \<Rightarrow> bool" where
  "matchhere re text =
     (case re of
        [] \<Rightarrow> True
      | c # re' \<Rightarrow>
          if hd0 re' = 42 then matchstar c (tl re') text
          else if c = 36 \<and> re' = [] then text = []
          else (case text of
                  [] \<Rightarrow> False
                | t # text' \<Rightarrow> if c = 46 \<or> c = t then matchhere re' text' else False))"
| "matchstar c re text =
     (if matchhere re text then True
      else (case text of
              [] \<Rightarrow> False
            | t # text' \<Rightarrow> if t = c \<or> c = 46 then matchstar c re text' else False))"
  by pat_completeness auto

termination
  by (relation "inv_image (less_than <*lex*> less_than <*lex*> less_than)
        (\<lambda>x. case x of Inl (re, text) \<Rightarrow> (length re, length text, 0)
                     | Inr (c, re, text) \<Rightarrow> (length re, length text, 1))")
    (auto simp: hd0_def split: list.splits)

declare matchhere.simps [simp del] matchstar.simps [simp del]

text \<open>The do-while loop of \<^verbatim>\<open>match\<close> tries every suffix of the text, the empty one included.\<close>

fun match_any :: "byte list \<Rightarrow> byte list \<Rightarrow> bool" where
  "match_any re [] = matchhere re []"
| "match_any re (t # text) = (matchhere re (t # text) \<or> match_any re text)"

definition grep_match :: "byte list \<Rightarrow> byte list \<Rightarrow> bool" where
  "grep_match re text = (if hd0 re = 94 then matchhere (tl re) text else match_any re text)"

section \<open>grep\<close>

definition GREP_BUF :: nat where "GREP_BUF = 1024"

lemma strchr_less: "strchr s c = Some k \<Longrightarrow> k < length s"
  by (induction s arbitrary: k) (auto split: if_splits)

text \<open>
  The loop over the complete lines in the buffer: what is printed, and what remains after the last newline. The
  comparison works on C strings, so a line ends at its first 0 byte.
\<close>

function grep_lines :: "byte list \<Rightarrow> byte list \<Rightarrow> byte list \<times> byte list" where
  "grep_lines re p =
     (case strchr p 10 of
        None \<Rightarrow> ([], p)
      | Some k \<Rightarrow>
          (let (out, rest) = grep_lines re (drop (Suc k) p) in
           ((if grep_match re (take k p) then take (Suc k) p else []) @ out, rest)))"
  by pat_completeness auto

termination
  by (relation "measure (\<lambda>(re, p). length p)") (auto dest: strchr_less)

declare grep_lines.simps [simp del]

text \<open>
  The loop of \<^verbatim>\<open>grep\<close>. \<open>held\<close> are the \<^verbatim>\<open>m\<close> bytes kept at the start of the buffer; \<open>reads\<close> are the chunks that
  the successive calls of \<^verbatim>\<open>read\<close> return, the end of the list being the end of the file. When no line is complete
  everything is dropped (\<^verbatim>\<open>if(p == buf) m = 0;\<close>).
\<close>

fun grep :: "byte list \<Rightarrow> byte list \<Rightarrow> byte list list \<Rightarrow> byte list" where
  "grep re held [] = []"
| "grep re held (chunk # reads) =
     (if chunk = [] then []
      else
        (let buf = held @ chunk; (out, rest) = grep_lines re buf in
         out @ grep re (if length rest = length buf then [] else rest) reads))"

section \<open>wc\<close>

definition wc_space :: "byte \<Rightarrow> bool" where
  "wc_space c \<longleftrightarrow> strchr [32, 13, 9, 10, 11] c \<noteq> None"

record wc_state =
  wc_l :: nat
  wc_w :: nat
  wc_c :: nat
  wc_inword :: bool

definition wc_step :: "byte \<Rightarrow> wc_state \<Rightarrow> wc_state" where
  "wc_step b s =
     (let s1 = s\<lparr>wc_c := wc_c s + 1, wc_l := (if b = 10 then wc_l s + 1 else wc_l s)\<rparr> in
      if wc_space b then s1\<lparr>wc_inword := False\<rparr>
      else if \<not> wc_inword s1 then s1\<lparr>wc_w := wc_w s1 + 1, wc_inword := True\<rparr>
      else s1)"

definition wc_run :: "byte list list \<Rightarrow> wc_state" where
  "wc_run reads = fold (fold wc_step) reads \<lparr>wc_l = 0, wc_w = 0, wc_c = 0, wc_inword = False\<rparr>"

section \<open>The language of a pattern\<close>

text \<open>A pattern is a sequence of items; \<open>texts\<close> are the texts at whose beginning they match.\<close>

datatype item = One byte | Star byte | End

function parse_re :: "byte list \<Rightarrow> item list" where
  "parse_re re =
     (case re of
        [] \<Rightarrow> []
      | c # re' \<Rightarrow>
          if hd0 re' = 42 then Star c # parse_re (tl re')
          else if c = 36 \<and> re' = [] then [End]
          else One c # parse_re re')"
  by pat_completeness auto

termination
  by (relation "measure length") auto

declare parse_re.simps [simp del]

definition fits :: "byte \<Rightarrow> byte \<Rightarrow> bool" where
  "fits c x \<longleftrightarrow> c = 46 \<or> c = x"

definition star_texts :: "byte \<Rightarrow> byte list set \<Rightarrow> byte list set" where
  "star_texts c L = {u @ v |u v. (\<forall>x \<in> set u. fits c x) \<and> v \<in> L}"

primrec texts :: "item list \<Rightarrow> byte list set" where
  "texts [] = UNIV"
| "texts (i # is) =
     (case i of
        One c \<Rightarrow> {x # v |x v. fits c x \<and> v \<in> texts is}
      | Star c \<Rightarrow> star_texts c (texts is)
      | End \<Rightarrow> {[]})"

lemma star_texts_iff: "t \<in> star_texts c L \<longleftrightarrow> t \<in> L \<or> (\<exists>x w. t = x # w \<and> fits c x \<and> w \<in> star_texts c L)"
proof
  assume "t \<in> star_texts c L"
  then obtain u v where "t = u @ v" "\<forall>x \<in> set u. fits c x" "v \<in> L" by (auto simp: star_texts_def)
  then show "t \<in> L \<or> (\<exists>x w. t = x # w \<and> fits c x \<and> w \<in> star_texts c L)"
    by (cases u) (auto simp: star_texts_def)
next
  assume "t \<in> L \<or> (\<exists>x w. t = x # w \<and> fits c x \<and> w \<in> star_texts c L)"
  then consider "t \<in> L" | x u v where "t = x # u @ v" "fits c x" "\<forall>x \<in> set u. fits c x" "v \<in> L"
    by (auto simp: star_texts_def)
  then show "t \<in> star_texts c L"
  proof cases
    case 1
    then show ?thesis by (force simp: star_texts_def intro: exI [of _ "[]"])
  next
    case 2
    then show ?thesis unfolding star_texts_def by (intro CollectI exI [of _ "x # u"] exI [of _ v]) simp
  qed
qed

lemma match_texts:
  "matchhere re s \<longleftrightarrow> s \<in> texts (parse_re re)"
  "matchstar c re s \<longleftrightarrow> s \<in> texts (Star c # parse_re re)"
proof (induction re s and c re s rule: matchhere_matchstar.induct)
  case (1 re s)
  show ?case
  proof (cases re)
    case Nil
    then show ?thesis by (simp add: matchhere.simps parse_re.simps)
  next
    case (Cons c re')
    with 1 show ?thesis
      by (auto simp: matchhere.simps [of "c # re'"] parse_re.simps [of "c # re'"] fits_def split: list.split)
  qed
next
  case (2 c re s)
  show ?case
  proof (cases s)
    case Nil
    then show ?thesis
      using 2(1) star_texts_iff [of "[]" c "texts (parse_re re)"] by (simp add: matchstar.simps [of c re "[]"])
  next
    case (Cons x w)
    then show ?thesis
      using 2 star_texts_iff [of "x # w" c "texts (parse_re re)"]
      by (auto simp: matchstar.simps [of c re "x # w"] fits_def)
  qed
qed

lemma match_any_suffix: "match_any re s \<longleftrightarrow> (\<exists>u v. s = u @ v \<and> matchhere re v)"
proof (induction s)
  case (Cons t s)
  have "(\<exists>u v. t # s = u @ v \<and> matchhere re v) \<longleftrightarrow> matchhere re (t # s) \<or> (\<exists>u v. s = u @ v \<and> matchhere re v)"
    by (auto simp: Cons_eq_append_conv)
  then show ?case using Cons by simp
qed simp

text \<open>C13. The matcher of \<^verbatim>\<open>grep\<close> decides the language of the pattern: with \<^verbatim>\<open>^\<close> the rest of the pattern has to match at the
  beginning of the line, otherwise it has to match at the beginning of some suffix; it stops on every input.\<close>

theorem grep_match_language:
  "grep_match re line \<longleftrightarrow>
     (if hd0 re = 94 then line \<in> texts (parse_re (tl re)) else \<exists>u v. line = u @ v \<and> v \<in> texts (parse_re re))"
  by (simp add: grep_match_def match_any_suffix match_texts)

section \<open>Lines across chunks\<close>

lemma strchr_spec: "0 \<notin> set s \<Longrightarrow> strchr s c = Some k \<longleftrightarrow> k < length s \<and> s ! k = c \<and> c \<notin> set (take k s)"
proof (induction s arbitrary: k)
  case (Cons x s)
  then show ?case by (cases k) auto
qed simp

lemma strchr_None: "0 \<notin> set s \<Longrightarrow> strchr s c = None \<longleftrightarrow> c \<notin> set s"
  by (induction s) auto

text \<open>The complete lines of a text, with their newlines, and what follows the last one.\<close>

fun split_lines :: "byte list \<Rightarrow> byte list \<Rightarrow> byte list list \<times> byte list" where
  "split_lines l [] = ([], l)"
| "split_lines l (x # xs) =
     (if x = 10 then (let (ls, r) = split_lines [] xs in ((l @ [x]) # ls, r)) else split_lines (l @ [x]) xs)"

lemma split_lines_append:
  "split_lines l (xs @ ys) =
     (let (ls, r) = split_lines l xs; (ls', r') = split_lines r ys in (ls @ ls', r'))"
  by (induction l xs rule: split_lines.induct) (auto split: prod.splits)

lemma split_lines_none: "10 \<notin> set xs \<Longrightarrow> split_lines l xs = ([], l @ xs)"
  by (induction l xs rule: split_lines.induct) auto

definition grep_out :: "byte list \<Rightarrow> byte list list \<Rightarrow> byte list" where
  "grep_out re ls = concat (filter (\<lambda>l. grep_match re (butlast l)) ls)"

lemma grep_lines_split:
  "0 \<notin> set p \<Longrightarrow> grep_lines re p = (grep_out re (fst (split_lines [] p)), snd (split_lines [] p))"
proof (induction re p rule: grep_lines.induct)
  case (1 re p)
  show ?case
  proof (cases "strchr p 10")
    case None
    then have "10 \<notin> set p" using strchr_None [OF 1(2)] by simp
    then show ?thesis using None by (simp add: grep_lines.simps [of re p] split_lines_none grep_out_def)
  next
    case (Some k)
    then have k: "k < length p" "p ! k = 10" "10 \<notin> set (take k p)" using strchr_spec [OF 1(2), of 10 k] by simp_all
    have p: "p = take k p @ 10 # drop (Suc k) p" using id_take_nth_drop [OF k(1)] k(2) by simp
    have t: "take (Suc k) p = take k p @ [10]" using k by (simp add: take_Suc_conv_app_nth)
    have z: "0 \<notin> set (drop (Suc k) p)" using 1(2) in_set_dropD by metis
    have "split_lines [] p = ((take k p @ [10]) # fst (split_lines [] (drop (Suc k) p)), snd (split_lines [] (drop (Suc k) p)))"
      by (subst p) (simp add: split_lines_append split_lines_none [OF k(3)] split: prod.split)
    then show ?thesis using 1(1) [OF Some z] Some by (simp add: grep_lines.simps [of re p] grep_out_def t)
  qed
qed


lemma split_lines_newline: "10 \<in> set xs \<Longrightarrow> fst (split_lines l xs) \<noteq> []"
  by (induction l xs rule: split_lines.induct) (auto split: prod.splits)

lemma split_lines_concat: "concat (fst (split_lines l xs)) @ snd (split_lines l xs) = l @ xs"
  by (induction l xs rule: split_lines.induct) (auto split: prod.splits)

lemma split_lines_no_newline: "10 \<notin> set l \<Longrightarrow> 10 \<notin> set (snd (split_lines l xs))"
  by (induction l xs rule: split_lines.induct) (auto split: prod.splits)

lemma split_lines_nonempty: "[] \<notin> set (fst (split_lines l xs))"
  by (induction l xs rule: split_lines.induct) (auto split: prod.splits)

lemma grep_chunks:
  assumes "\<forall>chunk \<in> set reads. 10 \<in> set chunk \<and> 0 \<notin> set chunk" "10 \<notin> set h" "0 \<notin> set h"
  shows "grep re h reads = grep_out re (fst (split_lines h (concat reads)))"
  using assms
proof (induction reads arbitrary: h)
  case Nil
  then show ?case by (simp add: grep_out_def)
next
  case (Cons chunk reads)
  let ?ls = "fst (split_lines h chunk)" and ?r = "snd (split_lines h chunk)"
  have c: "10 \<in> set chunk" "0 \<notin> set chunk" "chunk \<noteq> []" using Cons.prems(1) by auto
  have s: "split_lines [] (h @ chunk) = (?ls, ?r)"
    using split_lines_none [OF Cons.prems(2), of "[]"] by (simp add: split_lines_append split: prod.split)
  then have g: "grep_lines re (h @ chunk) = (grep_out re ?ls, ?r)"
    using grep_lines_split [of "h @ chunk" re] c(2) Cons.prems(3) by simp
  have "concat ?ls \<noteq> []"
    using split_lines_newline [OF c(1), of h] split_lines_nonempty [of h chunk] by (cases ?ls) auto
  then have "length ?r \<noteq> length (h @ chunk)" using arg_cong [OF split_lines_concat [of h chunk], of length] by auto
  moreover have "0 \<notin> set ?r" using arg_cong [OF split_lines_concat [of h chunk], of set] c(2) Cons.prems(3) by auto
  moreover have "10 \<notin> set ?r" by (rule split_lines_no_newline [OF Cons.prems(2)])
  ultimately have "grep re h (chunk # reads) = grep_out re ?ls @ grep_out re (fst (split_lines ?r (concat reads)))"
    using Cons.IH [of ?r] Cons.prems(1) c(3) g by simp
  then show ?case by (simp add: split_lines_append grep_out_def split: prod.split)
qed

text \<open>C14. However \<^verbatim>\<open>read\<close> cuts the input into pieces, as long as each piece brings a newline, \<^verbatim>\<open>grep\<close> prints exactly the
  complete lines of the input that match, in order.\<close>

theorem grep_prints_matching_lines:
  assumes "\<forall>chunk \<in> set reads. 10 \<in> set chunk \<and> 0 \<notin> set chunk"
  shows "grep re [] reads = concat (filter (\<lambda>l. grep_match re (butlast l)) (fst (split_lines [] (concat reads))))"
  using grep_chunks [OF assms, of "[]"] by (simp add: grep_out_def)

theorem grep_prints_witness: "grep [98] [] [[97, 10, 98], [98, 10, 99]] = [98, 98, 10]"
proof -
  have "\<forall>chunk \<in> set [[97, 10, 98], [98, 10, 99]]. 10 \<in> set chunk \<and> (0 :: byte) \<notin> set chunk" by simp
  note grep_prints_matching_lines [OF this, of "[98]"]
  then show ?thesis by (simp add: grep_match_def hd0_def matchhere.simps)
qed

text \<open>A line that does not fit in what was read so far is lost.\<close>

lemma grep_drops_long_line: "grep [97] [] [[97, 98], [99, 10]] = []"
  by (simp add: grep_lines.simps grep_match_def hd0_def matchhere.simps)

section \<open>Counting\<close>

text \<open>A word starts at a character that is no white space and has white space, or nothing, before it.\<close>

definition word_start :: "byte list \<Rightarrow> nat \<Rightarrow> bool" where
  "word_start xs i \<longleftrightarrow> \<not> wc_space (xs ! i) \<and> (i = 0 \<or> wc_space (xs ! (i - 1)))"

definition word_starts :: "byte list \<Rightarrow> nat" where
  "word_starts xs = length (filter (word_start xs) [0 ..< length xs])"

definition wc_of :: "byte list \<Rightarrow> wc_state" where
  "wc_of xs = \<lparr>wc_l = count_list xs 10, wc_w = word_starts xs, wc_c = length xs, wc_inword = (xs \<noteq> [] \<and> \<not> wc_space (last xs))\<rparr>"

lemma wc_step_of: "wc_step b (wc_of xs) = wc_of (xs @ [b])"
proof -
  have w: "word_starts (xs @ [b]) = word_starts xs + (if \<not> wc_space b \<and> (xs = [] \<or> wc_space (last xs)) then 1 else 0)"
  proof -
    have "filter (word_start (xs @ [b])) [0 ..< length xs] = filter (word_start xs) [0 ..< length xs]"
      by (rule filter_cong) (auto simp: word_start_def nth_append)
    moreover have "word_start (xs @ [b]) (length xs) \<longleftrightarrow> \<not> wc_space b \<and> (xs = [] \<or> wc_space (last xs))"
      by (cases xs rule: rev_cases) (auto simp: word_start_def nth_append)
    ultimately show ?thesis by (simp add: word_starts_def)
  qed
  show ?thesis by (auto simp: wc_step_def wc_of_def w Let_def)
qed

lemma wc_fold: "fold wc_step ys (wc_of xs) = wc_of (xs @ ys)"
  by (induction ys arbitrary: xs) (simp_all add: wc_step_of)


end
