(* ===== verification/Ifile.thy ===== *)
theory Ifile
  imports Inode
begin

text \<open>
  Facts about inodes (theory Inode): the on-disk format is read back as it was written; \<open>fblk\<close> is the block of a file,
  \<open>ino_wf\<close> says that the blocks of an inode are data blocks and all different, and \<open>bmap_ok\<close> that \<^verbatim>\<open>bmap\<close> returns the block
  of a file, allocating it and the indirect block when they are missing, and keeps all of this.
\<close>

section \<open>The on-disk format\<close>

definition dinode_ok :: "dinode \<Rightarrow> bool" where
  "dinode_ok d \<longleftrightarrow> (\<forall>x \<in> {di_type d, di_major d, di_minor d, di_nlink d}. - (2 ^ 15) \<le> x \<and> x < 2 ^ 15) \<and>
     di_size d < 2 ^ 32 \<and> length (di_addrs d) = NDIRECT + 1 \<and> (\<forall>a \<in> set (di_addrs d). a < 2 ^ 32)"

lemma length_enc16 [simp]: "length (enc16 x) = 2"
  by (simp add: enc16_def)

lemma length_enc_words [simp]: "length (enc_words xs) = 4 * length xs"
  by (induction xs) simp_all

lemma dec16_enc16: "- (2 ^ 15) \<le> x \<Longrightarrow> x < 2 ^ 15 \<Longrightarrow> dec16 (enc16 x) = x"
proof -
  assume x: "- (2 ^ 15) \<le> x" "x < 2 ^ 15"
  have "nat (x mod 2 ^ 16) < 256 ^ 2" by (simp add: nat_less_iff)
  then have "int (le_dec (enc16 x)) = x mod 2 ^ 16" by (simp add: enc16_def le_dec_enc)
  then have "dec16 (enc16 x) = (x + 2 ^ 15) mod 2 ^ 16 - 2 ^ 15" by (simp add: dec16_def s16_def mod_simps)
  also have "\<dots> = x" using x by (subst mod_pos_pos_trivial) simp_all
  finally show ?thesis .
qed

lemma dec_enc_words: "\<forall>a \<in> set xs. a < 2 ^ 32 \<Longrightarrow> n = length xs \<Longrightarrow> dec_words n (enc_words xs @ ys) = xs"
proof (induction xs arbitrary: n)
  case (Cons a xs)
  then have "le_dec (le_enc 4 a) = a" by (simp add: le_dec_enc)
  then show ?case using Cons by simp
qed simp

lemma length_enc_dinode: "length (di_addrs d) = NDIRECT + 1 \<Longrightarrow> length (enc_dinode d) = DINODE_SIZE"
  by (simp add: enc_dinode_def DINODE_SIZE_def NDIRECT_def)

lemma dec_enc_dinode: "dinode_ok d \<Longrightarrow> dec_dinode (enc_dinode d) = d"
proof -
  assume ok: "dinode_ok d"
  then have "le_dec (le_enc 4 (di_size d)) = di_size d" by (simp add: le_dec_enc dinode_ok_def)
  moreover have "dec_words (NDIRECT + 1) (enc_words (di_addrs d)) = di_addrs d"
    using ok dec_enc_words [of "di_addrs d" "NDIRECT + 1" "[]"] by (simp add: dinode_ok_def)
  ultimately show ?thesis
    using ok by (simp add: enc_dinode_def dec_dinode_def dec16_enc16 dinode_ok_def)
qed

lemma inum_slot: "inum mod IPB * DINODE_SIZE + DINODE_SIZE \<le> BSIZE"
proof -
  have "inum mod IPB < IPB" by (rule mod_less_divisor) (simp add: IPB_def BSIZE_def DINODE_SIZE_def)
  then have "(inum mod IPB + 1) * DINODE_SIZE \<le> IPB * DINODE_SIZE" by (intro mult_le_mono1) simp
  then show ?thesis by (simp add: IPB_def BSIZE_def DINODE_SIZE_def)
qed

lemma length_put_dinode: "length d = BSIZE \<Longrightarrow> length (di_addrs di) = NDIRECT + 1 \<Longrightarrow> length (put_dinode inum di d) = BSIZE"
  using inum_slot [of inum] by (simp add: put_dinode_def length_enc_dinode)

lemma get_put_dinode:
  assumes "length d = BSIZE" "dinode_ok di"
  shows "get_dinode (put_dinode inum di d) inum = di"
proof -
  have len: "length (enc_dinode di) = DINODE_SIZE" using assms(2) by (simp add: length_enc_dinode dinode_ok_def)
  then show ?thesis
    using slice_splice_same [of "inum mod IPB * DINODE_SIZE" "enc_dinode di" d] inum_slot [of inum] assms
    by (simp add: get_dinode_def put_dinode_def dec_enc_dinode)
qed

lemma get_put_other:
  assumes "length d = BSIZE" "length (di_addrs di) = NDIRECT + 1" "inum mod IPB \<noteq> j mod IPB"
  shows "get_dinode (put_dinode inum di d) j = get_dinode d j"
proof -
  let ?i = "inum mod IPB" and ?j = "j mod IPB"
  have len: "length (enc_dinode di) = DINODE_SIZE" using assms(2) by (rule length_enc_dinode)
  have "?j * DINODE_SIZE + DINODE_SIZE \<le> ?i * DINODE_SIZE \<or> ?i * DINODE_SIZE + DINODE_SIZE \<le> ?j * DINODE_SIZE"
  proof (cases "?j < ?i")
    case True
    then have "(?j + 1) * DINODE_SIZE \<le> ?i * DINODE_SIZE" by (intro mult_le_mono1) simp
    then show ?thesis unfolding add_mult_distrib by simp
  next
    case False
    then have "(?i + 1) * DINODE_SIZE \<le> ?j * DINODE_SIZE" using assms(3) by (intro mult_le_mono1) simp
    then show ?thesis unfolding add_mult_distrib by simp
  qed
  then show ?thesis
    using slice_splice_other [of "?i * DINODE_SIZE" "enc_dinode di" d "?j * DINODE_SIZE" DINODE_SIZE] inum_slot [of inum] assms(1) len
    by (simp add: get_dinode_def put_dinode_def)
qed

section \<open>States that differ in the inode cache\<close>

lemma icache_upd [simp]:
  "content (s\<lparr>icache := c\<rparr>) = content s" "locked_bufs (s\<lparr>icache := c\<rparr>) = locked_bufs s" "bio_ok (s\<lparr>icache := c\<rparr>) = bio_ok s"
  "pins (s\<lparr>icache := c\<rparr>) = pins s" "low (s\<lparr>icache := c\<rparr>) = low s" "txn (s\<lparr>icache := c\<rparr>) = txn s"
  by (simp_all add: iface_defs locked_bufs_def low_defs txn_def)

lemma icache_upd_fs [simp]:
  "txok (s\<lparr>icache := c\<rparr>) = txok s" "avail (s\<lparr>icache := c\<rparr>) = avail s" "held_blocks (s\<lparr>icache := c\<rparr>) = held_blocks s"
  "in_use (s\<lparr>icache := c\<rparr>) = in_use s" "fs_geom (s\<lparr>icache := c\<rparr>) = fs_geom s" "map_block (s\<lparr>icache := c\<rparr>) = map_block s"
  "held_ok (s\<lparr>icache := c\<rparr>) = held_ok s"
  by (simp_all add: txok_def log_wf_def idle_def avail_def held_blocks_def in_use_def fs_geom_def map_block_def held_ok_def fun_eq_iff)

definition fsr :: "nat set \<Rightarrow> 'r fs_state_scheme \<Rightarrow> 'r fs_state_scheme \<Rightarrow> bool" where
  "fsr B s t \<longleftrightarrow> txr B (s\<lparr>icache := icache t\<rparr>) t"

lemma more_icache: "log_state.more t = log_state.more s \<Longrightarrow> log_state.more (t\<lparr>icache := c\<rparr>) = log_state.more (s\<lparr>icache := c\<rparr>)"
  by (cases s; cases t) simp

lemma txr_icache: "txr B s t \<Longrightarrow> txr B (s\<lparr>icache := c\<rparr>) (t\<lparr>icache := c\<rparr>)"
  using more_icache [of t s c] by (simp add: txr_def txn_ext_def log_same_def)

lemma fsr_txr: "txr B s t \<Longrightarrow> fsr B s t"
proof -
  assume x: "txr B s t"
  have "icache t = icache s" by (rule txr_fs(2) [OF x])
  then have "s\<lparr>icache := icache t\<rparr> = s" by simp
  then show ?thesis using x by (simp add: fsr_def)
qed

lemma fsr_upd: "txok s \<Longrightarrow> fsr {} s (s\<lparr>icache := c\<rparr>)"
  by (simp add: fsr_def txr_refl)

lemma fsr_trans: "fsr B s t \<Longrightarrow> fsr C t u \<Longrightarrow> fsr (B \<union> C) s u"
  unfolding fsr_def using txr_icache [of B "s\<lparr>icache := icache t\<rparr>" t "icache u"] txr_trans by fastforce

lemma fsr_refl: "txok s \<Longrightarrow> fsr {} s s"
  by (rule fsr_txr) (rule txr_refl)

lemma fsr_mono: "fsr B s t \<Longrightarrow> B \<subseteq> C \<Longrightarrow> finite C \<Longrightarrow> fsr C s t"
  unfolding fsr_def by (rule txr_mono)

lemma fsrD:
  assumes "fsr B s t"
  shows "txok t" "disk t = disk s" "locked_bufs t = locked_bufs s" "sb t = sb s" "disksize t = disksize s"
    "n \<notin> B \<Longrightarrow> content t n = content s n" "finite B" "set (txn t) \<subseteq> set (txn s) \<union> B" "low t = low s"
  using txrD [OF assms [unfolded fsr_def]] txr_fs(1) [OF assms [unfolded fsr_def]] txr_finite [OF assms [unfolded fsr_def]]
    txr_txn [OF assms [unfolded fsr_def]]
  by simp_all

lemma fsr_avail: "fsr B s t \<Longrightarrow> avail s - int (card B) \<le> avail t"
  unfolding fsr_def using txr_avail by fastforce

section \<open>The blocks of a file\<close>

text \<open>The block that holds the \<open>bn\<close>-th block of a file's content, 0 if there is none.\<close>

definition fblk :: "'r fs_state_scheme \<Rightarrow> inode \<Rightarrow> nat \<Rightarrow> nat" where
  "fblk s p bn =
     (if bn < NDIRECT then i_addrs p ! bn
      else if i_addrs p ! NDIRECT = 0 then 0
      else get32 (content s (i_addrs p ! NDIRECT)) (bn - NDIRECT))"

definition data_block :: "'r fs_state_scheme \<Rightarrow> nat \<Rightarrow> bool" where
  "data_block s n \<longleftrightarrow> n < sb_size (sb s) \<and> in_use s n \<and> \<not> map_block s n \<and> (\<forall>i < sb_ninodes (sb s). IBLOCK i (sb s) \<noteq> n)"

text \<open>The boot block, the map and the inode blocks are in use and disjoint; block numbers have 32 bits.\<close>

definition fs_layout :: "'r fs_state_scheme \<Rightarrow> bool" where
  "fs_layout s \<longleftrightarrow> fs_geom s \<and> 0 < sb_size (sb s) \<and> sb_size (sb s) \<le> 2 ^ 32 \<and> in_use s 0 \<and>
     (\<forall>i < sb_ninodes (sb s). IBLOCK i (sb s) < sb_size (sb s) \<and> in_use s (IBLOCK i (sb s)) \<and> \<not> map_block s (IBLOCK i (sb s)))"

text \<open>An inode is well-formed when its blocks are data blocks and all different.\<close>

definition ino_wf :: "'r fs_state_scheme \<Rightarrow> inode \<Rightarrow> bool" where
  "ino_wf s p \<longleftrightarrow> length (i_addrs p) = NDIRECT + 1 \<and> i_dev p = 1 \<and>
     (i_addrs p ! NDIRECT \<noteq> 0 \<longrightarrow> data_block s (i_addrs p ! NDIRECT) \<and> (\<forall>bn < MAXFILE. fblk s p bn \<noteq> i_addrs p ! NDIRECT)) \<and>
     (\<forall>bn < MAXFILE. fblk s p bn \<noteq> 0 \<longrightarrow> data_block s (fblk s p bn) \<and> (\<forall>k < MAXFILE. fblk s p k = fblk s p bn \<longrightarrow> k = bn))"

definition free_set :: "'r fs_state_scheme \<Rightarrow> nat set" where
  "free_set s = {c. c < sb_size (sb s) \<and> \<not> in_use s c}"

text \<open>What an allocation leaves alone.\<close>

lemma finite_free_set [simp]: "finite (free_set s)"
  by (simp add: free_set_def)

text \<open>\<open>keeps X s t\<close>: every block in use in \<open>s\<close> is in use in \<open>t\<close> and, unless it belongs to the map or to \<open>X\<close>, has its content.\<close>

definition keeps :: "nat set \<Rightarrow> 'r fs_state_scheme \<Rightarrow> 'r fs_state_scheme \<Rightarrow> bool" where
  "keeps X s t \<longleftrightarrow> sb t = sb s \<and> disksize t = disksize s \<and>
     (\<forall>n < sb_size (sb s). in_use s n \<longrightarrow> in_use t n \<and> (\<not> map_block s n \<longrightarrow> n \<notin> X \<longrightarrow> content t n = content s n))"

lemma keeps_layout: "keeps X s t \<Longrightarrow> fs_layout s \<Longrightarrow> fs_layout t"
  by (auto simp: keeps_def fs_layout_def fs_geom_def map_block_def)

lemma keeps_data_block: "keeps X s t \<Longrightarrow> data_block s n \<Longrightarrow> data_block t n"
  by (auto simp: keeps_def data_block_def map_block_def)

lemma keeps_content: "keeps X s t \<Longrightarrow> data_block s n \<Longrightarrow> n \<notin> X \<Longrightarrow> content t n = content s n"
  by (simp add: keeps_def data_block_def)

lemma keepsD:
  assumes "keeps X s t"
  shows "sb t = sb s" "disksize t = disksize s" "map_block t = map_block s" "n < sb_size (sb s) \<Longrightarrow> in_use s n \<Longrightarrow> in_use t n"
    "n < sb_size (sb s) \<Longrightarrow> in_use s n \<Longrightarrow> \<not> map_block s n \<Longrightarrow> n \<notin> X \<Longrightarrow> content t n = content s n"
  using assms by (simp_all add: keeps_def map_block_def fun_eq_iff)

lemma keeps_trans:
  assumes "keeps X s t" "keeps Y t u"
  shows "keeps (X \<union> Y) s u"
proof -
  have "in_use u n" if "n < sb_size (sb s)" "in_use s n" for n
    using that keepsD [OF assms(1)] keepsD(4) [OF assms(2), of n] by simp
  moreover have "content u n = content s n" if "n < sb_size (sb s)" "in_use s n" "\<not> map_block s n" "n \<notin> X \<union> Y" for n
    using that keepsD [OF assms(1)] keepsD(5) [OF assms(2), of n] by simp
  ultimately show ?thesis using keepsD(1,2) [OF assms(1)] keepsD(1,2) [OF assms(2)] by (simp add: keeps_def)
qed

lemma keeps_same: "content t = content s \<Longrightarrow> sb t = sb s \<Longrightarrow> disksize t = disksize s \<Longrightarrow> keeps {} s t"
  using in_use_cong [of t s] by (simp add: keeps_def)

lemma ino_wfD:
  assumes "ino_wf s p"
  shows "length (i_addrs p) = NDIRECT + 1" "i_dev p = 1" "i_addrs p ! NDIRECT \<noteq> 0 \<Longrightarrow> data_block s (i_addrs p ! NDIRECT)"
    "i_addrs p ! NDIRECT \<noteq> 0 \<Longrightarrow> bn < MAXFILE \<Longrightarrow> fblk s p bn \<noteq> i_addrs p ! NDIRECT"
    "bn < MAXFILE \<Longrightarrow> fblk s p bn \<noteq> 0 \<Longrightarrow> data_block s (fblk s p bn)"
    "bn < MAXFILE \<Longrightarrow> fblk s p bn \<noteq> 0 \<Longrightarrow> k < MAXFILE \<Longrightarrow> fblk s p k = fblk s p bn \<Longrightarrow> k = bn"
  using assms unfolding ino_wf_def by blast+

lemma ino_wfI:
  assumes "length (i_addrs p) = NDIRECT + 1" "i_dev p = 1" "i_addrs p ! NDIRECT \<noteq> 0 \<Longrightarrow> data_block s (i_addrs p ! NDIRECT)"
    "\<And>bn. i_addrs p ! NDIRECT \<noteq> 0 \<Longrightarrow> bn < MAXFILE \<Longrightarrow> fblk s p bn \<noteq> i_addrs p ! NDIRECT"
    "\<And>bn. bn < MAXFILE \<Longrightarrow> fblk s p bn \<noteq> 0 \<Longrightarrow> data_block s (fblk s p bn)"
    "\<And>bn k. bn < MAXFILE \<Longrightarrow> fblk s p bn \<noteq> 0 \<Longrightarrow> k < MAXFILE \<Longrightarrow> fblk s p k = fblk s p bn \<Longrightarrow> k = bn"
  shows "ino_wf s p"
  using assms unfolding ino_wf_def by blast

lemma fblk_keeps:
  assumes k: "keeps X s t" and wf: "ino_wf s p" and X: "i_addrs p ! NDIRECT \<notin> X"
  shows "fblk t p = fblk s p"
proof (cases "i_addrs p ! NDIRECT = 0")
  case False
  then show ?thesis using keeps_content [OF k ino_wfD(3) [OF wf False] X] by (simp add: fblk_def fun_eq_iff)
qed (simp add: fblk_def fun_eq_iff)

lemma ino_wf_keeps: "keeps X s t \<Longrightarrow> ino_wf s p \<Longrightarrow> i_addrs p ! NDIRECT \<notin> X \<Longrightarrow> ino_wf t p"
proof -
  assume k: "keeps X s t" and wf: "ino_wf s p" and X: "i_addrs p ! NDIRECT \<notin> X"
  show "ino_wf t p"
    unfolding ino_wf_def fblk_keeps [OF k wf X] using keeps_data_block [OF k] wf [unfolded ino_wf_def] by blast
qed

lemma balloc_keeps:
  assumes ok: "txok s" and lay: "fs_layout s" and post: "balloc_post s b t"
  shows "keeps {} s t" and "b \<noteq> 0" and "data_block t b" and "\<not> data_block s b" and "content t b = replicate BSIZE 0"
    and "free_set t = free_set s - {b}" and "b \<in> free_set s" and "icache t = icache s" and "\<not> in_use s b" and "b < 2 ^ 32"
proof -
  have geo: "fs_geom s" using lay by (simp add: fs_layout_def)
  have b: "b < sb_size (sb s)" "\<not> in_use s b" and x: "txr {BBLOCK b (sb s), b} s t"
    and c: "content t = ((content s)(BBLOCK b (sb s) := set_map_bit (b mod BPB) (content s (BBLOCK b (sb s))))) (b := replicate BSIZE 0)"
    using post by (auto simp: balloc_post_def)
  have sb: "sb t = sb s" "disksize t = disksize s" "icache t = icache s" using txr_fs [OF x] txrD(8) [OF x] by auto
  note u = in_use_balloc [OF ok geo post]
  show k: "keeps {} s t" using sb u b c geo by (auto simp: keeps_def map_block_def)
  show "b \<noteq> 0" using lay b(2) by (metis fs_layout_def)
  show "data_block t b" using lay b u [OF b(1)] sb geo by (auto simp: data_block_def fs_layout_def map_block_def fs_geom_def)
  show "\<not> data_block s b" using b by (simp add: data_block_def)
  show "content t b = replicate BSIZE 0" using c by simp
  show "free_set t = free_set s - {b}" using u sb by (auto simp: free_set_def)
  show "b \<in> free_set s" "icache t = icache s" "\<not> in_use s b" using b sb by (simp_all add: free_set_def)
  show "b < 2 ^ 32" using b lay by (simp add: fs_layout_def)
qed

text \<open>An inode to which one block is added.\<close>

lemma ino_wf_insert:
  assumes wf: "ino_wf s p" and keeps: "keeps X s t"
    and p': "length (i_addrs p') = NDIRECT + 1" "i_dev p' = 1" "i_addrs p' ! NDIRECT = i_addrs p ! NDIRECT"
    and all: "\<And>k. k < MAXFILE \<Longrightarrow> fblk t p' k = (if k = bn then b else fblk s p k)"
    and b: "data_block t b" and fresh: "\<And>k. k < MAXFILE \<Longrightarrow> fblk s p k \<noteq> b" "i_addrs p ! NDIRECT \<noteq> b"
  shows "ino_wf t p'"
proof (rule ino_wfI; (unfold p'(3))?)
  show "length (i_addrs p') = NDIRECT + 1" "i_dev p' = 1" by (fact p')+
  show "data_block t (i_addrs p ! NDIRECT)" if "i_addrs p ! NDIRECT \<noteq> 0"
    by (rule keeps_data_block [OF keeps ino_wfD(3) [OF wf that]])
  fix k j assume k: "k < MAXFILE"
  show "fblk t p' k \<noteq> i_addrs p ! NDIRECT" if "i_addrs p ! NDIRECT \<noteq> 0"
    using fresh(2) ino_wfD(4) [OF wf that k] by (simp add: all [OF k])
  assume nz: "fblk t p' k \<noteq> 0"
  show "data_block t (fblk t p' k)"
    using b nz ino_wfD(5) [OF wf k] keeps_data_block [OF keeps] by (simp add: all [OF k] split: if_splits)
  assume j: "j < MAXFILE" and eq: "fblk t p' j = fblk t p' k"
  show "j = k" using fresh(1) k j eq nz ino_wfD(6) [OF wf k _ j] unfolding all [OF k] all [OF j] by (metis (full_types))
qed

text \<open>An inode that gets its indirect block, with no entries yet.\<close>

lemma ino_wf_indirect:
  assumes wf: "ino_wf s p" and keeps: "keeps X s t" and p': "length (i_addrs p') = NDIRECT + 1" "i_dev p' = 1" "i_addrs p' ! NDIRECT = b"
    and all: "\<And>k. k < MAXFILE \<Longrightarrow> fblk t p' k = fblk s p k"
    and b: "data_block t b" and fresh: "\<And>k. k < MAXFILE \<Longrightarrow> fblk s p k \<noteq> b"
  shows "ino_wf t p'"
proof (rule ino_wfI; (unfold p'(3))?)
  show "length (i_addrs p') = NDIRECT + 1" "i_dev p' = 1" "data_block t b" by (fact p' b)+
  fix k j assume k: "k < MAXFILE"
  show "fblk t p' k \<noteq> b" using fresh [OF k] by (simp add: all [OF k])
  assume nz: "fblk t p' k \<noteq> 0"
  show "data_block t (fblk t p' k)"
    using nz ino_wfD(5) [OF wf k] keeps_data_block [OF keeps] by (simp add: all [OF k])
  assume j: "j < MAXFILE" and eq: "fblk t p' j = fblk t p' k"
  show "j = k" using eq nz ino_wfD(6) [OF wf k _ j] unfolding all [OF k] all [OF j] by blast
qed

section \<open>bmap\<close>

text \<open>The blocks of the indirect block: itself and the one of the map.\<close>

definition ind_set :: "'r fs_state_scheme \<Rightarrow> inode \<Rightarrow> nat set" where
  "ind_set s p = (if i_addrs p ! NDIRECT = 0 then {} else {i_addrs p ! NDIRECT, BBLOCK (i_addrs p ! NDIRECT) (sb s)})"

text \<open>
  \<open>mapped s ip t B\<close>: \<open>t\<close> was reached from \<open>s\<close> by looking up or allocating blocks for the inode \<open>ip\<close>. The state is a good
  one again, only the block addresses of that inode have changed in the cache, only the blocks \<open>B\<close> on the disk, and no
  block that was in use has lost its content, the map and the indirect block apart.
\<close>

definition mapped :: "nat set \<Rightarrow> 'r fs_state_scheme \<Rightarrow> nat \<Rightarrow> 'r fs_state_scheme \<Rightarrow> bool" where
  "mapped B s ip t \<longleftrightarrow> fsr B s t \<and> fs_layout t \<and> ino_wf t (icache t ! ip) \<and>
     icache t = (icache s)[ip := (icache s ! ip)\<lparr>i_addrs := i_addrs (icache t ! ip)\<rparr>] \<and>
     keeps ({i_addrs (icache s ! ip) ! NDIRECT} - {0}) s t \<and>
     (i_addrs (icache t ! ip) ! NDIRECT = i_addrs (icache s ! ip) ! NDIRECT \<or>
      i_addrs (icache s ! ip) ! NDIRECT = 0 \<and> \<not> in_use s (i_addrs (icache t ! ip) ! NDIRECT))"

definition bmap_post :: "'r fs_state_scheme \<Rightarrow> nat \<Rightarrow> nat \<Rightarrow> nat \<Rightarrow> 'r fs_state_scheme \<Rightarrow> bool" where
  "bmap_post s ip bn a t \<longleftrightarrow> (\<exists>B. mapped B s ip t \<and>
     B \<subseteq> ind_set t (icache t ! ip) \<union> (if fblk s (icache s ! ip) bn = 0 then {a, BBLOCK a (sb s)} else {})) \<and>
     a \<noteq> 0 \<and> fblk t (icache t ! ip) bn = a \<and>
     (\<forall>k < MAXFILE. k \<noteq> bn \<longrightarrow> fblk t (icache t ! ip) k = fblk s (icache s ! ip) k) \<and>
     (fblk s (icache s ! ip) bn \<noteq> 0 \<longrightarrow> fblk s (icache s ! ip) bn = a) \<and>
     (fblk s (icache s ! ip) bn = 0 \<longrightarrow> content t a = replicate BSIZE 0 \<and> \<not> in_use s a)"

lemma wp_upd_ino: "wp (upd_ino ip f) Q s = Q () (s\<lparr>icache := (icache s)[ip := f (icache s ! ip)]\<rparr>)"
  by (simp add: upd_ino_def wp_kmod)

lemma wp_get_ino: "wp (get_ino ip f) Q s = Q (f (icache s ! ip)) s"
  by (simp add: get_ino_def wp_kget)

lemma fblk_icache [simp]: "fblk (s\<lparr>icache := c\<rparr>) = fblk s"
  by (simp add: fblk_def fun_eq_iff)

lemma layout_icache [simp]: "fs_layout (s\<lparr>icache := c\<rparr>) = fs_layout s" "data_block (s\<lparr>icache := c\<rparr>) = data_block s"
  "ino_wf (s\<lparr>icache := c\<rparr>) = ino_wf s" "keeps X s (t\<lparr>icache := c\<rparr>) = keeps X s t" "keeps X (s\<lparr>icache := c\<rparr>) t = keeps X s t"
  "free_set (s\<lparr>icache := c\<rparr>) = free_set s"
  by (simp_all add: fs_layout_def data_block_def ino_wf_def keeps_def free_set_def fun_eq_iff)

lemma bmap_direct_alloc:
  assumes ok: "txok s" "2 \<le> avail s" "locked_bufs s = {}" and lay: "fs_layout s" and ip: "ip < length (icache s)"
    and wf: "ino_wf s (icache s ! ip)" and free: "free_set s \<noteq> {}" and bn: "bn < NDIRECT" and hole: "fblk s (icache s ! ip) bn = 0"
  shows "wp (kbind (balloc 1) (\<lambda>addr. kbind (upd_ino ip (\<lambda>p. p\<lparr>i_addrs := (i_addrs p)[bn := addr]\<rparr>)) (\<lambda>_. kreturn addr)))
     (\<lambda>a t. bmap_post s ip bn a t \<and> free_set t = free_set s - {a}) s"
proof (rule wp_seq [OF balloc_ok])
  show "txok s" "2 \<le> avail s" "held_ok s" "fs_geom s" "\<exists>c < sb_size (sb s). \<not> in_use s c"
    using ok lay free by (auto simp: held_ok_none fs_layout_def free_set_def)
  fix a t assume post: "balloc_post s a t"
  note A = balloc_keeps [OF ok(1) lay post]
  let ?p = "icache s ! ip" and ?p' = "(icache s ! ip)\<lparr>i_addrs := (i_addrs (icache s ! ip))[bn := a]\<rparr>"
  let ?t = "t\<lparr>icache := (icache s)[ip := ?p']\<rparr>"
  have len: "length (i_addrs ?p) = NDIRECT + 1" by (rule ino_wfD(1) [OF wf])
  have ind: "i_addrs ?p' ! NDIRECT = i_addrs ?p ! NDIRECT" using bn by simp
  have all: "fblk t ?p' k = (if k = bn then a else fblk s ?p k)" for k
    unfolding fun_cong [OF fblk_keeps [OF A(1) wf], of k, symmetric, simplified] using bn len by (simp add: fblk_def)
  have nd: "data_block s n \<Longrightarrow> n \<noteq> a" for n using A(4) by blast
  have fresh: "fblk s ?p k \<noteq> a" if "k < MAXFILE" for k
    using nd A(2) ino_wfD(5) [OF wf that] by (cases "fblk s ?p k = 0") auto
  have fi: "i_addrs ?p ! NDIRECT \<noteq> a" using nd A(2) ino_wfD(3) [OF wf] by (cases "i_addrs ?p ! NDIRECT = 0") auto
  have "ino_wf t ?p'"
    by (rule ino_wf_insert [OF wf A(1) _ _ ind all A(3) fresh fi]) (use len ino_wfD(2) [OF wf] in simp_all)
  moreover have "fsr {BBLOCK a (sb s), a} s ?t"
    using fsr_trans [OF fsr_txr [of _ s t] fsr_upd] post txrD(1) by (fastforce simp: balloc_post_def)
  moreover have "keeps ({i_addrs ?p ! NDIRECT} - {0}) s t" using A(1) by (simp add: keeps_def)
  ultimately have "mapped {BBLOCK a (sb s), a} s ip ?t"
    using ip keeps_layout [OF A(1) lay] ind by (simp add: mapped_def)
  then have "bmap_post s ip bn a ?t"
    unfolding bmap_post_def using ip A(2,5,9) all hole by (intro conjI exI [of _ "{BBLOCK a (sb s), a}"]) auto
  then show "wp (kbind (upd_ino ip (\<lambda>p. p\<lparr>i_addrs := (i_addrs p)[bn := a]\<rparr>)) (\<lambda>_. kreturn a))
      (\<lambda>a t. bmap_post s ip bn a t \<and> free_set t = free_set s - {a}) t"
    using A(6,8) by (simp add: wp_kbind wp_upd_ino wp_kreturn)
qed

lemma mappedD:
  assumes "mapped B s ip t"
  shows "fsr B s t" "fs_layout t" "ino_wf t (icache t ! ip)" "sb t = sb s" "txok t" "locked_bufs t = locked_bufs s"
    "length (icache t) = length (icache s)" "keeps ({i_addrs (icache s ! ip) ! NDIRECT} - {0}) s t"
  using assms fsrD [of B s t] unfolding mapped_def by (simp_all, metis length_list_update)

lemma addrs_upd_trans:
  assumes "c' = c[ip := (c ! ip)\<lparr>i_addrs := a\<rparr>]" "c'' = c'[ip := (c' ! ip)\<lparr>i_addrs := b\<rparr>]" "ip < length c"
  shows "c'' = c[ip := (c ! ip)\<lparr>i_addrs := b\<rparr>]"
  using assms by simp

lemma mapped_trans:
  assumes a: "mapped B s ip t" and b: "mapped C t ip u" and ip: "ip < length (icache s)"
  shows "mapped (B \<union> C) s ip u"
proof -
  let ?i = "\<lambda>s. i_addrs (icache s ! ip) ! NDIRECT"
  have A: "fsr B s t" "keeps ({?i s} - {0}) s t" "?i t = ?i s \<or> ?i s = 0 \<and> \<not> in_use s (?i t)" "ino_wf t (icache t ! ip)"
    "icache t = (icache s)[ip := (icache s ! ip)\<lparr>i_addrs := i_addrs (icache t ! ip)\<rparr>]"
    using a unfolding mapped_def by blast+
  have Bf: "fsr C t u" "fs_layout u" "ino_wf u (icache u ! ip)" "keeps ({?i t} - {0}) t u" "?i u = ?i t \<or> ?i t = 0 \<and> \<not> in_use t (?i u)"
    "icache u = (icache t)[ip := (icache t ! ip)\<lparr>i_addrs := i_addrs (icache u ! ip)\<rparr>]"
    using b unfolding mapped_def by blast+
  have k: "keeps (({?i s} - {0}) \<union> ({?i t} - {0})) s u" by (rule keeps_trans [OF A(2) Bf(4)])
  have "n \<notin> {?i t} - {0}" if "in_use s n" "n \<notin> {?i s} - {0}" for n using that A(3) by auto
  then have "keeps ({?i s} - {0}) s u" using k by (auto simp: keeps_def)
  moreover have "?i u = ?i s \<or> ?i s = 0 \<and> \<not> in_use s (?i u)"
  proof (cases "?i u = ?i t")
    case False
    then have f: "?i t = 0" "\<not> in_use t (?i u)" using Bf(5) by auto
    then have "?i s = 0" using A(3) by auto
    have "?i u < sb_size (sb s)"
    proof (cases "?i u = 0")
      case True then show ?thesis using f False by simp
    next
      case False
      then show ?thesis using ino_wfD(3) [OF Bf(3)] keepsD(1) [OF k] by (simp add: data_block_def)
    qed
    then show ?thesis using f keepsD(4) [OF A(2), of "?i u"] \<open>?i s = 0\<close> by blast
  qed (use A(3) in auto)
  moreover have "icache u = (icache s)[ip := (icache s ! ip)\<lparr>i_addrs := i_addrs (icache u ! ip)\<rparr>]"
    by (rule addrs_upd_trans [OF A(5) Bf(6) ip])
  ultimately show ?thesis using fsr_trans [OF A(1) Bf(1)] Bf(2,3) unfolding mapped_def by blast
qed

lemma mapped_refl: "txok s \<Longrightarrow> fs_layout s \<Longrightarrow> ino_wf s (icache s ! ip) \<Longrightarrow> mapped {} s ip s"
  by (simp add: mapped_def fsr_refl keeps_def)

lemma get32_zeros: "get32 (replicate BSIZE 0) i = 0"
  by (simp add: get32_def le_dec_replicate_0)

definition ind_post :: "'r fs_state_scheme \<Rightarrow> nat \<Rightarrow> nat \<Rightarrow> 'r fs_state_scheme \<Rightarrow> bool" where
  "ind_post s ip i t \<longleftrightarrow> (\<exists>B. mapped B s ip t \<and> B \<subseteq> ind_set t (icache t ! ip)) \<and>
     i = i_addrs (icache t ! ip) ! NDIRECT \<and> i \<noteq> 0 \<and> (\<forall>k < MAXFILE. fblk t (icache t ! ip) k = fblk s (icache s ! ip) k) \<and>
     (if i_addrs (icache s ! ip) ! NDIRECT = 0 then free_set t = free_set s - {i} else free_set t = free_set s)"

lemma bmap_get_indirect:
  assumes ok: "txok s" "2 \<le> avail s" "locked_bufs s = {}" and lay: "fs_layout s" and ip: "ip < length (icache s)"
    and wf: "ino_wf s (icache s ! ip)" and free: "free_set s \<noteq> {}"
  shows "wp (if i_addrs (icache s ! ip) ! NDIRECT = 0 then
       kbind (balloc 1) (\<lambda>addr. kbind (upd_ino ip (\<lambda>p. p\<lparr>i_addrs := (i_addrs p)[NDIRECT := addr]\<rparr>)) (\<lambda>_. kreturn addr))
     else kreturn (i_addrs (icache s ! ip) ! NDIRECT)) (ind_post s ip) s"
proof (cases "i_addrs (icache s ! ip) ! NDIRECT = 0")
  case False
  have "mapped {} s ip s" using ok(1) lay wf by (rule mapped_refl)
  then have "ind_post s ip (i_addrs (icache s ! ip) ! NDIRECT) s"
    using False unfolding ind_post_def by (intro conjI exI [of _ "{}"]) auto
  then show ?thesis using False by (simp add: wp_kreturn)
next
  case True
  let ?p = "icache s ! ip"
  have "wp (kbind (balloc 1) (\<lambda>addr. kbind (upd_ino ip (\<lambda>p. p\<lparr>i_addrs := (i_addrs p)[NDIRECT := addr]\<rparr>)) (\<lambda>_. kreturn addr)))
     (ind_post s ip) s"
  proof (rule wp_seq [OF balloc_ok])
    show "txok s" "2 \<le> avail s" "held_ok s" "fs_geom s" "\<exists>c < sb_size (sb s). \<not> in_use s c"
      using ok lay free by (auto simp: held_ok_none fs_layout_def free_set_def)
    fix a t assume post: "balloc_post s a t"
    note A = balloc_keeps [OF ok(1) lay post]
    let ?p' = "?p\<lparr>i_addrs := (i_addrs ?p)[NDIRECT := a]\<rparr>"
    let ?t = "t\<lparr>icache := (icache s)[ip := ?p']\<rparr>"
    have len: "length (i_addrs ?p) = NDIRECT + 1" by (rule ino_wfD(1) [OF wf])
    have ind: "i_addrs ?p' ! NDIRECT = a" using len by simp
    have all: "fblk t ?p' k = fblk s ?p k" for k
      using A(5) len True by (simp add: fblk_def get32_zeros)
    have fresh: "fblk s ?p k \<noteq> a" if "k < MAXFILE" for k
      using A(2,4) ino_wfD(5) [OF wf that] by (cases "fblk s ?p k = 0") auto
    have "ino_wf t ?p'"
      by (rule ino_wf_indirect [OF wf A(1) _ _ ind all A(3) fresh]) (use len ino_wfD(2) [OF wf] in simp_all)
    moreover have "fsr {BBLOCK a (sb s), a} s ?t"
      using fsr_trans [OF fsr_txr [of _ s t] fsr_upd] post txrD(1) by (fastforce simp: balloc_post_def)
    moreover have "keeps ({i_addrs ?p ! NDIRECT} - {0}) s t" using A(1) True by simp
    ultimately have "mapped {BBLOCK a (sb s), a} s ip ?t"
      using ip keeps_layout [OF A(1) lay] ind True A(9) by (simp add: mapped_def)
    moreover have "{BBLOCK a (sb s), a} \<subseteq> ind_set ?t ?p'" using ind A(2) keepsD(1) [OF A(1)] by (simp add: ind_set_def)
    ultimately have "ind_post s ip a ?t"
      unfolding ind_post_def using ip ind all A(2,6) True by (intro conjI exI [of _ "{BBLOCK a (sb s), a}"]) simp_all
    then show "wp (kbind (upd_ino ip (\<lambda>p. p\<lparr>i_addrs := (i_addrs p)[NDIRECT := a]\<rparr>)) (\<lambda>_. kreturn a)) (ind_post s ip) t"
      using A(8) by (simp add: wp_kbind wp_upd_ino wp_kreturn)
  qed
  then show ?thesis using True by simp
qed

lemma keeps_change:
  assumes "content t = (content s)(x := d)" "sb t = sb s" "disksize t = disksize s" "\<not> map_block s x"
  shows "keeps {x} s t" and "free_set t = free_set s"
proof -
  have u: "in_use t n = in_use s n" if "n < sb_size (sb s)" for n
    using assms that by (auto simp: in_use_def map_block_def)
  show "keeps {x} s t" using u assms by (simp add: keeps_def)
  show "free_set t = free_set s" using u assms(2) by (auto simp: free_set_def)
qed

definition bmap_entry :: "nat \<Rightarrow> nat \<Rightarrow> ('r fs_state_scheme, nat) K" where
  "bmap_entry ind bn =
     kbind (bread 1 ind) (\<lambda>bp.
     kbind (get_buf bp b_data) (\<lambda>a.
     kbind (if get32 a (bn - NDIRECT) = 0 then
              kbind (balloc 1) (\<lambda>addr.
              kbind (upd_buf bp (\<lambda>f. f\<lparr>b_data := put32 (bn - NDIRECT) addr (b_data f)\<rparr>)) (\<lambda>_.
              kbind (log_write bp) (\<lambda>_.
              kreturn addr)))
            else kreturn (get32 a (bn - NDIRECT))) (\<lambda>addr.
     kbind (brelse bp) (\<lambda>_.
     kreturn addr))))"

definition entry_post :: "'r fs_state_scheme \<Rightarrow> nat \<Rightarrow> nat \<Rightarrow> nat \<Rightarrow> 'r fs_state_scheme \<Rightarrow> bool" where
  "entry_post s ip bn a t \<longleftrightarrow> bmap_post s ip bn a t \<and>
     (if fblk s (icache s ! ip) bn = 0 then free_set t = free_set s - {a} else free_set t = free_set s)"

lemma bmap_entry_new:
  fixes s u v x :: "'r fs_state_scheme"
  assumes wf: "ino_wf s (icache s ! ip)" and bn: "NDIRECT \<le> bn" "bn < MAXFILE" and ind: "i_addrs (icache s ! ip) ! NDIRECT = i" "i \<noteq> 0"
    and lay: "fs_layout s" and hole: "fblk s (icache s ! ip) bn = 0" and ok: "txok u"
    and u: "content u = content s" "sb u = sb s" "disksize u = disksize s" and post: "balloc_post u a v"
    and x: "txr {i, BBLOCK a (sb s), a} s x" "content x = (content v)(i := put32 (bn - NDIRECT) a (content v i))"
  shows "entry_post s ip bn a x"
proof -
  let ?p = "icache s ! ip" and ?B = "{i, BBLOCK a (sb s), a}"
  have su: "keeps {} s u" by (rule keeps_same [OF u])
  note A = balloc_keeps [OF ok keeps_layout [OF su lay] post]
  have sv: "keeps {} s v" using keeps_trans [OF su A(1)] by simp
  have di: "data_block s i" using ino_wfD(3) [OF wf] ind by simp
  have xf: "sb x = sb s" "icache x = icache s" "disksize x = disksize s" using txr_fs [OF x(1)] txrD(8) [OF x(1)] by auto
  have "keeps {i} v x" "free_set x = free_set v"
    using keeps_change [OF x(2)] xf keepsD(1-3) [OF sv] di by (simp_all add: data_block_def)
  then have sx: "keeps {i} s x" "free_set x = free_set s - {a}"
    using keeps_trans [OF sv] A(6) u(2) in_use_cong [OF u(1,2)] by (auto simp: free_set_def)
  have ci: "content v i = content s i" by (rule keeps_content [OF sv di]) simp
  have ia: "i \<noteq> a" using A(4) keeps_data_block [OF su di] by blast
  have all: "fblk x ?p k = (if k = bn then a else fblk s ?p k)" if "k < MAXFILE" for k
  proof (cases "k < NDIRECT")
    case False
    have len: "length (content s i) = BSIZE" using x(1) by (simp add: txr_def)
    have "4 * (k - NDIRECT) + 4 \<le> BSIZE" "4 * (bn - NDIRECT) + 4 \<le> BSIZE"
      using that bn False by (auto simp: MAXFILE_def NINDIRECT_def BSIZE_def)
    then have "get32 (put32 (bn - NDIRECT) a (content s i)) (k - NDIRECT) =
        (if k - NDIRECT = bn - NDIRECT then a else get32 (content s i) (k - NDIRECT))"
      using get32_put32 [of "k - NDIRECT" "content s i" "bn - NDIRECT" a] len A(10) by simp
    moreover have "k - NDIRECT = bn - NDIRECT \<longleftrightarrow> k = bn" using False bn by auto
    ultimately show ?thesis using False ind x(2) ci by (simp add: fblk_def)
  qed (use bn in \<open>simp add: fblk_def\<close>)
  have fresh: "fblk s ?p k \<noteq> a" if "k < MAXFILE" for k
    using A(2,4) keeps_data_block [OF su] ino_wfD(5) [OF wf that] by (cases "fblk s ?p k = 0") auto
  have da: "data_block x a" using A(3) \<open>keeps {i} v x\<close> keeps_data_block by blast
  have "ino_wf x ?p"
    by (rule ino_wf_insert [OF wf sx(1) ino_wfD(1) [OF wf] ino_wfD(2) [OF wf] refl all da fresh]) (use ia ind in auto)
  then have "mapped ?B s ip x"
    using fsr_txr [OF x(1)] keeps_layout [OF sx(1) lay] xf sx(1) ind by (simp add: mapped_def insert_Diff_if)
  moreover have "?B \<subseteq> ind_set x ?p \<union> {a, BBLOCK a (sb s)}" using ind by (auto simp: ind_set_def)
  moreover have "content x a = replicate BSIZE 0" using x(2) ia A(5) by simp
  moreover have "\<not> in_use s a" using A(9) in_use_cong [OF u(1,2)] by simp
  ultimately have "bmap_post s ip bn a x"
    unfolding bmap_post_def xf(2) using all bn A(2) hole by (intro conjI exI [of _ ?B]) auto
  then show ?thesis using sx(2) hole by (simp add: entry_post_def)
qed

lemma entry_mapped:
  assumes "txok s" "fs_layout s" "ino_wf s (icache s ! ip)" "fblk s (icache s ! ip) bn = a" "a \<noteq> 0"
    and x: "txr {} s x" "content x = content s"
  shows "entry_post s ip bn a x"
proof -
  have xf: "sb x = sb s" "icache x = icache s" "disksize x = disksize s" using txr_fs [OF x(1)] txrD(8) [OF x(1)] by auto
  have k: "keeps {} s x" by (rule keeps_same [OF x(2) xf(1,3)])
  have f: "fblk x = fblk s" using x(2) by (simp add: fblk_def fun_eq_iff)
  have "ino_wf x (icache s ! ip)" using ino_wf_keeps [OF k assms(3)] by simp
  moreover have "keeps ({i_addrs (icache s ! ip) ! NDIRECT} - {0}) s x" using k by (simp add: keeps_def)
  ultimately have "mapped {} s ip x"
    using fsr_txr [OF x(1)] keeps_layout [OF k assms(2)] xf(2) by (simp add: mapped_def)
  then have "bmap_post s ip bn a x"
    unfolding bmap_post_def xf(2) f using assms(4,5) by (intro conjI exI [of _ "{}"]) auto
  moreover have "free_set x = free_set s" using xf(1) in_use_cong [OF x(2) xf(1)] by (simp add: free_set_def)
  ultimately show ?thesis using assms(4,5) by (simp add: entry_post_def)
qed

lemma wp_bmap_entry:
  assumes ok: "txok s" "0 \<le> avail s" "locked_bufs s = {}" and lay: "fs_layout s"
    and wf: "ino_wf s (icache s ! ip)" and bn: "NDIRECT \<le> bn" "bn < MAXFILE"
    and ind: "i_addrs (icache s ! ip) ! NDIRECT = i" "i \<noteq> 0"
    and room: "fblk s (icache s ! ip) bn = 0 \<Longrightarrow> 3 \<le> avail s \<and> free_set s \<noteq> {}"
  shows "wp (bmap_entry i bn) (entry_post s ip bn) s"
  unfolding bmap_entry_def
proof (rule wp_bread)
  let ?p = "icache s ! ip" and ?j = "bn - NDIRECT"
  have di: "data_block s i" using ino_wfD(3) [OF wf] ind by simp
  have geo: "fs_geom s" using lay by (simp add: fs_layout_def)
  show "txok s" "0 \<le> avail s" "card (locked_bufs s) \<le> 1" "i < disksize s" "i \<notin> held_blocks s"
    using ok di geo by (auto simp: data_block_def fs_geom_def held_blocks_def)
  have f: "fblk s ?p bn = get32 (content s i) ?j" using bn ind by (simp add: fblk_def)
  fix bp u assume h: "holding_block {} i bp s u" and c: "content u = content s"
  note H = holdingD [OF h] and F = fs_fields [OF holdingD(2) [OF h]]
  have data: "b_data (bufs u ! bp) = content s i" using holding_data [OF h] c by simp
  show "wp (kbind (get_buf bp b_data) (\<lambda>a.
     kbind (if get32 a ?j = 0 then
              kbind (balloc 1) (\<lambda>addr. kbind (upd_buf bp (\<lambda>f. f\<lparr>b_data := put32 ?j addr (b_data f)\<rparr>)) (\<lambda>_.
              kbind (log_write bp) (\<lambda>_. kreturn addr)))
            else kreturn (get32 a ?j)) (\<lambda>addr. kbind (brelse bp) (\<lambda>_. kreturn addr)))) (entry_post s ip bn) u"
  proof (cases "fblk s ?p bn = 0")
    case False
    have "wp (kbind (brelse bp) (\<lambda>_. kreturn (get32 (content s i) ?j))) (entry_post s ip bn) u"
      by (rule wp_brelse [OF h]) (use entry_mapped [OF ok(1) lay wf f [symmetric, THEN sym]] False f c in \<open>auto simp: wp_kreturn\<close>)
    then show ?thesis using False f by (simp add: wp_kbind [of "get_buf bp b_data"] upd_get_buf_wp(3) data)
  next
    case True
    have lu: "fs_layout u" by (rule keeps_layout [OF keeps_same lay]) (use c F H in auto)
    have "wp (kbind (balloc 1) (\<lambda>addr. kbind (upd_buf bp (\<lambda>f. f\<lparr>b_data := put32 ?j addr (b_data f)\<rparr>)) (\<lambda>_.
        kbind (log_write bp) (\<lambda>_. kbind (brelse bp) (\<lambda>_. kreturn addr))))) (entry_post s ip bn) u"
    proof (rule wp_seq [OF balloc_ok])
      show "txok u" "2 \<le> avail u" by (use H room [OF True] holding_avail [OF h] in auto)
      show "held_ok u"
        using H(4) ok(3) holding_blocks [OF h] di c F in_use_cong [OF c F(1)] by (auto simp: held_ok_def data_block_def held_blocks_def map_block_def)
      show "fs_geom u" using lu by (simp add: fs_layout_def)
      show "\<exists>c < sb_size (sb u). \<not> in_use u c" using room [OF True] F(1) in_use_cong [OF c F(1)] by (auto simp: free_set_def)
      fix a v assume post: "balloc_post u a v"
      then have x: "txr {BBLOCK a (sb s), a} u v" using F(1) by (simp add: balloc_post_def)
      note hv = holding_txr [OF h x]
      have av: "0 < avail v"
        using holding_avail [OF hv(1)] room [OF True] card_insert_le_m1 [of 2 "{a}" "BBLOCK a (sb s)"] by simp
      have len: "length (put32 ?j a (content v i)) = BSIZE"
        using bn txok_length [OF holdingD(1) [OF hv(1)]] by (simp add: MAXFILE_def NINDIRECT_def BSIZE_def)
      show "wp (kbind (upd_buf bp (\<lambda>f. f\<lparr>b_data := put32 ?j a (b_data f)\<rparr>)) (\<lambda>_.
          kbind (log_write bp) (\<lambda>_. kbind (brelse bp) (\<lambda>_. kreturn a)))) (entry_post s ip bn) v"
      proof (rule wp_change_log [OF hv(1) _ av], fact len, rule wp_brelse, assumption)
        fix w z assume w: "content w = (content v)(i := put32 ?j a (content v i))"
          and z: "txr (insert i ({} \<union> {BBLOCK a (sb s), a})) s z" "content z = content w"
        have "entry_post s ip bn a z"
          by (rule bmap_entry_new [OF wf bn ind lay True H(1) c F(1) H(3) post]) (use z w in simp_all)
        then show "wp (kreturn a) (entry_post s ip bn) z" by (simp add: wp_kreturn)
      qed
    qed
    then show ?thesis
      using True f by (simp add: wp_kbind [of "get_buf bp b_data"] upd_get_buf_wp(3) data kbind_assoc)
  qed
qed

definition new_ind :: "'r fs_state_scheme \<Rightarrow> 'r fs_state_scheme \<Rightarrow> nat \<Rightarrow> bool" where
  "new_ind s t ip \<longleftrightarrow> i_addrs (icache s ! ip) ! NDIRECT = 0 \<and> i_addrs (icache t ! ip) ! NDIRECT \<noteq> 0"

text \<open>\<open>bmap_post\<close> with the number of free blocks that are left.\<close>

definition bmap_free :: "'r fs_state_scheme \<Rightarrow> nat \<Rightarrow> nat \<Rightarrow> nat \<Rightarrow> 'r fs_state_scheme \<Rightarrow> bool" where
  "bmap_free s ip bn a t \<longleftrightarrow> bmap_post s ip bn a t \<and>
     card (free_set s) \<le> card (free_set t) + (if fblk s (icache s ! ip) bn = 0 then 1 else 0) + (if new_ind s t ip then 1 else 0)"

lemma card_free_Diff: "card A \<le> card (A - {a}) + 1"
  using card_Diff_singleton_if [of A a] by (auto split: if_splits)

lemma entry_post_free: "entry_post s ip bn a t \<Longrightarrow> bmap_free s ip bn a t"
  using card_free_Diff [of "free_set s" a] by (auto simp: entry_post_def bmap_free_def split: if_splits)

lemma mapped_ind_set:
  assumes "mapped C t ip u" "i_addrs (icache t ! ip) ! NDIRECT \<noteq> 0"
  shows "ind_set u (icache u ! ip) = ind_set t (icache t ! ip)"
  using assms fsrD(4) [of C t u] by (auto simp: mapped_def ind_set_def)

lemma bmap_compose:
  fixes s :: "'r fs_state_scheme"
  assumes i: "ind_post s ip i t" and e: "entry_post t ip bn a u" and ip: "ip < length (icache s)"
    and no: "i_addrs (icache s ! ip) ! NDIRECT = 0" and bn: "NDIRECT \<le> bn" "bn < MAXFILE"
  shows "bmap_free s ip bn a u"
proof -
  let ?p = "\<lambda>s. icache s ! ip"
  obtain B where B: "mapped B s ip t" "B \<subseteq> ind_set t (?p t)" using i by (auto simp: ind_post_def)
  have it: "i_addrs (?p t) ! NDIRECT \<noteq> 0" "\<And>k. k < MAXFILE \<Longrightarrow> fblk t (?p t) k = fblk s (?p s) k" "free_set t = free_set s - {i}"
    using i no by (auto simp: ind_post_def)
  have hs: "fblk s (?p s) bn = 0" using no bn by (simp add: fblk_def)
  then have ht: "fblk t (?p t) bn = 0" using it(2) bn by simp
  have e': "bmap_post t ip bn a u" "free_set u = free_set t - {a}" using e ht by (simp_all add: entry_post_def)
  obtain C where C: "mapped C t ip u" "C \<subseteq> ind_set u (?p u) \<union> {a, BBLOCK a (sb t)}" using e' ht by (auto simp: bmap_post_def)
  have sb: "sb t = sb s" by (rule mappedD(4) [OF B(1)])
  have "B \<union> C \<subseteq> ind_set u (?p u) \<union> {a, BBLOCK a (sb s)}" using B(2) C(2) mapped_ind_set [OF C(1) it(1)] sb by auto
  moreover have "\<not> in_use s a"
  proof -
    have "data_block u a" using C(1) e'(1) bn ino_wfD(5) [of u "?p u" bn] by (auto simp: bmap_post_def mapped_def)
    moreover have "sb u = sb s" using mappedD(4) [OF C(1)] sb by simp
    ultimately have "a < sb_size (sb s)" by (simp add: data_block_def)
    moreover have "\<not> in_use t a" using e'(1) ht by (simp add: bmap_post_def)
    ultimately show ?thesis using B(1) keepsD(4) unfolding mapped_def by blast
  qed
  ultimately have "bmap_post s ip bn a u"
    using mapped_trans [OF B(1) C(1) ip] e'(1) ht hs it(2) unfolding bmap_post_def by (intro conjI exI [of _ "B \<union> C"]) auto
  moreover have "new_ind s u ip" using no it(1) C(1) by (auto simp: new_ind_def mapped_def)
  moreover have "card (free_set s) \<le> card (free_set u) + 1 + 1"
    using card_free_Diff [of "free_set s" i] card_free_Diff [of "free_set t" a] it(3) e'(2) by simp
  ultimately show ?thesis using hs by (simp add: bmap_free_def)
qed

lemma bmap_ok_direct:
  assumes ok: "txok s" "0 \<le> avail s" "locked_bufs s = {}" and lay: "fs_layout s" and ip: "ip < length (icache s)"
    and wf: "ino_wf s (icache s ! ip)" and bn: "bn < MAXFILE"
    and True: "bn < NDIRECT"
    and room: "fblk s (icache s ! ip) bn = 0 \<Longrightarrow> 5 \<le> avail s \<and> 2 \<le> card (free_set s)"
  shows "wp (bmap ip bn) (bmap_free s ip bn) s"
proof -
  let ?p = "icache s ! ip"
  have f: "fblk s ?p bn = i_addrs ?p ! bn" using True by (simp add: fblk_def)
  show ?thesis
  proof (cases "fblk s ?p bn = 0")
    case hole: True
    have "wp (kbind (balloc 1) (\<lambda>addr. kbind (upd_ino ip (\<lambda>p. p\<lparr>i_addrs := (i_addrs p)[bn := addr]\<rparr>)) (\<lambda>_. kreturn addr)))
        (bmap_free s ip bn) s"
      by (rule wp_mono [OF bmap_direct_alloc [OF ok(1) _ ok(3) lay ip wf _ True hole]])
        (use room [OF hole] card_free_Diff [of "free_set s"] hole in \<open>auto simp: bmap_free_def card_gt_0_iff intro: trans_le_add1\<close>)
    then show ?thesis using True hole f ino_wfD(2) [OF wf] by (simp add: bmap_def wp_kbind [of "get_ino ip g" for g] wp_get_ino)
  next
    case False
    have "entry_post s ip bn (fblk s ?p bn) s"
      by (rule entry_mapped [OF ok(1) lay wf refl False txr_refl [OF ok(1)] refl])
    then show ?thesis
      using True False f entry_post_free by (simp add: bmap_def wp_kbind [of "get_ino ip g" for g] wp_get_ino wp_kreturn)
  qed
qed

lemma bmap_ok_indirect:
  assumes ok: "txok s" "0 \<le> avail s" "locked_bufs s = {}" and lay: "fs_layout s" and ip: "ip < length (icache s)"
    and wf: "ino_wf s (icache s ! ip)" and bn: "bn < MAXFILE"
    and False: "\<not> bn < NDIRECT"
    and room: "fblk s (icache s ! ip) bn = 0 \<Longrightarrow> 5 \<le> avail s \<and> 2 \<le> card (free_set s)"
  shows "wp (bmap ip bn) (bmap_free s ip bn) s"
proof -
  let ?p = "icache s ! ip"
  have bn': "NDIRECT \<le> bn" "bn - NDIRECT < NINDIRECT" using False bn by (auto simp: MAXFILE_def)
  have unf: "wp (bmap ip bn) Q s = wp (kbind (if i_addrs ?p ! NDIRECT = 0 then
       kbind (balloc 1) (\<lambda>addr. kbind (upd_ino ip (\<lambda>p. p\<lparr>i_addrs := (i_addrs p)[NDIRECT := addr]\<rparr>)) (\<lambda>_. kreturn addr))
     else kreturn (i_addrs ?p ! NDIRECT)) (\<lambda>ind. bmap_entry ind bn)) Q s" for Q
    using False bn' ino_wfD(2) [OF wf] by (simp add: bmap_def bmap_entry_def wp_kbind [of "get_ino ip g" for g] wp_get_ino cong: if_cong)
  show ?thesis
  proof (cases "i_addrs ?p ! NDIRECT = 0")
    case True
    have hole: "fblk s ?p bn = 0" using True False by (simp add: fblk_def)
    have fr: "free_set s \<noteq> {}" using room [OF hole] by auto
    show ?thesis
      unfolding unf
    proof (rule wp_seq [OF bmap_get_indirect [OF ok(1) _ ok(3) lay ip wf fr]])
      show "2 \<le> avail s" using room [OF hole] by simp
      fix i t assume i: "ind_post s ip i t"
      then obtain B where B: "mapped B s ip t" "B \<subseteq> ind_set t (icache t ! ip)" by (auto simp: ind_post_def)
      have it: "i_addrs (icache t ! ip) ! NDIRECT = i" "i \<noteq> 0" "free_set t = free_set s - {i}" using i True by (auto simp: ind_post_def)
      have m: "fsr B s t" "fs_layout t" "ino_wf t (icache t ! ip)" using B(1) by (auto simp: mapped_def)
      have "card B \<le> card (ind_set t (icache t ! ip))" by (rule card_mono [OF _ B(2)]) (simp add: ind_set_def)
      also have "\<dots> \<le> 2" using it by (simp add: ind_set_def card_insert_if)
      finally have av: "3 \<le> avail t" using fsr_avail [OF m(1)] room [OF hole] by simp
      have "1 \<le> card (free_set t)" using it(3) card_free_Diff [of "free_set s" i] room [OF hole] by simp
      then have fr': "free_set t \<noteq> {}" by auto
      have "wp (bmap_entry i bn) (entry_post t ip bn) t"
        by (rule wp_bmap_entry [OF fsrD(1) [OF m(1)] _ _ m(2,3) bn'(1) bn it(1,2)]) (use av fr' fsrD(3) [OF m(1)] ok(3) in simp_all)
      then show "wp (bmap_entry i bn) (bmap_free s ip bn) t"
        by (rule wp_mono) (rule bmap_compose [OF i _ ip True bn'(1) bn])
    qed
  next
    case ind: False
    have "wp (bmap_entry (i_addrs ?p ! NDIRECT) bn) (bmap_free s ip bn) s"
      by (rule wp_mono [OF wp_bmap_entry [OF ok lay wf bn'(1) bn refl ind]]) (use room entry_post_free in auto)
    then show ?thesis unfolding unf using ind by simp
  qed
qed

lemma bmap_ok:
  assumes ok: "txok s" "0 \<le> avail s" "locked_bufs s = {}" and lay: "fs_layout s" and ip: "ip < length (icache s)"
    and wf: "ino_wf s (icache s ! ip)" and bn: "bn < MAXFILE"
    and room: "fblk s (icache s ! ip) bn = 0 \<Longrightarrow> 5 \<le> avail s \<and> 2 \<le> card (free_set s)"
  shows "wp (bmap ip bn) (bmap_free s ip bn) s"
  using bmap_ok_direct [OF assms(1-7)] bmap_ok_indirect [OF assms(1-7)] room by blast

end
