(* ===== verification/Fileio.thy ===== *)
theory Fileio
  imports Ifile
begin

text \<open>
  \<^verbatim>\<open>readi\<close> and \<^verbatim>\<open>writei\<close> read and write the bytes of a file, what is written is read back, and a write stays within the
  number of blocks that a system call may log.
\<close>

section \<open>Reading\<close>

text \<open>The bytes of a file; where a block is missing they are zero.\<close>

definition fbyte :: "'r fs_state_scheme \<Rightarrow> inode \<Rightarrow> nat \<Rightarrow> byte" where
  "fbyte s p k = (if fblk s p (k div BSIZE) = 0 then 0 else content s (fblk s p (k div BSIZE)) ! (k mod BSIZE))"

definition fbytes :: "'r fs_state_scheme \<Rightarrow> inode \<Rightarrow> nat \<Rightarrow> nat \<Rightarrow> byte list" where
  "fbytes s p off n = map (fbyte s p) [off ..< off + n]"

definition no_holes :: "'r fs_state_scheme \<Rightarrow> inode \<Rightarrow> nat \<Rightarrow> nat \<Rightarrow> bool" where
  "no_holes s p off n \<longleftrightarrow> (\<forall>k. off \<le> k \<longrightarrow> k < off + n \<longrightarrow> fblk s p (k div BSIZE) \<noteq> 0)"

text \<open>Nothing but the buffers has changed.\<close>

definition same :: "'r fs_state_scheme \<Rightarrow> 'r fs_state_scheme \<Rightarrow> bool" where
  "same s t \<longleftrightarrow> txr {} s t \<and> content t = content s"

lemma sameD:
  assumes "same s t"
  shows "txok t" "avail s \<le> avail t" "locked_bufs t = locked_bufs s" "sb t = sb s" "icache t = icache s" "content t = content s"
    "fs_layout s \<Longrightarrow> fs_layout t" "ino_wf s p \<Longrightarrow> ino_wf t p" "fblk t = fblk s" "disksize t = disksize s"
proof -
  have x: "txr {} s t" and c: "content t = content s" using assms by (auto simp: same_def)
  note F = txr_fs [OF x]
  show "txok t" "locked_bufs t = locked_bufs s" "disksize t = disksize s" "content t = content s" "sb t = sb s" "icache t = icache s"
    using txrD [OF x] F c by auto
  show "avail s \<le> avail t" using txr_avail [OF x] by simp
  have k: "keeps {} s t" by (rule keeps_same [OF c F(1) txrD(8) [OF x]])
  show "fs_layout s \<Longrightarrow> fs_layout t" by (rule keeps_layout [OF k])
  show "ino_wf s p \<Longrightarrow> ino_wf t p" by (rule ino_wf_keeps [OF k]) simp_all
  show "fblk t = fblk s" using c by (simp add: fblk_def fun_eq_iff)
qed

lemma same_refl: "txok s \<Longrightarrow> same s s"
  by (simp add: same_def txr_refl)

lemma same_trans: "same s t \<Longrightarrow> same t u \<Longrightarrow> same s u"
  unfolding same_def using txr_trans [of "{}" s t "{}" u] by simp

lemma fblk_disk: "fs_layout s \<Longrightarrow> ino_wf s p \<Longrightarrow> bn < MAXFILE \<Longrightarrow> fblk s p bn \<noteq> 0 \<Longrightarrow> fblk s p bn < disksize s"
  using ino_wfD(5) [of s p bn] by (simp add: data_block_def fs_layout_def fs_geom_def)

lemma bmap_mapped:
  assumes ok: "txok s" "0 \<le> avail s" "locked_bufs s = {}" and lay: "fs_layout s" and wf: "ino_wf s (icache s ! ip)"
    and bn: "bn < MAXFILE" "fblk s (icache s ! ip) bn \<noteq> 0"
  shows "wp (bmap ip bn) (\<lambda>a t. a = fblk s (icache s ! ip) bn \<and> same s t) s"
proof (cases "bn < NDIRECT")
  case True
  then show ?thesis using bn same_refl [OF ok(1)] by (simp add: bmap_def wp_simps get_ino_def fblk_def)
next
  case False
  let ?i = "i_addrs (icache s ! ip) ! NDIRECT" and ?j = "bn - NDIRECT"
  have i: "?i \<noteq> 0" "get32 (content s ?i) ?j \<noteq> 0" using bn(2) False by (auto simp: fblk_def split: if_splits)
  have "wp (kbind (bread 1 ?i) (\<lambda>bp. kbind (get_buf bp b_data) (\<lambda>a.
       kbind (if get32 a ?j = 0 then
                kbind (balloc 1) (\<lambda>addr.
                kbind (upd_buf bp (\<lambda>f. f\<lparr>b_data := put32 ?j addr (b_data f)\<rparr>)) (\<lambda>_. kbind (log_write bp) (\<lambda>_. kreturn addr)))
              else kreturn (get32 a ?j)) (\<lambda>addr. kbind (brelse bp) (\<lambda>_. kreturn addr)))))
     (\<lambda>a t. a = fblk s (icache s ! ip) bn \<and> same s t) s"
  proof (rule wp_bread)
    show "txok s" "0 \<le> avail s" "card (locked_bufs s) \<le> 1" "?i < disksize s" "?i \<notin> held_blocks s"
      using ok ino_wfD(3) [OF wf i(1)] lay by (auto simp: data_block_def fs_layout_def fs_geom_def held_blocks_def)
    fix bp u assume h: "holding_block {} ?i bp s u" and c: "content u = content s"
    have "wp (kbind (brelse bp) (\<lambda>_. kreturn (get32 (content s ?i) ?j))) (\<lambda>a t. a = fblk s (icache s ! ip) bn \<and> same s t) u"
      by (rule wp_brelse [OF h]) (use c i False in \<open>auto simp: wp_kreturn same_def fblk_def\<close>)
    then show "wp (kbind (get_buf bp b_data) (\<lambda>a. kbind (if get32 a ?j = 0 then
                kbind (balloc 1) (\<lambda>addr.
                kbind (upd_buf bp (\<lambda>f. f\<lparr>b_data := put32 ?j addr (b_data f)\<rparr>)) (\<lambda>_. kbind (log_write bp) (\<lambda>_. kreturn addr)))
              else kreturn (get32 a ?j)) (\<lambda>addr. kbind (brelse bp) (\<lambda>_. kreturn addr))))
        (\<lambda>a t. a = fblk s (icache s ! ip) bn \<and> same s t) u"
      using i holding_data [OF h] c by (simp add: wp_kbind [of "get_buf bp b_data"] upd_get_buf_wp(3))
  qed
  moreover have "?j < NINDIRECT" using bn(1) False by (simp add: MAXFILE_def)
  ultimately show ?thesis
    using False i ino_wfD(2) [OF wf] by (simp add: bmap_def wp_kbind [of "get_ino ip g" for g] wp_get_ino)
qed

lemma BSIZE_pos [simp]: "0 < BSIZE"
  by (simp add: BSIZE_def)

lemma chunk_bounds:
  assumes "i < min n (BSIZE - off mod BSIZE)"
  shows "(off + i) div BSIZE = off div BSIZE" "(off + i) mod BSIZE = off mod BSIZE + i"
proof -
  define q r where "q = off div BSIZE" and "r = off mod BSIZE"
  have e: "off + i = (r + i) + q * BSIZE" by (simp add: q_def r_def)
  have l: "r + i < BSIZE" using assms unfolding r_def by linarith
  show "(off + i) div BSIZE = off div BSIZE" "(off + i) mod BSIZE = off mod BSIZE + i"
    unfolding q_def [symmetric] r_def [symmetric] e div_mult_self1 [OF BSIZE_pos [THEN gr_implies_not0]] mod_mult_self1
    using l by simp_all
qed

lemma chunk_splice: "length d = BSIZE \<Longrightarrow> length xs \<le> BSIZE - off mod BSIZE \<Longrightarrow> length (splice (off mod BSIZE) xs d) = BSIZE"
  using mod_less_divisor [OF BSIZE_pos, of off] length_splice [of "off mod BSIZE" xs d] by linarith

lemma fbytes_chunk:
  assumes "length (content s (fblk s p (off div BSIZE))) = BSIZE" and "fblk s p (off div BSIZE) \<noteq> 0" and "m = min n (BSIZE - off mod BSIZE)"
  shows "take m (drop (off mod BSIZE) (content s (fblk s p (off div BSIZE)))) = fbytes s p off m"
proof (rule nth_equalityI)
  have "off mod BSIZE < BSIZE" by simp
  then show "length (take m (drop (off mod BSIZE) (content s (fblk s p (off div BSIZE))))) = length (fbytes s p off m)"
    using assms by (simp add: fbytes_def)
  fix i assume "i < length (take m (drop (off mod BSIZE) (content s (fblk s p (off div BSIZE)))))"
  then have "i < min n (BSIZE - off mod BSIZE)" using assms by simp
  then show "take m (drop (off mod BSIZE) (content s (fblk s p (off div BSIZE)))) ! i = fbytes s p off m ! i"
    using assms chunk_bounds [of i n off] by (simp add: fbytes_def fbyte_def)
qed

lemma fbytes_split: "fbytes s p off (m + n) = fbytes s p off m @ fbytes s p (off + m) n"
  using upt_add_eq_append [of off "off + m" n] by (simp add: fbytes_def add.assoc)


lemma wp_bread_get:
  assumes ok: "txok s" "0 \<le> avail s" "locked_bufs s = {}" "a < disksize s"
    and nxt: "\<And>t. same s t \<Longrightarrow> wp (f (g (content s a))) Q t"
  shows "wp (kbind (bread 1 a) (\<lambda>bp. kbind (get_buf bp (\<lambda>x. g (b_data x))) (\<lambda>c. kbind (brelse bp) (\<lambda>_. f c)))) Q s"
proof (rule wp_bread)
  show "txok s" "0 \<le> avail s" "card (locked_bufs s) \<le> 1" "a < disksize s" "a \<notin> held_blocks s"
    using ok by (auto simp: held_blocks_def)
  fix bp u assume h: "holding_block {} a bp s u" and c: "content u = content s"
  have "wp (kbind (brelse bp) (\<lambda>_. f (g (content s a)))) Q u"
    by (rule wp_brelse [OF h]) (simp add: nxt same_def c)
  then show "wp (kbind (get_buf bp (\<lambda>x. g (b_data x))) (\<lambda>c. kbind (brelse bp) (\<lambda>_. f c))) Q u"
    using holding_data [OF h] c by (simp add: wp_kbind [of "get_buf bp g" for g] upd_get_buf_wp(3))
qed

lemma readi_loop_ok:
  assumes "txok s" "0 \<le> avail s" "locked_bufs s = {}" "fs_layout s" "ino_wf s (icache s ! ip)"
    "off + n \<le> MAXFILE * BSIZE" "no_holes s (icache s ! ip) off n"
  shows "wp (readi_loop ip off n) (\<lambda>bs t. bs = fbytes s (icache s ! ip) off n \<and> same s t) s"
  using assms
proof (induction n arbitrary: off s rule: less_induct)
  case (less n off s)
  let ?p = "icache s ! ip" and ?bn = "off div BSIZE" and ?m = "min n (BSIZE - off mod BSIZE)"
  note P = less.prems
  show ?case
  proof (cases "n = 0")
    case True
    then show ?thesis by (subst readi_loop.simps) (simp add: wp_kreturn fbytes_def same_refl P)
  next
    case False
    have bn: "?bn < MAXFILE" "fblk s ?p ?bn \<noteq> 0"
      using False P(6,7) by (auto simp: no_holes_def less_mult_imp_div_less)
    have m: "0 < ?m" "?m \<le> n" "n - ?m < n" using False mod_less_divisor [OF BSIZE_pos, of off] by (simp_all only: min_def) auto
    have rest: "wp (kbind (readi_loop ip (off + ?m) (n - ?m)) (\<lambda>rest. kreturn (fbytes s ?p off ?m @ rest)))
        (\<lambda>bs t. bs = fbytes s ?p off n \<and> same s t) v" if v: "same s v" for v
    proof -
      note D = sameD [OF v]
      have h: "no_holes v ?p (off + ?m) (n - ?m)" using P(7) m(2) by (auto simp: no_holes_def D(9))
      have fb: "fbytes v ?p = fbytes s ?p" by (simp add: fbytes_def fbyte_def fun_eq_iff D(6,9))
      have w: "wp (readi_loop ip (off + ?m) (n - ?m)) (\<lambda>bs t. bs = fbytes s ?p (off + ?m) (n - ?m) \<and> same v t) v"
        using less.IH [OF m(3), of v "off + ?m"] D P m(2) h fb by simp
      have "fbytes s ?p off n = fbytes s ?p off ?m @ fbytes s ?p (off + ?m) (n - ?m)"
        using fbytes_split [of s ?p off ?m "n - ?m"] m(2) by simp
      then show ?thesis
        unfolding wp_kbind by (auto intro!: wp_mono [OF w] simp: wp_kreturn intro: same_trans [OF v])
    qed
    have "wp (kbind (bmap ip ?bn) (\<lambda>addr. kbind (get_ino ip i_dev) (\<lambda>dev. kbind (bread dev addr) (\<lambda>bp.
         kbind (get_buf bp (\<lambda>f. take ?m (drop (off mod BSIZE) (b_data f)))) (\<lambda>chunk. kbind (brelse bp) (\<lambda>_.
         kbind (readi_loop ip (off + ?m) (n - ?m)) (\<lambda>rest. kreturn (chunk @ rest)))))))) (\<lambda>bs t. bs = fbytes s ?p off n \<and> same s t) s"
      unfolding wp_kbind [of "bmap ip ?bn"]
    proof (rule wp_mono [OF bmap_mapped [OF P(1-5) bn]], elim conjE)
      fix a t assume a: "a = fblk s ?p ?bn" and D: "same s t"
      note d = sameD [OF D]
      have e: "take ?m (drop (off mod BSIZE) (content t a)) = fbytes s ?p off ?m"
        using fbytes_chunk [of s ?p off ?m n] txok_length [OF P(1)] bn(2) by (simp add: a d(6))
      show "wp (kbind (get_ino ip i_dev) (\<lambda>dev. kbind (bread dev a) (\<lambda>bp.
         kbind (get_buf bp (\<lambda>f. take ?m (drop (off mod BSIZE) (b_data f)))) (\<lambda>chunk. kbind (brelse bp) (\<lambda>_.
         kbind (readi_loop ip (off + ?m) (n - ?m)) (\<lambda>rest. kreturn (chunk @ rest))))))) (\<lambda>bs t. bs = fbytes s ?p off n \<and> same s t) t"
        unfolding wp_kbind [of "get_ino ip i_dev"] wp_get_ino d(5) ino_wfD(2) [OF P(5)]
        by (rule wp_bread_get [where g = "\<lambda>d. take ?m (drop (off mod BSIZE) d)"])
          (use d P fblk_disk [OF P(4,5) bn] in \<open>auto simp: a e [unfolded a d(6)] intro!: rest same_trans [OF D]\<close>)
    qed
    then show ?thesis using False by (subst readi_loop.simps) (simp add: Let_def)
  qed
qed


section \<open>Writing\<close>

definition file_blocks :: "'r fs_state_scheme \<Rightarrow> inode \<Rightarrow> nat set" where
  "file_blocks s p = ({fblk s p k |k. k < MAXFILE} \<union> {i_addrs p ! NDIRECT}) - {0}"

text \<open>The block numbers of the file that the bytes from \<open>off\<close> on, \<open>n\<close> of them, lie in.\<close>

definition touch :: "nat \<Rightarrow> nat \<Rightarrow> nat set" where
  "touch off n = (\<lambda>k. k div BSIZE) ` {off ..< off + n}"

lemma touch_0 [simp]: "touch off 0 = {}"
  by (simp add: touch_def)

lemma touch_finite [simp]: "finite (touch off n)"
  by (simp add: touch_def)

lemma touch_split: "touch off (m + n) = touch off m \<union> touch (off + m) n"
  by (simp add: touch_def add.assoc flip: image_Un ivl_disj_un_two(3) [of off "off + m" "off + (m + n)"])

lemma touch_chunk:
  assumes "0 < m" "m \<le> BSIZE - off mod BSIZE"
  shows "touch off m = {off div BSIZE}"
proof -
  have e: "k div BSIZE = off div BSIZE" if "off \<le> k" "k < off + m" for k
  proof -
    have "min m (BSIZE - off mod BSIZE) = m" by (rule min_absorb1) (rule assms(2))
    then show ?thesis using chunk_bounds(1) [of "k - off" m off] that by simp
  qed
  have "touch off m \<subseteq> {off div BSIZE}" unfolding touch_def by (rule image_subsetI) (use e in \<open>simp only: atLeastLessThan_iff singleton_iff\<close>)
  moreover have "off div BSIZE \<in> touch off m" unfolding touch_def using assms(1) by (intro image_eqI [of _ _ off]) auto
  ultimately show ?thesis by blast
qed

lemma touch_less: "off + n \<le> MAXFILE * BSIZE \<Longrightarrow> bn \<in> touch off n \<Longrightarrow> bn < MAXFILE"
  by (auto simp: touch_def less_mult_imp_div_less)

text \<open>The blocks on the disk that a write may change; \<open>p\<close> is the inode before and \<open>p'\<close> after.\<close>

definition cost_set :: "'r fs_state_scheme \<Rightarrow> inode \<Rightarrow> nat set \<Rightarrow> 'r fs_state_scheme \<Rightarrow> inode \<Rightarrow> nat set" where
  "cost_set s p T t p' = ind_set t p' \<union> fblk t p' ` T \<union> (\<lambda>bn. BBLOCK (fblk t p' bn) (sb t)) ` {bn \<in> T. fblk s p bn = 0}"

lemma cost_set_finite [simp]: "finite T \<Longrightarrow> finite (cost_set s p T t p')"
  by (simp add: cost_set_def ind_set_def)

lemma cost_set_card:
  assumes "finite T"
  shows "card (cost_set s p T t p') \<le> 2 + card T + card {bn \<in> T. fblk s p bn = 0}"
proof -
  have "card (ind_set t p') \<le> 2" by (simp add: ind_set_def card_insert_if)
  moreover have "card (fblk t p' ` T) \<le> card T" using assms by (rule card_image_le)
  moreover have "card ((\<lambda>bn. BBLOCK (fblk t p' bn) (sb t)) ` {bn \<in> T. fblk s p bn = 0}) \<le> card {bn \<in> T. fblk s p bn = 0}"
    using assms by (intro card_image_le) simp
  ultimately show ?thesis
    unfolding cost_set_def by (intro order_trans [OF card_Un_le] add_mono order_trans [OF card_Un_le]) auto
qed

text \<open>The inode cache and the files other than the written one are as before; blocks have only been added to the file.\<close>

definition grown :: "'r fs_state_scheme \<Rightarrow> nat \<Rightarrow> 'r fs_state_scheme \<Rightarrow> bool" where
  "grown s ip t \<longleftrightarrow> fs_layout t \<and> ino_wf t (icache t ! ip) \<and>
     icache t = (icache s)[ip := (icache s ! ip)\<lparr>i_addrs := i_addrs (icache t ! ip)\<rparr>] \<and>
     keeps (file_blocks s (icache s ! ip)) s t \<and>
     (i_addrs (icache s ! ip) ! NDIRECT \<noteq> 0 \<longrightarrow> i_addrs (icache t ! ip) ! NDIRECT = i_addrs (icache s ! ip) ! NDIRECT) \<and>
     (\<forall>bn < MAXFILE. fblk s (icache s ! ip) bn \<noteq> 0 \<longrightarrow> fblk t (icache t ! ip) bn = fblk s (icache s ! ip) bn) \<and>
     (\<forall>n \<in> file_blocks t (icache t ! ip) - file_blocks s (icache s ! ip). \<not> in_use s n)"

definition fwrote :: "nat set \<Rightarrow> 'r fs_state_scheme \<Rightarrow> nat \<Rightarrow> nat \<Rightarrow> byte list \<Rightarrow> 'r fs_state_scheme \<Rightarrow> bool" where
  "fwrote B s ip off src t \<longleftrightarrow> fsr B s t \<and> grown s ip t \<and>
     B \<subseteq> cost_set s (icache s ! ip) (touch off (length src)) t (icache t ! ip) \<and>
     (\<forall>bn < MAXFILE. fblk t (icache t ! ip) bn \<noteq> 0 \<longleftrightarrow> fblk s (icache s ! ip) bn \<noteq> 0 \<or> bn \<in> touch off (length src)) \<and>
     (\<forall>k < MAXFILE * BSIZE. fbyte t (icache t ! ip) k =
        (if off \<le> k \<and> k < off + length src then src ! (k - off) else fbyte s (icache s ! ip) k))"

lemma grown_refl: "fs_layout s \<Longrightarrow> ino_wf s (icache s ! ip) \<Longrightarrow> grown s ip s"
  by (simp add: grown_def keeps_def)

lemma fwrote_Nil: "txok s \<Longrightarrow> fs_layout s \<Longrightarrow> ino_wf s (icache s ! ip) \<Longrightarrow> fwrote {} s ip off [] s"
  by (auto simp: fwrote_def grown_refl fsr_refl)

lemma grownD:
  assumes "grown s ip t"
  shows "fs_layout t" "ino_wf t (icache t ! ip)" "sb t = sb s" "disksize t = disksize s" "length (icache t) = length (icache s)"
    "keeps (file_blocks s (icache s ! ip)) s t"
    "i_addrs (icache s ! ip) ! NDIRECT \<noteq> 0 \<Longrightarrow> i_addrs (icache t ! ip) ! NDIRECT = i_addrs (icache s ! ip) ! NDIRECT"
    "bn < MAXFILE \<Longrightarrow> fblk s (icache s ! ip) bn \<noteq> 0 \<Longrightarrow> fblk t (icache t ! ip) bn = fblk s (icache s ! ip) bn"
    "n \<in> file_blocks t (icache t ! ip) \<Longrightarrow> n \<notin> file_blocks s (icache s ! ip) \<Longrightarrow> \<not> in_use s n"
proof -
  show "fs_layout t" "ino_wf t (icache t ! ip)" "sb t = sb s" "disksize t = disksize s" "keeps (file_blocks s (icache s ! ip)) s t"
    using assms by (auto simp: grown_def keeps_def)
  have "icache t = (icache s)[ip := (icache s ! ip)\<lparr>i_addrs := i_addrs (icache t ! ip)\<rparr>]" using assms unfolding grown_def by blast
  then show "length (icache t) = length (icache s)" by (metis length_list_update)
qed (use assms in \<open>unfold grown_def, blast+\<close>)

lemma grown_trans:
  assumes a: "grown s ip t" and b: "grown t ip u" and ip: "ip < length (icache s)"
  shows "grown s ip u"
proof -
  note A = grownD [OF a] and B = grownD [OF b]
  have lt: "n < sb_size (sb s)" if "n \<in> file_blocks u (icache u ! ip)" for n
    using that ino_wfD(3,5) [OF B(2)] A(3) B(3) by (auto simp: file_blocks_def data_block_def)
  have new: "\<not> in_use s n" if n: "n \<in> file_blocks u (icache u ! ip)" "n \<notin> file_blocks s (icache s ! ip)" for n
  proof (cases "n \<in> file_blocks t (icache t ! ip)")
    case False
    then have "\<not> in_use t n" using B(9) n(1) by blast
    then show ?thesis using keepsD(4) [OF A(6) lt [OF n(1)]] by blast
  qed (use A(9) n in blast)
  have keeps: "keeps (file_blocks s (icache s ! ip)) s u"
  proof -
    have "content u n = content s n" if n: "n < sb_size (sb s)" "in_use s n" "\<not> map_block s n" "n \<notin> file_blocks s (icache s ! ip)" for n
      using n keepsD(5) [OF A(6)] keepsD(4) [OF A(6)] keepsD(5) [OF B(6), of n] A(3,9) keepsD(3) [OF A(6)] by auto
    moreover have "in_use u n" if "n < sb_size (sb s)" "in_use s n" for n
      using that keepsD(4) [OF A(6)] keepsD(4) [OF B(6)] A(3) by simp
    ultimately show ?thesis using A(3,4) B(3,4) by (simp add: keeps_def)
  qed
  have ic: "icache u = (icache s)[ip := (icache s ! ip)\<lparr>i_addrs := i_addrs (icache u ! ip)\<rparr>]"
  proof -
    have "icache t = (icache s)[ip := (icache s ! ip)\<lparr>i_addrs := i_addrs (icache t ! ip)\<rparr>]"
      "icache u = (icache t)[ip := (icache t ! ip)\<lparr>i_addrs := i_addrs (icache u ! ip)\<rparr>]"
      using a b unfolding grown_def by blast+
    then show ?thesis using ip by (rule addrs_upd_trans)
  qed
  show ?thesis
    unfolding grown_def using ic keeps new B(1,2) A(7,8) B(7,8) by (metis DiffE)
qed


lemma ind_set_grown: "grown s ip t \<Longrightarrow> ind_set s (icache s ! ip) \<subseteq> ind_set t (icache t ! ip)"
  using grownD(3,7) [of s ip t] by (auto simp: ind_set_def)

lemma fwroteD:
  assumes "fwrote B s ip off src t"
  shows "fsr B s t" "grown s ip t" "B \<subseteq> cost_set s (icache s ! ip) (touch off (length src)) t (icache t ! ip)"
    "bn < MAXFILE \<Longrightarrow> fblk t (icache t ! ip) bn \<noteq> 0 \<longleftrightarrow> fblk s (icache s ! ip) bn \<noteq> 0 \<or> bn \<in> touch off (length src)"
    "k < MAXFILE * BSIZE \<Longrightarrow> fbyte t (icache t ! ip) k =
        (if off \<le> k \<and> k < off + length src then src ! (k - off) else fbyte s (icache s ! ip) k)"
  using assms unfolding fwrote_def by blast+

lemma fwrote_trans:
  assumes a: "fwrote B s ip off xs t" and b: "fwrote C t ip (off + length xs) ys u" and ip: "ip < length (icache s)"
    and max: "off + length xs + length ys \<le> MAXFILE * BSIZE"
  shows "fwrote (B \<union> C) s ip off (xs @ ys) u"
proof -
  note A = fwroteD [OF a] and D = fwroteD [OF b]
  let ?T = "touch off (length xs)" and ?U = "touch (off + length xs) (length ys)"
  let ?p = "icache s ! ip" and ?q = "icache t ! ip" and ?r = "icache u ! ip"
  have T: "bn < MAXFILE" if "bn \<in> ?T \<union> ?U" for bn
    using that touch_less [of off "length xs" bn] touch_less [of "off + length xs" "length ys" bn] max by auto
  have fu: "fblk u ?r bn = fblk t ?q bn" if "bn \<in> ?T" for bn
    using that T [of bn] A(4) [of bn] grownD(8) [OF D(2), of bn] by simp
  have hole: "fblk s ?p bn = 0" if "bn \<in> ?T \<union> ?U" "fblk t ?q bn = 0" for bn
    using that T [of bn] A(4) [of bn] by simp
  have sb: "sb u = sb t" by (rule grownD(3) [OF D(2)])
  have im: "fblk t ?q ` ?T = fblk u ?r ` ?T"
    "(\<lambda>bn. BBLOCK (fblk t ?q bn) (sb t)) ` {bn \<in> ?T. fblk s ?p bn = 0} = (\<lambda>bn. BBLOCK (fblk u ?r bn) (sb u)) ` {bn \<in> ?T. fblk s ?p bn = 0}"
    by (rule image_cong; simp add: fu sb)+
  have "B \<subseteq> cost_set s ?p (?T \<union> ?U) u ?r"
    using A(3) ind_set_grown [OF D(2)] unfolding cost_set_def im by blast
  moreover have "C \<subseteq> cost_set s ?p (?T \<union> ?U) u ?r"
    using D(3) hole unfolding cost_set_def by blast
  moreover have "fbyte u ?r k = (if off \<le> k \<and> k < off + length (xs @ ys) then (xs @ ys) ! (k - off) else fbyte s ?p k)"
    if "k < MAXFILE * BSIZE" for k
    using A(5) [OF that] D(5) [OF that] by (auto simp: nth_append)
  moreover have "fblk u ?r bn \<noteq> 0 \<longleftrightarrow> fblk s ?p bn \<noteq> 0 \<or> bn \<in> ?T \<union> ?U" if "bn < MAXFILE" for bn
    using A(4) [OF that] D(4) [OF that] by blast
  ultimately show ?thesis
    using fsr_trans [OF A(1) D(1)] grown_trans [OF A(2) D(2) ip] by (simp add: fwrote_def touch_split)
qed

text \<open>One chunk: \<^verbatim>\<open>bmap\<close> and a change of bytes of the block it returned.\<close>

lemma mapped_grown:
  assumes m: "bmap_post s ip bn a t" and wf: "ino_wf s (icache s ! ip)" and bn: "bn < MAXFILE"
  shows "grown s ip t"
proof -
  let ?p = "icache s ! ip" and ?q = "icache t ! ip"
  obtain B where M: "mapped B s ip t" using m by (auto simp: bmap_post_def)
  have k: "keeps ({i_addrs ?p ! NDIRECT} - {0}) s t" by (rule mappedD(8) [OF M])
  have k': "keeps (file_blocks s ?p) s t" using k by (auto simp: keeps_def file_blocks_def)
  have f: "fblk t ?q j = (if j = bn then a else fblk s ?p j)" if "j < MAXFILE" for j
    using m that by (auto simp: bmap_post_def)
  have a: "fblk s ?p bn \<noteq> 0 \<Longrightarrow> fblk s ?p bn = a" "fblk s ?p bn = 0 \<Longrightarrow> \<not> in_use s a" using m by (auto simp: bmap_post_def)
  have i: "i_addrs ?q ! NDIRECT = i_addrs ?p ! NDIRECT \<or> i_addrs ?p ! NDIRECT = 0 \<and> \<not> in_use s (i_addrs ?q ! NDIRECT)"
    using M by (simp add: mapped_def)
  have "\<not> in_use s n" if "n \<in> file_blocks t ?q" "n \<notin> file_blocks s ?p" for n
  proof -
    from that(1) consider j where "n = fblk t ?q j" "j < MAXFILE" "n \<noteq> 0" | "n = i_addrs ?q ! NDIRECT" "n \<noteq> 0"
      by (auto simp: file_blocks_def)
    then show ?thesis
      using that(2) f a i bn by cases (auto simp: file_blocks_def split: if_splits)
  qed
  then show ?thesis
    using k' i f a M unfolding grown_def mapped_def by auto
qed


lemma chunk_range:
  assumes "0 < n" "n \<le> BSIZE - off mod BSIZE"
  shows "off \<le> k \<and> k < off + n \<longleftrightarrow> k div BSIZE = off div BSIZE \<and> off mod BSIZE \<le> k mod BSIZE \<and> k mod BSIZE < off mod BSIZE + n"
proof -
  define q r q' r' where d: "q = off div BSIZE" "r = off mod BSIZE" "q' = k div BSIZE" "r' = k mod BSIZE"
  have e: "off = q * BSIZE + r" "k = q' * BSIZE + r'" "r < BSIZE" "r' < BSIZE" "r + n \<le> BSIZE"
    using assms mod_less_divisor [OF BSIZE_pos, of off] mod_less_divisor [OF BSIZE_pos, of k] by (simp_all add: d)
  have "q' = q" if "off \<le> k" "k < off + n"
  proof (rule ccontr)
    assume "q' \<noteq> q"
    then consider "q' + 1 \<le> q" | "q + 1 \<le> q'" by linarith
    then show False
    proof cases
      case 1
      then have "q' * BSIZE + BSIZE \<le> q * BSIZE" using mult_le_mono1 [of "q' + 1" q BSIZE] by (simp only: add_mult_distrib mult_1)
      then show False using e that by linarith
    next
      case 2
      then have "q * BSIZE + BSIZE \<le> q' * BSIZE" using mult_le_mono1 [of "q + 1" q' BSIZE] by (simp only: add_mult_distrib mult_1)
      then show False using e that by linarith
    qed
  qed
  then show ?thesis unfolding d [symmetric] using e(1,2) by auto
qed


lemma store_grown:
  assumes x: "txr {a} t u" and c: "content u = (content t)(a := d)" and a: "a = fblk t (icache t ! ip) bn" "a \<noteq> 0" "bn < MAXFILE"
    and lay: "fs_layout t" and wf: "ino_wf t (icache t ! ip)"
  shows "grown t ip u" and "fblk u (icache u ! ip) = fblk t (icache t ! ip)" and "free_set u = free_set t"
proof -
  let ?q = "icache t ! ip"
  have F: "sb u = sb t" "icache u = icache t" "disksize u = disksize t" using txr_fs [OF x] txrD(8) [OF x] by auto
  have db: "\<not> map_block t a" using ino_wfD(5) [OF wf a(3)] a by (simp add: data_block_def)
  note k = keeps_change [OF c F(1,3) db]
  have i: "i_addrs ?q ! NDIRECT \<notin> {a}"
    using ino_wfD(4) [OF wf _ a(3)] a by (cases "i_addrs ?q ! NDIRECT = 0") auto
  have f: "fblk u ?q = fblk t ?q" by (rule fblk_keeps [OF k(1) wf i])
  have "keeps (file_blocks t ?q) t u" using k(1) a by (auto simp: keeps_def file_blocks_def)
  moreover have "file_blocks u ?q = file_blocks t ?q" by (simp add: file_blocks_def f)
  ultimately show "grown t ip u"
    using F f keeps_layout [OF k(1) lay] ino_wf_keeps [OF k(1) wf i] by (simp add: grown_def)
  show "fblk u (icache u ! ip) = fblk t ?q" "free_set u = free_set t" using f F k(2) by simp_all
qed

lemma mapped_bytes:
  assumes m: "bmap_post s ip bn a t" and ok: "txok s" and wf: "ino_wf s (icache s ! ip)" and bn: "bn < MAXFILE" and k: "k div BSIZE < MAXFILE"
  shows "fbyte t (icache t ! ip) k = fbyte s (icache s ! ip) k"
proof -
  let ?p = "icache s ! ip" and ?q = "icache t ! ip" and ?b = "k div BSIZE"
  have ks: "keeps ({i_addrs ?p ! NDIRECT} - {0}) s t" using m mappedD(8) by (auto simp: bmap_post_def)
  have same: "content t (fblk s ?p ?b) = content s (fblk s ?p ?b)" if "fblk s ?p ?b \<noteq> 0"
    using keeps_content [OF ks ino_wfD(5) [OF wf k that]] ino_wfD(4) [OF wf _ k] by auto
  show ?thesis
  proof (cases "fblk s ?p ?b = 0 \<and> ?b = bn")
    case True
    then have "fblk t ?q ?b = a" "a \<noteq> 0" "content t a = replicate BSIZE 0" using m by (auto simp: bmap_post_def)
    then show ?thesis using conjunct1 [OF True] by (simp add: fbyte_def)
  next
    case False
    then have "fblk t ?q ?b = fblk s ?p ?b" using m k by (auto simp: bmap_post_def)
    then show ?thesis using same by (simp add: fbyte_def)
  qed
qed

lemma fwrote_chunk:
  assumes m: "bmap_post s ip (off div BSIZE) a t" and x: "txr {a} t u"
    and c: "content u = (content t)(a := splice (off mod BSIZE) xs (content t a))"
    and ok: "txok s" and wf: "ino_wf s (icache s ! ip)" and bn: "off div BSIZE < MAXFILE" and ip: "ip < length (icache s)"
    and xs: "xs \<noteq> []" "length xs \<le> BSIZE - off mod BSIZE"
  shows "\<exists>B. fwrote B s ip off xs u"
proof -
  let ?bn = "off div BSIZE" and ?p = "icache s ! ip" and ?q = "icache t ! ip" and ?r = "icache u ! ip"
  obtain B where B: "mapped B s ip t" "B \<subseteq> ind_set t ?q \<union> (if fblk s ?p ?bn = 0 then {a, BBLOCK a (sb s)} else {})"
    using m by (auto simp: bmap_post_def)
  have a: "a = fblk t ?q ?bn" "a \<noteq> 0" using m by (auto simp: bmap_post_def)
  note M = mappedD [OF B(1)] and G = store_grown [OF x c a bn mappedD(2,3) [OF B(1)]]
  have T: "touch off (length xs) = {?bn}" using touch_chunk xs by simp
  have F: "sb u = sb s" "icache u = icache t" using txr_fs [OF x] M(4) by auto
  have fs: "fsr (B \<union> {a}) s u" by (rule fsr_trans [OF M(1) fsr_txr [OF x]])
  moreover have "grown s ip u" by (rule grown_trans [OF mapped_grown [OF m wf bn] G(1) ip])
  moreover have "B \<union> {a} \<subseteq> cost_set s ?p (touch off (length xs)) u ?r"
  proof -
    have "cost_set s ?p {?bn} u ?r = ind_set t ?q \<union> {a} \<union> (if fblk s ?p ?bn = 0 then {BBLOCK a (sb s)} else {})"
      unfolding cost_set_def G(2) using F M(4) a(1) by (auto simp: ind_set_def)
    then show ?thesis using B(2) unfolding T by (auto split: if_splits)
  qed
  moreover have "fblk u ?r j \<noteq> 0 \<longleftrightarrow> fblk s ?p j \<noteq> 0 \<or> j \<in> touch off (length xs)" if "j < MAXFILE" for j
    using m that unfolding T G(2) by (auto simp: bmap_post_def)
  moreover have "fbyte u ?r k = (if off \<le> k \<and> k < off + length xs then xs ! (k - off) else fbyte s ?p k)"
    if k: "k < MAXFILE * BSIZE" for k
  proof -
    have kb: "k div BSIZE < MAXFILE" using k by (simp add: less_mult_imp_div_less)
    note E = mapped_bytes [OF m ok wf bn kb] and R = chunk_range [of "length xs" off k]
    show ?thesis
    proof (cases "k div BSIZE = ?bn")
      case True
      have len: "length (content t a) = BSIZE" "off mod BSIZE + length xs \<le> BSIZE"
        using M(5) xs(2) mod_less_divisor [OF BSIZE_pos, of off] by (simp, linarith)
      have "fbyte u ?r k = splice (off mod BSIZE) xs (content t a) ! (k mod BSIZE)"
        using True a c by (simp add: fbyte_def G(2))
      also have "\<dots> = (if off \<le> k \<and> k < off + length xs then xs ! (k mod BSIZE - off mod BSIZE) else content t a ! (k mod BSIZE))"
        using len xs True R by (simp add: nth_splice)
      also have "content t a ! (k mod BSIZE) = fbyte s ?p k" using E True a by (simp add: fbyte_def)
      also have "k mod BSIZE - off mod BSIZE = k - off"
        using True by (metis diff_cancel div_mult_mod_eq)
      finally show ?thesis .
    next
      case False
      have "fblk t ?q (k div BSIZE) = a \<Longrightarrow> k div BSIZE = ?bn" using ino_wfD(6) [OF M(3) bn _ kb] a by simp
      then have "fbyte u ?r k = fbyte t ?q k" using False c by (auto simp: fbyte_def G(2))
      then show ?thesis using E R False xs by auto
    qed
  qed
  ultimately show ?thesis unfolding fwrote_def by blast
qed


text \<open>Enough free blocks for the holes to be filled, and one more for the indirect block.\<close>

definition holes :: "'r fs_state_scheme \<Rightarrow> inode \<Rightarrow> nat \<Rightarrow> nat \<Rightarrow> nat set" where
  "holes s p off n = {bn \<in> touch off n. fblk s p bn = 0}"

definition enough_free :: "'r fs_state_scheme \<Rightarrow> inode \<Rightarrow> nat \<Rightarrow> nat \<Rightarrow> bool" where
  "enough_free s p off n \<longleftrightarrow> holes s p off n = {} \<or>
     card (holes s p off n) + (if i_addrs p ! NDIRECT = 0 then 1 else 0) + 1 \<le> card (free_set s)"

definition write_cost :: "'r fs_state_scheme \<Rightarrow> inode \<Rightarrow> nat \<Rightarrow> nat \<Rightarrow> nat" where
  "write_cost s p off n = 2 + card (touch off n) + card (holes s p off n)"

lemma holes_finite [simp]: "finite (holes s p off n)"
  by (simp add: holes_def)

lemma write_cost_mono: "m \<le> n \<Longrightarrow> write_cost s p off m \<le> write_cost s p off n"
proof -
  assume "m \<le> n"
  then have "touch off m \<subseteq> touch off n" unfolding touch_def by (intro image_mono) auto
  moreover from this have "holes s p off m \<subseteq> holes s p off n" by (auto simp: holes_def)
  ultimately show ?thesis by (simp add: write_cost_def add_mono card_mono)
qed

lemma fwrote_card: "fwrote B s ip off xs t \<Longrightarrow> card B \<le> write_cost s (icache s ! ip) off (length xs)"
proof -
  assume "fwrote B s ip off xs t"
  then have "card B \<le> card (cost_set s (icache s ! ip) (touch off (length xs)) t (icache t ! ip))"
    using fwroteD(3) by (intro card_mono) simp_all
  then show ?thesis using cost_set_card [of "touch off (length xs)" s "icache s ! ip" t "icache t ! ip"]
    by (simp add: write_cost_def holes_def)
qed

lemma fwrote_avail:
  assumes "fwrote B s ip off xs t" "length xs \<le> n"
  shows "avail s - int (write_cost s (icache s ! ip) off n) \<le> avail t"
  using fwrote_card [OF assms(1)] write_cost_mono [OF assms(2), of s "icache s ! ip" off] fsr_avail [OF fwroteD(1) [OF assms(1)]] by simp

lemma bmap_avail: "bmap_post s ip bn a t \<Longrightarrow> avail s - 4 \<le> avail t"
proof -
  assume "bmap_post s ip bn a t"
  then obtain B where B: "mapped B s ip t" "B \<subseteq> ind_set t (icache t ! ip) \<union> {a, BBLOCK a (sb s)}"
    by (auto simp: bmap_post_def split: if_splits)
  have "card B \<le> card (ind_set t (icache t ! ip) \<union> {a, BBLOCK a (sb s)})"
    by (rule card_mono [OF _ B(2)]) (simp add: ind_set_def)
  also have "\<dots> \<le> 2 + 2" by (rule order_trans [OF card_Un_le add_mono]) (auto simp: ind_set_def card_insert_if)
  finally show ?thesis using fsr_avail [OF mappedD(1) [OF B(1)]] by simp
qed

lemma enough_free_step:
  assumes b: "bmap_free s ip (off div BSIZE) a t" and fr: "enough_free s (icache s ! ip) off (m + n)"
    and v: "fblk v (icache v ! ip) = fblk t (icache t ! ip)" "free_set v = free_set t" "icache v = icache t"
    and bn: "off div BSIZE \<in> touch off (m + n)" and max: "off + m + n \<le> MAXFILE * BSIZE"
  shows "enough_free v (icache v ! ip) (off + m) n"
proof -
  let ?p = "icache s ! ip" and ?H = "holes s (icache s ! ip) off (m + n)" and ?H' = "holes v (icache v ! ip) (off + m) n"
  let ?bn = "off div BSIZE"
  have a: "a \<noteq> 0" using b by (simp add: bmap_free_def bmap_post_def)
  have f: "fblk v (icache v ! ip) j = (if j = ?bn then a else fblk s ?p j)" if "j \<in> touch off (m + n)" for j
    using b touch_less [OF _ that] max v(1) by (auto simp: bmap_free_def bmap_post_def add.assoc)
  have sub: "?H' \<subseteq> ?H - {?bn}" using f a by (auto simp: holes_def touch_split split: if_splits)
  have free: "card (free_set s) \<le> card (free_set v) + (if ?bn \<in> ?H then 1 else 0) + (if new_ind s t ip then 1 else 0)"
    using b v(2) bn by (simp add: bmap_free_def holes_def)
  have "card ?H' \<le> card (?H - {?bn})" by (rule card_mono [OF _ sub]) simp
  then have c: "card ?H' + (if ?bn \<in> ?H then 1 else 0) \<le> card ?H"
    using card_Suc_Diff1 [of ?H ?bn] by (auto split: if_splits)
  obtain B where M: "mapped B s ip t" using b by (auto simp: bmap_free_def bmap_post_def)
  have "(if i_addrs (icache v ! ip) ! NDIRECT = 0 then 1 else 0) + (if new_ind s t ip then 1 else 0) = (if i_addrs ?p ! NDIRECT = 0 then 1 else (0::nat))"
    using M v(3) by (auto simp: new_ind_def mapped_def)
  then show ?thesis using free c fr sub by (auto simp: enough_free_def split: if_splits)
qed


lemma enough_free_two:
  assumes "bn \<in> touch off n" "fblk s p bn = 0" "enough_free s p off n"
  shows "2 \<le> card (free_set s)"
proof -
  have "bn \<in> holes s p off n" using assms by (simp add: holes_def)
  then have "0 < card (holes s p off n)" by (auto simp: card_gt_0_iff)
  then show ?thesis using assms(3) by (auto simp: enough_free_def)
qed

lemma wp_change_block:
  assumes ok: "txok s" "0 < avail s" "locked_bufs s = {}" "a < disksize s" and len: "length (g (content s a)) = BSIZE"
    and nxt: "\<And>t. txr {a} s t \<Longrightarrow> content t = (content s)(a := g (content s a)) \<Longrightarrow> wp f Q t"
  shows "wp (kbind (bread 1 a) (\<lambda>bp. kbind (upd_buf bp (\<lambda>x. x\<lparr>b_data := g (b_data x)\<rparr>)) (\<lambda>_. kbind (log_write bp) (\<lambda>_.
    kbind (brelse bp) (\<lambda>_. f))))) Q s"
proof (rule wp_bread)
  show "txok s" "0 \<le> avail s" "card (locked_bufs s) \<le> 1" "a < disksize s" "a \<notin> held_blocks s"
    using ok by (auto simp: held_blocks_def)
  fix bp u assume h: "holding_block {} a bp s u" and c: "content u = content s"
  show "wp (kbind (upd_buf bp (\<lambda>x. x\<lparr>b_data := g (b_data x)\<rparr>)) (\<lambda>_. kbind (log_write bp) (\<lambda>_. kbind (brelse bp) (\<lambda>_. f)))) Q u"
  proof (rule wp_change_log [OF h])
    show "length (g (content u a)) = BSIZE" "0 < avail u" using len c ok(2) holding_avail [OF h] by auto
    fix v assume h': "holding_block (insert a {}) a bp s v" and c': "content v = (content u)(a := g (content u a))"
    show "wp (kbind (brelse bp) (\<lambda>_. f)) Q v"
      by (rule wp_brelse [OF h']) (use nxt c c' in simp)
  qed
qed

lemma writei_loop_ok:
  fixes s :: "'r fs_state_scheme"
  assumes "fwrote B s ip off xs t" "locked_bufs s = {}" "ip < length (icache s)" "off + length xs + length ys \<le> MAXFILE * BSIZE"
    "int (write_cost s (icache s ! ip) off (length xs + length ys)) + 5 \<le> avail s"
    "enough_free t (icache t ! ip) (off + length xs) (length ys)"
  shows "wp (writei_loop ip (off + length xs) ys) (\<lambda>_ u. \<exists>C. fwrote C s ip off (xs @ ys) u) t"
  using assms
proof (induction ys arbitrary: xs t B rule: length_induct)
  case (1 ys xs t B)
  note P = 1(2-)
  let ?off = "off + length xs" and ?Q = "\<lambda>_ u. \<exists>C. fwrote C s ip off (xs @ ys) u"
  let ?bn = "?off div BSIZE" and ?m = "min (length ys) (BSIZE - ?off mod BSIZE)" and ?q = "icache t ! ip"
  show ?case
  proof (cases "ys = []")
    case True
    then show ?thesis using P(1) by (subst writei_loop.simps) (auto simp: wp_kreturn)
  next
    case False
    have m: "0 < ?m" "?m \<le> length ys" "length (take ?m ys) = ?m" using False mod_less_divisor [OF BSIZE_pos, of ?off] by auto
    have tk: "take ?m ys \<noteq> []" "length (take ?m ys) \<le> BSIZE - ?off mod BSIZE" "?m + (length ys - ?m) = length ys" using m by auto
    note W = fwroteD [OF P(1)] and G = grownD [OF fwroteD(2) [OF P(1)]]
    have bt: "?bn \<in> touch ?off (length ys)" unfolding touch_def using False by (intro image_eqI [of _ _ ?off]) auto
    have bn: "?bn < MAXFILE" by (rule touch_less [OF P(4) bt])
    have av: "5 \<le> avail t" using fwrote_avail [OF P(1), of "length xs + length ys"] P(5) by simp
    have t: "txok t" "0 \<le> avail t" "locked_bufs t = {}" "ip < length (icache t)"
      using fsrD(1,3) [OF W(1)] P(2,3) av G(5) by auto
    have room: "fblk t ?q ?bn = 0 \<Longrightarrow> 5 \<le> avail t \<and> 2 \<le> card (free_set t)"
      using av enough_free_two [OF bt _ P(6)] by blast
    have rest: "wp (writei_loop ip (?off + ?m) (drop ?m ys)) ?Q v"
      if b: "bmap_free t ip ?bn a u" and x: "txr {a} u v" and c: "content v = (content u)(a := splice (?off mod BSIZE) (take ?m ys) (content u a))" for a u v
    proof -
      have bp: "bmap_post t ip ?bn a u" using b by (simp add: bmap_free_def)
      then have a: "a = fblk u (icache u ! ip) ?bn" "a \<noteq> 0" by (auto simp: bmap_post_def)
      obtain C where "fwrote C t ip ?off (take ?m ys) v"
        using fwrote_chunk [OF bp x c t(1) G(2) bn t(4) tk(1,2)] by blast
      then have w: "fwrote (B \<union> C) s ip off (xs @ take ?m ys) v"
        by (rule fwrote_trans [OF P(1) _ P(3)]) (use P(4) in simp)
      note SG = store_grown [OF x c a bn grownD(1,2) [OF mapped_grown [OF bp G(2) bn]]]
      have ef: "enough_free v (icache v ! ip) (?off + ?m) (length ys - ?m)"
        by (rule enough_free_step [OF b _ SG(2,3) txr_fs(2) [OF x]]) (use P(4,6) bt m in \<open>simp_all only: tk(3), auto\<close>)
      have "wp (writei_loop ip (off + length (xs @ take ?m ys)) (drop ?m ys)) (\<lambda>_ u. \<exists>C. fwrote C s ip off ((xs @ take ?m ys) @ drop ?m ys) u) v"
        by (rule 1(1) [rule_format, OF _ w P(2,3)]) (use False P(4,5) ef in \<open>simp_all add: add.assoc\<close>)
      then show ?thesis using m(3) by (simp add: add.assoc)
    qed
    have "wp (kbind (bmap ip ?bn) (\<lambda>addr. kbind (get_ino ip i_dev) (\<lambda>dev. kbind (bread dev addr) (\<lambda>bp.
        kbind (upd_buf bp (\<lambda>f. f\<lparr>b_data := splice (?off mod BSIZE) (take ?m ys) (b_data f)\<rparr>)) (\<lambda>_. kbind (log_write bp) (\<lambda>_.
        kbind (brelse bp) (\<lambda>_. writei_loop ip (?off + ?m) (drop ?m ys)))))))) ?Q t"
      unfolding wp_kbind [of "bmap ip ?bn"]
    proof (rule wp_mono [OF bmap_ok [OF t(1-3) G(1) t(4) G(2) bn room]])
      fix a u assume b: "bmap_free t ip ?bn a u"
      then have bp: "bmap_post t ip ?bn a u" by (simp add: bmap_free_def)
      then obtain D where M: "mapped D t ip u" and a: "a = fblk u (icache u ! ip) ?bn" "a \<noteq> 0" by (auto simp: bmap_post_def)
      note M' = mappedD [OF M]
      have dsk: "a < disksize u" using fblk_disk [OF M'(2,3) bn] a by simp
      have len: "length (splice (?off mod BSIZE) (take ?m ys) (content u a)) = BSIZE"
        by (rule chunk_splice [OF txok_length [OF M'(5)] tk(2)])
      show "wp (kbind (get_ino ip i_dev) (\<lambda>dev. kbind (bread dev a) (\<lambda>bp.
        kbind (upd_buf bp (\<lambda>f. f\<lparr>b_data := splice (?off mod BSIZE) (take ?m ys) (b_data f)\<rparr>)) (\<lambda>_. kbind (log_write bp) (\<lambda>_.
        kbind (brelse bp) (\<lambda>_. writei_loop ip (?off + ?m) (drop ?m ys))))))) ?Q u"
        unfolding wp_kbind [of "get_ino ip i_dev"] wp_get_ino ino_wfD(2) [OF M'(3)]
        by (rule wp_change_block) (use M'(5,6) t av bmap_avail [OF bp] dsk len rest [OF b] in auto)
    qed
    then show ?thesis using False by (subst writei_loop.simps) (simp add: Let_def)
  qed
qed


section \<open>iupdate\<close>

lemma wp_store_block:
  assumes ok: "txok s" "0 < avail s" "locked_bufs s = {}" "a < disksize s" and len: "length (g (content s a)) = BSIZE"
    and Q: "\<And>t. txr {a} s t \<Longrightarrow> content t = (content s)(a := g (content s a)) \<Longrightarrow> Q () t"
  shows "wp (kbind (bread 1 a) (\<lambda>bp. kbind (get_buf bp b_data) (\<lambda>d. kbind (upd_buf bp (\<lambda>x. x\<lparr>b_data := g d\<rparr>)) (\<lambda>_.
    kbind (log_write bp) (\<lambda>_. brelse bp))))) Q s"
proof (rule wp_bread)
  show "txok s" "0 \<le> avail s" "card (locked_bufs s) \<le> 1" "a < disksize s" "a \<notin> held_blocks s"
    using ok by (auto simp: held_blocks_def)
  fix bp u assume h: "holding_block {} a bp s u" and c: "content u = content s"
  have "wp (kbind (upd_buf bp (\<lambda>x. x\<lparr>b_data := g (content s a)\<rparr>)) (\<lambda>_. kbind (log_write bp) (\<lambda>_. brelse bp))) Q u"
  proof (rule wp_store_log [OF h len])
    show "0 < avail u" using ok(2) holding_avail [OF h] by simp
    fix v assume h': "holding_block (insert a {}) a bp s v" and c': "content v = (content u)(a := g (content s a))"
    show "wp (brelse bp) Q v" by (rule wp_brelse_last [OF h']) (use Q c c' in simp)
  qed
  then show "wp (kbind (get_buf bp b_data) (\<lambda>d. kbind (upd_buf bp (\<lambda>x. x\<lparr>b_data := g d\<rparr>)) (\<lambda>_. kbind (log_write bp) (\<lambda>_. brelse bp)))) Q u"
    using holding_data [OF h] c by (simp add: wp_kbind [of "get_buf bp g" for g] upd_get_buf_wp(3))
qed

lemma iupdate_ok:
  assumes ok: "txok s" "0 < avail s" "locked_bufs s = {}" and p: "i_dev (icache s ! ip) = 1" "length (i_addrs (icache s ! ip)) = NDIRECT + 1"
    and ib: "IBLOCK (i_inum (icache s ! ip)) (sb s) < disksize s"
  shows "wp (iupdate ip) (\<lambda>_ t. txr {IBLOCK (i_inum (icache s ! ip)) (sb s)} s t \<and>
     content t = (content s)(IBLOCK (i_inum (icache s ! ip)) (sb s) :=
       put_dinode (i_inum (icache s ! ip)) (dinode_of (icache s ! ip)) (content s (IBLOCK (i_inum (icache s ! ip)) (sb s))))) s"
proof -
  have len: "length (put_dinode (i_inum (icache s ! ip)) (dinode_of (icache s ! ip)) (content s (IBLOCK (i_inum (icache s ! ip)) (sb s)))) = BSIZE"
    using p(2) ok(1) by (intro length_put_dinode) (simp_all add: dinode_of_def)
  show ?thesis
    unfolding iupdate_def using p(1) wp_store_block [OF ok ib, of "put_dinode (i_inum (icache s ! ip)) (dinode_of (icache s ! ip))", OF len]
    by (simp add: wp_kbind [of "kget g" for g] wp_kget)
qed

section \<open>A file that can be read and written\<close>

definition file_ready :: "'r fs_state_scheme \<Rightarrow> nat \<Rightarrow> bool" where
  "file_ready s ip \<longleftrightarrow> txok s \<and> 0 < avail s \<and> locked_bufs s = {} \<and> fs_layout s \<and> ip < length (icache s) \<and> ino_wf s (icache s ! ip) \<and>
     i_inum (icache s ! ip) < sb_ninodes (sb s) \<and> i_type (icache s ! ip) \<noteq> T_DEV \<and> i_size (icache s ! ip) \<le> MAXFILE * BSIZE"

text \<open>What one write has done.\<close>

definition inodes_kept :: "nat \<Rightarrow> 'r fs_state_scheme \<Rightarrow> 'r fs_state_scheme \<Rightarrow> bool" where
  "inodes_kept i s t \<longleftrightarrow> (\<forall>j < sb_ninodes (sb s). j \<noteq> i \<longrightarrow>
     get_dinode (content t (IBLOCK j (sb s))) j = get_dinode (content s (IBLOCK j (sb s))) j)"

definition written :: "nat set \<Rightarrow> 'r fs_state_scheme \<Rightarrow> nat \<Rightarrow> nat \<Rightarrow> byte list \<Rightarrow> 'r fs_state_scheme \<Rightarrow> bool" where
  "written B s ip off src t \<longleftrightarrow> fsr B s t \<and> card B \<le> write_cost s (icache s ! ip) off (length src) + 1 \<and>
     fs_layout t \<and> ino_wf t (icache t ! ip) \<and>
     icache t = (icache s)[ip := (icache s ! ip)\<lparr>i_addrs := i_addrs (icache t ! ip), i_size := i_size (icache t ! ip)\<rparr>] \<and>
     i_size (icache t ! ip) = (if src = [] then i_size (icache s ! ip) else max (i_size (icache s ! ip)) (off + length src)) \<and>
     keeps (insert (IBLOCK (i_inum (icache s ! ip)) (sb s)) (file_blocks s (icache s ! ip))) s t \<and>
     inodes_kept (i_inum (icache s ! ip)) s t \<and>
     (\<forall>bn < MAXFILE. fblk t (icache t ! ip) bn \<noteq> 0 \<longleftrightarrow> fblk s (icache s ! ip) bn \<noteq> 0 \<or> bn \<in> touch off (length src)) \<and>
     (\<forall>k < MAXFILE * BSIZE. fbyte t (icache t ! ip) k =
        (if off \<le> k \<and> k < off + length src then src ! (k - off) else fbyte s (icache s ! ip) k))"

lemma IBLOCK_not_data: "data_block s n \<Longrightarrow> i < sb_ninodes (sb s) \<Longrightarrow> n \<noteq> IBLOCK i (sb s)"
  by (auto simp: data_block_def)

lemma file_blocks_data: "ino_wf s p \<Longrightarrow> n \<in> file_blocks s p \<Longrightarrow> data_block s n"
  using ino_wfD(3,5) [of s p] by (auto simp: file_blocks_def)

lemma grown_inodes:
  assumes g: "grown s ip t" and lay: "fs_layout s" and wf: "ino_wf s (icache s ! ip)"
  shows "inodes_kept i s t"
proof -
  have "content t (IBLOCK j (sb s)) = content s (IBLOCK j (sb s))" if "j < sb_ninodes (sb s)" for j
  proof (rule keepsD(5) [OF grownD(6) [OF g]])
    show "IBLOCK j (sb s) < sb_size (sb s)" "in_use s (IBLOCK j (sb s))" "\<not> map_block s (IBLOCK j (sb s))"
      using lay that by (auto simp: fs_layout_def)
    show "IBLOCK j (sb s) \<notin> file_blocks s (icache s ! ip)"
      using file_blocks_data [OF wf] IBLOCK_not_data [OF _ that] by blast
  qed
  then show ?thesis by (simp add: inodes_kept_def)
qed


lemma grown_icache: "grown s ip t \<Longrightarrow> icache t = (icache s)[ip := (icache s ! ip)\<lparr>i_addrs := i_addrs (icache t ! ip)\<rparr>]"
  unfolding grown_def by blast

lemma grown_fields:
  assumes "grown s ip t" "ip < length (icache s)"
  shows "i_size (icache t ! ip) = i_size (icache s ! ip)" "i_inum (icache t ! ip) = i_inum (icache s ! ip)" "i_type (icache t ! ip) = i_type (icache s ! ip)"
proof -
  have "icache t ! ip = (icache s ! ip)\<lparr>i_addrs := i_addrs (icache t ! ip)\<rparr>"
    using arg_cong [OF grown_icache [OF assms(1)], of "\<lambda>c. c ! ip"] assms(2) by simp
  then show "i_size (icache t ! ip) = i_size (icache s ! ip)" "i_inum (icache t ! ip) = i_inum (icache s ! ip)" "i_type (icache t ! ip) = i_type (icache s ! ip)"
    by (metis inode.simps inode.ext_inject inode.surjective inode.update_convs(11))+
qed

lemma ino_wf_fblk: "keeps X s t \<Longrightarrow> fblk t p = fblk s p \<Longrightarrow> ino_wf s p \<Longrightarrow> ino_wf t p"
  unfolding ino_wf_def using keeps_data_block [of X s t] by simp

lemma fblk_addrs: "i_addrs p = i_addrs q \<Longrightarrow> fblk s p = fblk s q"
  by (simp add: fblk_def fun_eq_iff)

lemma ino_wf_addrs: "i_addrs p = i_addrs q \<Longrightarrow> i_dev p = i_dev q \<Longrightarrow> ino_wf s p = ino_wf s q"
  by (simp add: ino_wf_def fblk_def)

lemma put_inode_kept:
  assumes "content t = (content u)(IBLOCK i (sb s) := put_dinode i di (content u (IBLOCK i (sb s))))" "txok u" "length (di_addrs di) = NDIRECT + 1"
    and k: "inodes_kept i s u"
  shows "inodes_kept i s t"
proof -
  have "get_dinode (content t (IBLOCK j (sb s))) j = get_dinode (content u (IBLOCK j (sb s))) j" if "j \<noteq> i" for j
  proof (cases "IBLOCK j (sb s) = IBLOCK i (sb s)")
    case True
    then have "i mod IPB \<noteq> j mod IPB" using that by (metis IBLOCK_def add_right_cancel div_mult_mod_eq)
    then show ?thesis using True assms(1,3) txok_length [OF assms(2)] by (simp add: get_put_other)
  qed (simp add: assms(1))
  then show ?thesis using k by (simp add: inodes_kept_def)
qed

lemma size_upd_trans:
  assumes "c' = c[ip := (c ! ip)\<lparr>i_addrs := a\<rparr>]" "c'' = c'[ip := (c' ! ip)\<lparr>i_size := n\<rparr>]" "ip < length c"
  shows "c'' = c[ip := (c ! ip)\<lparr>i_addrs := a, i_size := n\<rparr>]"
  using assms by simp

lemma written_loop:
  assumes w: "fwrote B s ip off src t" and sz: "src = [] \<or> off + length src \<le> i_size (icache s ! ip)"
    and r: "ip < length (icache s)" "fs_layout s" "ino_wf s (icache s ! ip)"
  shows "written B s ip off src t"
proof -
  note W = fwroteD [OF w] and F = grown_fields [OF fwroteD(2) [OF w] r(1)] and G = grownD [OF fwroteD(2) [OF w]]
  have "icache t = (icache s)[ip := (icache s ! ip)\<lparr>i_addrs := i_addrs (icache t ! ip), i_size := i_size (icache t ! ip)\<rparr>]"
    using grown_icache [OF W(2)] unfolding F(1) by simp
  moreover have "keeps (insert (IBLOCK (i_inum (icache s ! ip)) (sb s)) (file_blocks s (icache s ! ip))) s t"
    using G(6) by (simp add: keeps_def)
  moreover have "i_size (icache t ! ip) = (if src = [] then i_size (icache s ! ip) else max (i_size (icache s ! ip)) (off + length src))"
    using F(1) sz by auto
  ultimately show ?thesis
    unfolding written_def using W fwrote_card [OF w] grown_inodes [OF W(2) r(2,3)] G(1,2) by (intro conjI) auto
qed

lemma written_grow:
  fixes u :: "'r fs_state_scheme"
  assumes w: "fwrote B s ip off src u" and sz: "src \<noteq> []" "i_size (icache s ! ip) < off + length src"
    and r: "ip < length (icache s)" "fs_layout s" "ino_wf s (icache s ! ip)" "i_inum (icache s ! ip) < sb_ninodes (sb s)"
    and u1: "u1 = u\<lparr>icache := (icache u)[ip := (icache u ! ip)\<lparr>i_size := off + length src\<rparr>]\<rparr>"
    and x: "txr {IBLOCK (i_inum (icache s ! ip)) (sb s)} u1 t"
    and c: "content t = (content u1)(IBLOCK (i_inum (icache s ! ip)) (sb s) :=
       put_dinode (i_inum (icache s ! ip)) di (content u1 (IBLOCK (i_inum (icache s ! ip)) (sb s))))" "length (di_addrs di) = NDIRECT + 1"
  shows "written (B \<union> {IBLOCK (i_inum (icache s ! ip)) (sb s)}) s ip off src t"
proof -
  let ?I = "IBLOCK (i_inum (icache s ! ip)) (sb s)" and ?p = "icache s ! ip" and ?q = "icache u ! ip" and ?r = "icache t ! ip"
  note W = fwroteD [OF w] and F = grown_fields [OF fwroteD(2) [OF w] r(1)] and G = grownD [OF fwroteD(2) [OF w]]
  have ic: "icache t = (icache u)[ip := ?q\<lparr>i_size := off + length src\<rparr>]" "sb t = sb s" "disksize t = disksize s"
    using txr_fs [OF x] txrD(8) [OF x] u1 G(3,4) by auto
  have rr: "?r = ?q\<lparr>i_size := off + length src\<rparr>" using ic(1) r(1) G(5) by simp
  have ct: "content t = (content u)(?I := put_dinode (i_inum ?p) di (content u ?I))" using c(1) u1 by simp
  have fs: "fsr (B \<union> {?I}) s t"
    using fsr_trans [OF fsr_trans [OF W(1) fsr_upd [OF fsrD(1) [OF W(1)]]] fsr_txr [OF x [unfolded u1]]] by simp
  have nd: "\<not> map_block u ?I" "?I \<notin> file_blocks u ?q"
    using r(4) G(1,3) file_blocks_data [OF G(2)] IBLOCK_not_data [of u _ "i_inum ?p"] by (auto simp: fs_layout_def)
  have k: "keeps {?I} u t" by (rule keeps_change(1) [OF ct _ _ nd(1)]) (use ic G(3,4) in simp_all)
  have i: "i_addrs ?q ! NDIRECT \<noteq> 0 \<Longrightarrow> i_addrs ?q ! NDIRECT \<notin> {?I}" using nd(2) by (auto simp: file_blocks_def)
  have fq: "fblk t ?q = fblk u ?q"
    using fblk_keeps [OF k G(2) i] by (cases "i_addrs ?q ! NDIRECT = 0") (simp_all add: fblk_def fun_eq_iff)
  then have f: "fblk t ?r = fblk u ?q" by (simp add: rr fblk_addrs [of "?q\<lparr>i_size := off + length src\<rparr>" ?q])
  have "ino_wf t ?r" using ino_wf_fblk [OF k fq G(2)] by (simp add: rr ino_wf_addrs [of "?q\<lparr>i_size := off + length src\<rparr>" ?q])
  moreover have "keeps (insert ?I (file_blocks s ?p)) s t" using keeps_trans [OF G(6) k] by simp
  moreover have "inodes_kept (i_inum ?p) s t"
    by (rule put_inode_kept [OF ct fsrD(1) [OF W(1)] c(2) grown_inodes [OF W(2) r(2,3)]])
  moreover have "fbyte t ?r n = fbyte u ?q n" if "n < MAXFILE * BSIZE" for n
  proof -
    have "fblk u ?q (n div BSIZE) \<noteq> 0 \<Longrightarrow> fblk u ?q (n div BSIZE) \<noteq> ?I"
      using nd(2) less_mult_imp_div_less [OF that] by (auto simp: file_blocks_def)
    then show ?thesis by (simp add: fbyte_def f ct)
  qed
  moreover have "card (B \<union> {?I}) \<le> write_cost s ?p off (length src) + 1"
    using fwrote_card [OF w] card_Un_le [of B "{?I}"] by simp
  moreover have "icache t = (icache s)[ip := ?p\<lparr>i_addrs := i_addrs ?r, i_size := i_size ?r\<rparr>]"
    using size_upd_trans [OF grown_icache [OF W(2)] ic(1) r(1)] r(1) by simp
  moreover have "i_size ?r = (if src = [] then i_size ?p else max (i_size ?p) (off + length src))" using sz by (simp add: rr)
  ultimately show ?thesis
    unfolding written_def f using fs W(4,5) keeps_layout [OF k G(1)] by (intro conjI) (assumption | simp)+
qed


lemma file_readyD:
  assumes "file_ready s ip"
  shows "txok s" "0 < avail s" "locked_bufs s = {}" "fs_layout s" "ip < length (icache s)" "ino_wf s (icache s ! ip)"
    "i_inum (icache s ! ip) < sb_ninodes (sb s)" "i_type (icache s ! ip) \<noteq> T_DEV" "i_size (icache s ! ip) \<le> MAXFILE * BSIZE"
  using assms by (simp_all add: file_ready_def)

lemma MAXFILE_size: "n \<le> MAXFILE * BSIZE \<Longrightarrow> n < 2 ^ 31"
  by (simp add: MAXFILE_def NDIRECT_def NINDIRECT_def BSIZE_def)

lemma writei_grow_ok:
  fixes s :: "'r fs_state_scheme"
  assumes w: "fwrote B s ip off src u" and r: "file_ready s ip" and sz: "src \<noteq> []" "i_size (icache s ! ip) < off + length src"
    and av: "0 < avail u"
  shows "wp (kbind (upd_ino ip (\<lambda>p. p\<lparr>i_size := off + length src\<rparr>)) (\<lambda>_. iupdate ip)) (\<lambda>_ t. \<exists>B. written B s ip off src t) u"
proof -
  define u1 where "u1 = u\<lparr>icache := (icache u)[ip := (icache u ! ip)\<lparr>i_size := off + length src\<rparr>]\<rparr>"
  note R = file_readyD [OF r] and W = fwroteD [OF w] and G = grownD [OF fwroteD(2) [OF w]]
  have ip: "ip < length (icache u)" using R(5) G(5) by simp
  have q: "icache u1 ! ip = (icache u ! ip)\<lparr>i_size := off + length src\<rparr>" and u1: "sb u1 = sb s" "disksize u1 = disksize u" "txok u1" "0 < avail u1" "locked_bufs u1 = {}"
    using ip G(3) fsrD(1,3) [OF W(1)] R(3) av by (simp_all add: u1_def)
  have inum: "i_inum (icache u1 ! ip) = i_inum (icache s ! ip)" using q grown_fields(2) [OF W(2) R(5)] by simp
  have ib: "IBLOCK (i_inum (icache u1 ! ip)) (sb u1) < disksize u1"
    using R(7) G(1,3) u1 by (auto simp: inum fs_layout_def fs_geom_def)
  have "wp (iupdate ip) (\<lambda>_ t. \<exists>B. written B s ip off src t) u1"
  proof (rule wp_mono [OF iupdate_ok [OF u1(3-5) _ _ ib]], goal_cases)
    case (3 a t)
    have len: "length (di_addrs (dinode_of (icache u1 ! ip))) = NDIRECT + 1" using ino_wfD(1) [OF G(2)] by (simp add: dinode_of_def q)
    from 3 show ?case using written_grow [OF w sz R(5,4,6,7) u1_def _ _ len] unfolding inum u1(1) by blast
  qed (use q ino_wfD(1,2) [OF G(2)] in simp_all)
  then show ?thesis by (simp add: wp_kbind wp_upd_ino u1_def)
qed

lemma writei_ok:
  fixes s :: "'r fs_state_scheme"
  assumes r: "file_ready s ip" and off: "off \<le> i_size (icache s ! ip)" "off + length src \<le> MAXFILE * BSIZE"
    and free: "enough_free s (icache s ! ip) off (length src)" and av: "int (write_cost s (icache s ! ip) off (length src)) + 5 \<le> avail s"
  shows "wp (writei devsw ip src off) (\<lambda>v t. v = int (length src) \<and> (\<exists>B. written B s ip off src t)) s"
proof -
  note R = file_readyD [OF r]
  let ?p = "icache s ! ip" and ?n = "length src"
  have guard: "\<not> (i_size ?p < off \<or> (off + ?n) mod 2 ^ 32 < off)" "\<not> MAXFILE * BSIZE < off + ?n" "s32 (int ?n) = int ?n"
    using off MAXFILE_size [OF off(2)] by (auto simp: s32_small)
  have "wp (writei_loop ip off src) (\<lambda>_ u. \<exists>C. fwrote C s ip off src u) s"
    using writei_loop_ok [OF fwrote_Nil [OF R(1,4,6)] R(3,5), of off src] off(2) free av by simp
  then have "wp (kbind (writei_loop ip off src) (\<lambda>_. kbind (get_ino ip i_size) (\<lambda>sz.
      kbind (if 0 < ?n \<and> sz < off + ?n then kbind (upd_ino ip (\<lambda>p. p\<lparr>i_size := off + ?n\<rparr>)) (\<lambda>_. iupdate ip) else kreturn ()) (\<lambda>_. kreturn (int ?n)))))
    (\<lambda>v t. v = int ?n \<and> (\<exists>B. written B s ip off src t)) s"
  proof (rule wp_seq, elim exE)
    fix a u B assume w: "fwrote B s ip off src u"
    have sz: "i_size (icache u ! ip) = i_size ?p" by (rule grown_fields(1) [OF fwroteD(2) [OF w] R(5)])
    have avu: "0 < avail u" using fwrote_avail [OF w order_refl] av by simp
    show "wp (kbind (get_ino ip i_size) (\<lambda>sz. kbind (if 0 < ?n \<and> sz < off + ?n then
        kbind (upd_ino ip (\<lambda>p. p\<lparr>i_size := off + ?n\<rparr>)) (\<lambda>_. iupdate ip) else kreturn ()) (\<lambda>_. kreturn (int ?n))))
      (\<lambda>v t. v = int ?n \<and> (\<exists>B. written B s ip off src t)) u"
    proof (cases "0 < ?n \<and> i_size ?p < off + ?n")
      case True
      then have "wp (kbind (upd_ino ip (\<lambda>p. p\<lparr>i_size := off + ?n\<rparr>)) (\<lambda>_. iupdate ip)) (\<lambda>_ t. \<exists>B. written B s ip off src t) u"
        using writei_grow_ok [OF w r _ _ avu] by simp
      then have "wp (kbind (kbind (upd_ino ip (\<lambda>p. p\<lparr>i_size := off + ?n\<rparr>)) (\<lambda>_. iupdate ip)) (\<lambda>_. kreturn (int ?n)))
          (\<lambda>v t. v = int ?n \<and> (\<exists>B. written B s ip off src t)) u"
        by (rule wp_seq) (simp add: wp_kreturn)
      then show ?thesis using True by (simp add: wp_kbind [of "get_ino ip i_size"] wp_get_ino sz)
    next
      case False
      then have "written B s ip off src u" using written_loop [OF w _ R(5,4,6)] by auto
      then show ?thesis using False by (auto simp: wp_kbind wp_get_ino sz wp_kreturn)
    qed
  qed
  then show ?thesis
    unfolding writei_def using guard R(8) by (simp add: Let_def wp_kbind [of "get_ino ip g" for g] wp_get_ino)
qed

lemma readi_ok:
  fixes s :: "'r fs_state_scheme"
  assumes r: "file_ready s ip" and off: "off \<le> i_size (icache s ! ip)" "off + n < 2 ^ 32"
    and full: "no_holes s (icache s ! ip) off (min n (i_size (icache s ! ip) - off))"
  shows "wp (readi devsw ip off n) (\<lambda>v t. v = (int (min n (i_size (icache s ! ip) - off)), fbytes s (icache s ! ip) off (min n (i_size (icache s ! ip) - off))) \<and> same s t) s"
proof -
  note R = file_readyD [OF r]
  let ?p = "icache s ! ip"
  let ?n = "min n (i_size ?p - off)"
  have n: "(if i_size ?p < off + n then i_size ?p - off else n) = ?n" using off(1) by auto
  have max: "off + ?n \<le> MAXFILE * BSIZE" using R(9) off(1) by auto
  have s32: "s32 (int ?n) = int ?n" using MAXFILE_size [of ?n] max by (intro s32_small) auto
  have "wp (readi_loop ip off ?n) (\<lambda>bs t. bs = fbytes s ?p off ?n \<and> same s t) s"
    by (rule readi_loop_ok) (use R max full in auto)
  then show ?thesis
    unfolding readi_def using off R(8) by (auto simp: Let_def n s32 wp_kbind wp_get_ino wp_kreturn elim!: wp_mono)
qed


lemma written_ready:
  assumes w: "written B s ip off src t" and r: "file_ready s ip" and off: "off + length src \<le> MAXFILE * BSIZE"
    and av: "int (write_cost s (icache s ! ip) off (length src)) + 5 \<le> avail s"
  shows "file_ready t ip"
proof -
  note R = file_readyD [OF r]
  have W: "fsr B s t" "card B \<le> write_cost s (icache s ! ip) off (length src) + 1" "fs_layout t" "ino_wf t (icache t ! ip)"
    "icache t = (icache s)[ip := (icache s ! ip)\<lparr>i_addrs := i_addrs (icache t ! ip), i_size := i_size (icache t ! ip)\<rparr>]"
    "i_size (icache t ! ip) = (if src = [] then i_size (icache s ! ip) else max (i_size (icache s ! ip)) (off + length src))"
    using w unfolding written_def by blast+
  have p: "icache t ! ip = (icache s ! ip)\<lparr>i_addrs := i_addrs (icache t ! ip), i_size := i_size (icache t ! ip)\<rparr>"
    using arg_cong [OF W(5), of "\<lambda>c. c ! ip"] R(5) by simp
  have f: "i_inum (icache t ! ip) = i_inum (icache s ! ip)" "i_type (icache t ! ip) = i_type (icache s ! ip)"
    by (subst p, simp)+
  have "length (icache t) = length (icache s)" using arg_cong [OF W(5), of length] by simp
  then show ?thesis
    using R W(3,4,6) fsrD(1,3,4) [OF W(1)] fsr_avail [OF W(1)] W(2) av off by (simp add: file_ready_def f)
qed

text \<open>
  A write of at most three blocks' length to a file without holes: it touches three blocks, or four of which the first is
  there already. With the indirect block and its map block this makes at most nine blocks, besides the inode.
\<close>

lemma touch_bound: "off + n \<le> m * BSIZE \<Longrightarrow> touch off n \<subseteq> {off div BSIZE ..< m}"
  by (auto simp: touch_def div_le_mono less_mult_imp_div_less)

lemma write_cost_chunk:
  assumes n: "n \<le> 3 * BSIZE" and off: "off \<le> i_size p" and full: "no_holes s p 0 (i_size p)"
  shows "write_cost s p off n \<le> 9"
proof -
  let ?q = "off div BSIZE"
  have e: "off = ?q * BSIZE + off mod BSIZE" by simp
  have c: "card (touch off n) \<le> k" "card (holes s p off n) \<le> card ({?q ..< ?q + k} \<inter> {bn. fblk s p bn = 0})"
    if "touch off n \<subseteq> {?q ..< ?q + k}" for k
    using card_mono [OF _ that] by (simp, intro card_mono) (use that in \<open>auto simp: holes_def\<close>)
  show ?thesis
  proof (cases "off mod BSIZE = 0")
    case True
    then have "off + n \<le> (?q + 3) * BSIZE" using n e by (simp add: add_mult_distrib)
    note C = c [OF touch_bound [OF this]]
    have "card ({?q ..< ?q + 3} \<inter> {bn. fblk s p bn = 0}) \<le> card {?q ..< ?q + 3}" by (rule card_mono) auto
    then show ?thesis using C by (simp add: write_cost_def)
  next
    case False
    have "off mod BSIZE < BSIZE" by simp
    then have "off + n \<le> ?q * BSIZE + BSIZE + 3 * BSIZE" using n e by linarith
    then have "off + n \<le> (?q + 4) * BSIZE" by (simp add: add_mult_distrib)
    note C = c [OF touch_bound [OF this]]
    have "?q * BSIZE < off" using False e by linarith
    then have "fblk s p ?q \<noteq> 0" using full off by (auto simp: no_holes_def dest!: spec [of _ "?q * BSIZE"])
    then have "{?q ..< ?q + 4} \<inter> {bn. fblk s p bn = 0} \<subseteq> {?q + 1 ..< ?q + 4}" by (auto simp: le_less Suc_le_eq)
    then have "card ({?q ..< ?q + 4} \<inter> {bn. fblk s p bn = 0}) \<le> card {?q + 1 ..< ?q + 4}" by (intro card_mono) auto
    then show ?thesis using C by (simp add: write_cost_def)
  qed
qed

section \<open>Properties\<close>

text \<open>
  C20. For a file that is not a device, an offset within the file and a length that keeps it below the maximal size, with
  enough free blocks and enough room in the log, \<^verbatim>\<open>writei\<close> returns the number of bytes. The file then consists of the bytes
  it had with the new ones in their place, its size grows when the write ends beyond it, and no other inode and no block
  that was in use by anything else has changed.
\<close>

theorem writei_writes:
  assumes "file_ready s ip" "off \<le> i_size (icache s ! ip)" "off + length src \<le> MAXFILE * BSIZE"
    "enough_free s (icache s ! ip) off (length src)" "int (write_cost s (icache s ! ip) off (length src)) + 5 \<le> avail s"
  shows "\<exists>t. writei devsw ip src off s = Ok (int (length src)) t \<and> file_ready t ip \<and>
    (\<forall>k < MAXFILE * BSIZE. fbyte t (icache t ! ip) k =
       (if off \<le> k \<and> k < off + length src then src ! (k - off) else fbyte s (icache s ! ip) k)) \<and>
    i_size (icache t ! ip) = (if src = [] then i_size (icache s ! ip) else max (i_size (icache s ! ip)) (off + length src)) \<and>
    inodes_kept (i_inum (icache s ! ip)) s t \<and>
    (\<forall>n < sb_size (sb s). in_use s n \<longrightarrow> \<not> map_block s n \<longrightarrow> n \<notin> file_blocks s (icache s ! ip) \<longrightarrow>
       n \<noteq> IBLOCK (i_inum (icache s ! ip)) (sb s) \<longrightarrow> content t n = content s n)"
proof -
  obtain t B where t: "writei devsw ip src off s = Ok (int (length src)) t" and w: "written B s ip off src t"
    using writei_ok [OF assms, of devsw] by (auto simp: wp_iff_Ok)
  have k: "keeps (insert (IBLOCK (i_inum (icache s ! ip)) (sb s)) (file_blocks s (icache s ! ip))) s t"
    using w unfolding written_def by blast
  show ?thesis
    using t written_ready [OF w assms(1,3,5)] w keepsD(5) [OF k] unfolding written_def by (intro exI [of _ t]) simp
qed

text \<open>
  C21. \<^verbatim>\<open>readi\<close> on a file that is not a device, from an offset within the file, returns the bytes of the file from there on, up
  to the end of the file, and changes nothing but the buffer cache.
\<close>

theorem readi_reads:
  assumes "file_ready s ip" "off \<le> i_size (icache s ! ip)" "off + n < 2 ^ 32"
    "no_holes s (icache s ! ip) 0 (i_size (icache s ! ip))" and m: "m = min n (i_size (icache s ! ip) - off)"
  shows "\<exists>t. readi devsw ip off n s = Ok (int m, map (fbyte s (icache s ! ip)) [off ..< off + m]) t \<and>
    content t = content s \<and> icache t = icache s \<and> disk t = disk s \<and> file_ready t ip"
proof -
  have "no_holes s (icache s ! ip) off m" using assms(4) m by (auto simp: no_holes_def)
  then obtain t where t: "readi devsw ip off n s = Ok (int m, fbytes s (icache s ! ip) off m) t" and e: "same s t"
    using readi_ok [OF assms(1-3), of devsw] m by (auto simp: wp_iff_Ok)
  have "file_ready t ip" using sameD [OF e] assms(1) by (simp add: file_ready_def)
  moreover have "disk t = disk s" using e txrD(2) by (auto simp: same_def)
  ultimately show ?thesis using t sameD(5,6) [OF e] by (simp add: fbytes_def)
qed

text \<open>C22. What \<^verbatim>\<open>writei\<close> has written, \<^verbatim>\<open>readi\<close> at the same offset returns.\<close>

theorem writei_readi:
  assumes "file_ready s ip" "off \<le> i_size (icache s ! ip)" "off + length src \<le> MAXFILE * BSIZE"
    "enough_free s (icache s ! ip) off (length src)" "int (write_cost s (icache s ! ip) off (length src)) + 5 \<le> avail s"
  shows "\<exists>t. kbind (writei devsw ip src off) (\<lambda>_. readi devsw ip off (length src)) s = Ok (int (length src), src) t"
proof -
  have "wp (kbind (writei devsw ip src off) (\<lambda>_. readi devsw ip off (length src))) (\<lambda>v _. v = (int (length src), src)) s"
  proof (rule wp_seq [OF writei_ok [OF assms]], elim conjE exE)
    fix t B assume w: "written B s ip off src t"
    let ?p = "icache t ! ip"
    have W: "i_size ?p = (if src = [] then i_size (icache s ! ip) else max (i_size (icache s ! ip)) (off + length src))"
      "\<And>bn. bn < MAXFILE \<Longrightarrow> fblk t ?p bn \<noteq> 0 \<longleftrightarrow> fblk s (icache s ! ip) bn \<noteq> 0 \<or> bn \<in> touch off (length src)"
      "\<And>k. k < MAXFILE * BSIZE \<Longrightarrow> off \<le> k \<Longrightarrow> k < off + length src \<Longrightarrow> fbyte t ?p k = src ! (k - off)"
      using w unfolding written_def by simp_all
    have m: "min (length src) (i_size ?p - off) = length src" using W(1) by auto
    have "no_holes t ?p off (length src)"
      using W(2) touch_less [OF assms(3)] by (auto simp: no_holes_def touch_def)
    moreover have "fbytes t ?p off (length src) = src"
      using W(3) assms(3) by (intro nth_equalityI) (simp_all add: fbytes_def)
    moreover have "off \<le> i_size ?p" using W(1) assms(2) by auto
    ultimately show "wp (readi devsw ip off (length src)) (\<lambda>v _. v = (int (length src), src)) t"
      using wp_mono [OF readi_ok [OF written_ready [OF w assms(1,3,5)], of off "length src" devsw]] m MAXFILE_size [OF assms(3)] by simp
  qed
  then show ?thesis by (auto simp: wp_iff_Ok)
qed


lemma kbind_return_Ok: "kbind m (\<lambda>x. kreturn (f x)) s = Ok r t \<Longrightarrow> \<exists>x. r = f x"
  by (auto simp: kbind_def kreturn_def split: outcome.splits)

text \<open>
  C23. On a file that is not a device, \<^verbatim>\<open>writei\<close> fails, with nothing changed, exactly when the offset lies beyond the end of the
  file, the end of the write does not fit in 32 bits, or it lies beyond the maximal size of a file; \<^verbatim>\<open>readi\<close> fails exactly in
  the first two cases.
\<close>

theorem file_range_errors:
  assumes "i_type (icache s ! ip) \<noteq> T_DEV" "i_size (icache s ! ip) \<le> MAXFILE * BSIZE"
  shows "(writei devsw ip src off s = Ok (- 1) s \<longleftrightarrow>
      i_size (icache s ! ip) < off \<or> (off + length src) mod 2 ^ 32 < off \<or> MAXFILE * BSIZE < off + length src) \<and>
    (readi devsw ip off n s = Ok (- 1, []) s \<longleftrightarrow> i_size (icache s ! ip) < off \<or> (off + n) mod 2 ^ 32 < off)"
proof -
  let ?p = "icache s ! ip"
  have s32: "s32 (int x) \<noteq> - 1" if "x \<le> MAXFILE * BSIZE" for x using that MAXFILE_size [OF that] by (simp add: s32_small)
  have get: "kbind (get_ino ip (\<lambda>p. p)) f s = f ?p s" for f :: "inode \<Rightarrow> ('a fs_state_scheme, 'b) K"
    by (simp add: get_ino_def kbind_def kget_def)
  have "writei devsw ip src off s \<noteq> Ok (- 1) s"
    if "\<not> (i_size ?p < off \<or> (off + length src) mod 2 ^ 32 < off)" "\<not> MAXFILE * BSIZE < off + length src"
    using that assms s32 [of "length src"]
    by (auto simp: writei_def Let_def get kbind_assoc [symmetric] dest!: kbind_return_Ok)
  moreover have "readi devsw ip off n s \<noteq> Ok (- 1, []) s" if "\<not> (i_size ?p < off \<or> (off + n) mod 2 ^ 32 < off)"
  proof -
    let ?n = "if i_size ?p < off + n then i_size ?p - off else n"
    have "?n \<le> MAXFILE * BSIZE" using assms(2) that by auto
    then show ?thesis using that assms(1) s32 [of ?n] by (auto simp: readi_def Let_def get dest!: kbind_return_Ok)
  qed
  ultimately show ?thesis using assms(1) by (auto simp: writei_def readi_def Let_def get kreturn_def)
qed

section \<open>A concrete file\<close>

text \<open>Inode 2 of the example file system holds 100 bytes in block 7.\<close>

definition ex_file :: inode where
  "ex_file = ex_inode\<lparr>i_dev := 1, i_inum := 2, i_ref := 1, i_valid := True, i_type := T_FILE, i_nlink := 1, i_size := 100,
     i_addrs := 7 # replicate NDIRECT 0\<rparr>"

definition ex_ino_state :: fs_state where
  "ex_ino_state = ex_fs_state\<lparr>icache := (icache ex_fs_state)[0 := ex_file]\<rparr>"

lemma ex_ifile_sel [simp]: "i_size ex_file = 100" "i_inum ex_file = 2" "i_addrs ex_file = 7 # replicate NDIRECT 0" "i_type ex_file = T_FILE"
    "i_dev ex_file = 1" "icache ex_ino_state ! 0 = ex_file" "sb ex_ino_state = ex_sb" "content ex_ino_state = ex_disk" "in_use ex_ino_state = in_use ex_fs_state"
  using ex_fs_cache by (simp_all add: ex_file_def ex_ino_state_def NINODE_def)

lemma ex_fblk: "fblk ex_ino_state ex_file bn = (if bn = 0 then 7 else 0)" if "bn < MAXFILE"
  using that by (auto simp: fblk_def NDIRECT_def nth_Cons' )

lemma ex_map_block: "map_block ex_fs_state n \<Longrightarrow> n = 3"
  by (auto simp: map_block_def ex_sb_def BBLOCK_def BPB_def BSIZE_def)

lemma ex_IBLOCK: "i < 8 \<Longrightarrow> IBLOCK i ex_sb = 4"
  by (simp add: IBLOCK_def ex_sb_def IPB_def BSIZE_def DINODE_SIZE_def)

lemma ex_file_ready: "file_ready ex_ino_state 0"
proof -
  have sz: "sb_size ex_sb = 64" "sb_ninodes ex_sb = 8" by (simp_all add: ex_sb_def)
  have u: "in_use ex_fs_state 0" "in_use ex_fs_state 4" "in_use ex_fs_state 7" using ex_in_use by simp_all
  have nm: "\<not> map_block ex_fs_state 4" "\<not> map_block ex_fs_state 7" using ex_map_block [of 4] ex_map_block [of 7] by auto
  have lay: "fs_layout ex_ino_state"
    using ex_fs_geom u nm ex_IBLOCK by (auto simp: fs_layout_def ex_ino_state_def sz)
  have db: "data_block ex_ino_state 7"
    using u nm ex_IBLOCK by (auto simp: data_block_def ex_ino_state_def sz)
  have "ino_wf ex_ino_state ex_file"
    by (rule ino_wfI) (use db ex_fblk in \<open>auto simp: NDIRECT_def split: if_splits\<close>)
  then show ?thesis
    using lay ex_txok ex_fs_cache unfolding file_ready_def
    by (simp add: sz) (simp add: ex_ino_state_def NINODE_def T_FILE_def T_DEV_def MAXFILE_def NINDIRECT_def NDIRECT_def BSIZE_def)
qed


lemma ex_free_set: "free_set ex_ino_state = {8 ..< 64}"
proof -
  have "sb_size ex_sb = 64" by (simp add: ex_sb_def)
  then show ?thesis using ex_in_use by (auto simp: free_set_def)
qed

lemma ex_write:
  assumes "off + n \<le> 3 * BSIZE"
  shows "enough_free ex_ino_state (icache ex_ino_state ! 0) off n"
    and "int (write_cost ex_ino_state (icache ex_ino_state ! 0) off n) + 5 \<le> avail ex_ino_state"
proof -
  let ?H = "holes ex_ino_state ex_file off n"
  have "card (touch off n) \<le> card {off div BSIZE ..< 3}" by (rule card_mono [OF _ touch_bound [OF assms]]) simp
  then have T: "card (touch off n) \<le> 3" by simp
  have "card ?H \<le> card (touch off n)" by (rule card_mono) (auto simp: holes_def)
  then have H: "card ?H \<le> 3" using T by simp
  show "enough_free ex_ino_state (icache ex_ino_state ! 0) off n" using H by (simp add: enough_free_def ex_free_set)
  have "avail ex_ino_state = 28" using ex_txok(2) by (simp add: ex_ino_state_def)
  then show "int (write_cost ex_ino_state (icache ex_ino_state ! 0) off n) + 5 \<le> avail ex_ino_state"
    using T H by (simp add: write_cost_def)
qed

lemma ex_size: "100 \<le> MAXFILE * BSIZE" "1100 \<le> MAXFILE * BSIZE" "1100 \<le> 3 * BSIZE"
  by (simp_all add: MAXFILE_def NINDIRECT_def NDIRECT_def BSIZE_def)

text \<open>The device switch before any driver has registered.\<close>

definition ex_devsw :: "'r fs_state_scheme devsw" where "ex_devsw = (\<lambda>_. (None, None))"

theorem writei_writes_witness:
  "\<exists>t. writei ex_devsw 0 (replicate 1000 65) 100 ex_ino_state = Ok 1000 t \<and> i_size (icache t ! 0) = 1100 \<and>
     fbyte t (icache t ! 0) 1099 = 65 \<and> fbyte t (icache t ! 0) 99 = fbyte ex_ino_state ex_file 99"
proof -
  have k: "(1099::nat) < MAXFILE * BSIZE" "(99::nat) < MAXFILE * BSIZE" using ex_size(2) by simp_all
  obtain t where "writei ex_devsw 0 (replicate 1000 65) 100 ex_ino_state = Ok (int (length (replicate 1000 (65::byte)))) t"
    "\<forall>k < MAXFILE * BSIZE. fbyte t (icache t ! 0) k =
       (if 100 \<le> k \<and> k < 100 + length (replicate 1000 (65::byte)) then replicate 1000 65 ! (k - 100) else fbyte ex_ino_state (icache ex_ino_state ! 0) k)"
    "i_size (icache t ! 0) = (if replicate 1000 (65::byte) = [] then i_size (icache ex_ino_state ! 0) else max (i_size (icache ex_ino_state ! 0)) (100 + length (replicate 1000 (65::byte))))"
    using writei_writes [OF ex_file_ready _ _ ex_write, of 100 "replicate 1000 65" ex_devsw] ex_size by auto
  then show ?thesis using k by (intro exI [of _ t]) simp
qed

theorem readi_reads_witness: "\<exists>t. readi ex_devsw 0 90 20 ex_ino_state = Ok (10, replicate 10 0) t"
proof -
  have z: "fbyte ex_ino_state ex_file k = 0" if "k < 100" for k
    using that ex_fblk [of 0] by (simp add: fbyte_def BSIZE_def ex_disk_def MAXFILE_def NINDIRECT_def)
  have "map (fbyte ex_ino_state ex_file) [90 ..< 100] = replicate 10 0"
    by (rule replicate_eqI) (auto simp: z simp del: upt_rec_numeral)
  moreover have "no_holes ex_ino_state ex_file 0 100"
    using ex_fblk [of 0] by (simp add: no_holes_def BSIZE_def MAXFILE_def NINDIRECT_def)
  ultimately show ?thesis
    using readi_reads [OF ex_file_ready, of 90 20 10 ex_devsw] by auto
qed

theorem writei_readi_witness:
  "\<exists>t. kbind (writei ex_devsw 0 (replicate 1000 65) 100) (\<lambda>_. readi ex_devsw 0 100 1000) ex_ino_state = Ok (1000, replicate 1000 65) t"
  using writei_readi [OF ex_file_ready _ _ ex_write, of 100 "replicate 1000 65" ex_devsw] ex_size by simp

theorem file_range_errors_witness:
  "writei ex_devsw 0 [1] 101 ex_ino_state = Ok (- 1) ex_ino_state \<and> readi ex_devsw 0 101 1 ex_ino_state = Ok (- 1, []) ex_ino_state"
  using file_range_errors [of ex_ino_state 0 ex_devsw "[1]" 101 1] ex_size(1) by (simp add: T_FILE_def T_DEV_def)

end
