(* ===== verification/Umalloc.thy ===== *)
theory Umalloc
  imports Prelude
begin

text \<open>
  The heap of the user programs (\<^verbatim>\<open>umalloc.c\<close>), the allocator of Kernighan and Ritchie. Free blocks start with a header and
  form a circular list in the order of their addresses; the static header \<^verbatim>\<open>base\<close>, of size 0, is its lowest element. The
  fields of the headers are functions of the address; sizes count headers of 8 bytes. A loop over the list that does not
  end has no result.
\<close>

record um_state =
  hptr :: "nat \<Rightarrow> nat"
  hsize :: "nat \<Rightarrow> nat"
  ufreep :: nat
  ubrk :: nat

definition hadd :: "nat \<Rightarrow> nat \<Rightarrow> nat" where
  "hadd p n = (p + 8 * n) mod 2 ^ 32"

text \<open>The loop of \<^verbatim>\<open>free\<close> that looks for the place of \<open>bp\<close> in the list.\<close>

partial_function (option) free_find :: "um_state \<Rightarrow> nat \<Rightarrow> nat \<Rightarrow> nat option" where
  "free_find s bp p =
     (if p < bp \<and> bp < hptr s p then Some p
      else if hptr s p \<le> p \<and> (p < bp \<or> bp < hptr s p) then Some p
      else free_find s bp (hptr s p))"

definition join_upper :: "nat \<Rightarrow> nat \<Rightarrow> um_state \<Rightarrow> um_state" where
  "join_upper bp p s =
     (if hadd bp (hsize s bp) = hptr s p
      then s\<lparr>hsize := (hsize s)(bp := (hsize s bp + hsize s (hptr s p)) mod 2 ^ 32), hptr := (hptr s)(bp := hptr s (hptr s p))\<rparr>
      else s\<lparr>hptr := (hptr s)(bp := hptr s p)\<rparr>)"

definition join_lower :: "nat \<Rightarrow> nat \<Rightarrow> um_state \<Rightarrow> um_state" where
  "join_lower bp p s =
     (if hadd p (hsize s p) = bp
      then s\<lparr>hsize := (hsize s)(p := (hsize s p + hsize s bp) mod 2 ^ 32), hptr := (hptr s)(p := hptr s bp)\<rparr>
      else s\<lparr>hptr := (hptr s)(p := bp)\<rparr>)"

definition u_free :: "nat \<Rightarrow> um_state \<Rightarrow> um_state option" where
  "u_free ap s =
     (let bp = ap - 8 in
      case free_find s bp (ufreep s) of
        None \<Rightarrow> None
      | Some p \<Rightarrow> Some ((join_lower bp p (join_upper bp p s))\<lparr>ufreep := p\<rparr>))"

text \<open>
  The system call \<^verbatim>\<open>sbrk\<close>: \<open>lim\<close> is the size up to which the kernel can grow the process. A negative argument shrinks it; the
  new size is computed modulo \<open>2 ^ 32\<close> and taken only if it is smaller.
\<close>

definition u_sbrk :: "nat \<Rightarrow> int \<Rightarrow> um_state \<Rightarrow> int \<times> um_state" where
  "u_sbrk lim n s =
     (if 0 < n then
        (if int (ubrk s) + n \<le> int lim then (int (ubrk s), s\<lparr>ubrk := ubrk s + nat n\<rparr>) else (- 1, s))
      else if n < 0 then
        (let new = nat ((int (ubrk s) + n) mod 2 ^ 32); sz = (if ubrk s \<le> new then ubrk s else new) in
         if sz = 0 then (- 1, s) else (int (ubrk s), s\<lparr>ubrk := sz\<rparr>))
      else (int (ubrk s), s))"

definition morecore :: "nat \<Rightarrow> nat \<Rightarrow> um_state \<Rightarrow> (nat \<times> um_state) option" where
  "morecore lim nu s =
     (let nu = (if nu < 4096 then 4096 else nu);
          n = (int (nu * 8) + 2 ^ 31) mod 2 ^ 32 - 2 ^ 31;
          (p, s) = u_sbrk lim n s in
      if p = - 1 then Some (0, s)
      else
        (let hp = nat p; s = s\<lparr>hsize := (hsize s)(hp := nu)\<rparr> in
         case u_free (hadd hp 1) s of None \<Rightarrow> None | Some s \<Rightarrow> Some (ufreep s, s)))"

text \<open>The loop of \<^verbatim>\<open>malloc\<close>.\<close>

partial_function (option) malloc_loop :: "nat \<Rightarrow> nat \<Rightarrow> nat \<Rightarrow> nat \<Rightarrow> um_state \<Rightarrow> (nat \<times> um_state) option" where
  "malloc_loop lim nunits prevp p s =
     (if nunits \<le> hsize s p then
        (if hsize s p = nunits then Some (hadd p 1, s\<lparr>hptr := (hptr s)(prevp := hptr s p), ufreep := prevp\<rparr>)
         else
           (let m = hsize s p - nunits; q = hadd p m in
            Some (hadd q 1, s\<lparr>hsize := (hsize s)(p := m, q := nunits), ufreep := prevp\<rparr>)))
      else if p = ufreep s then
        (case morecore lim nunits s of
           None \<Rightarrow> None
         | Some (r, s') \<Rightarrow> if r = 0 then Some (0, s') else malloc_loop lim nunits r (hptr s' r) s')
      else malloc_loop lim nunits p (hptr s p) s)"

definition nunits_of :: "nat \<Rightarrow> nat" where
  "nunits_of nbytes = (nbytes + 8 - 1) mod 2 ^ 32 div 8 + 1"

definition u_malloc :: "nat \<Rightarrow> nat \<Rightarrow> nat \<Rightarrow> um_state \<Rightarrow> (nat \<times> um_state) option" where
  "u_malloc base lim nbytes s =
     (let s = (if ufreep s = 0 then s\<lparr>hptr := (hptr s)(base := base), ufreep := base, hsize := (hsize s)(base := 0)\<rparr> else s) in
      malloc_loop lim (nunits_of nbytes) (ufreep s) (hptr s (ufreep s)) s)"

section \<open>The list of free blocks\<close>

text \<open>A path along the pointers, from \<open>x\<close> through the blocks of the list to \<open>y\<close>.\<close>

fun path :: "(nat \<Rightarrow> nat) \<Rightarrow> nat \<Rightarrow> nat list \<Rightarrow> nat \<Rightarrow> bool" where
  "path h x [] y \<longleftrightarrow> x = y"
| "path h x (a # as) y \<longleftrightarrow> a = x \<and> path h (h x) as y"

text \<open>Blocks in the order of their addresses, with a gap between each and the next.\<close>

fun spaced :: "(nat \<Rightarrow> nat) \<Rightarrow> nat list \<Rightarrow> nat \<Rightarrow> bool" where
  "spaced sz [] e \<longleftrightarrow> True"
| "spaced sz [a] e \<longleftrightarrow> a + 8 * sz a \<le> e"
| "spaced sz (a # b # as) e \<longleftrightarrow> a + 8 * sz a < b \<and> spaced sz (b # as) e"

text \<open>\<open>xs\<close> are the free blocks above \<open>base\<close>.\<close>

definition ulist :: "nat \<Rightarrow> nat list \<Rightarrow> um_state \<Rightarrow> bool" where
  "ulist base xs s \<longleftrightarrow> 0 < base \<and> base < ubrk s \<and> path (hptr s) base (base # xs) base \<and> spaced (hsize s) (base # xs) (ubrk s) \<and> hsize s base = 0 \<and>
     (\<forall>x \<in> set xs. 0 < hsize s x) \<and> ufreep s \<in> set (base # xs) \<and> ubrk s < 2 ^ 31"

definition uspace :: "(nat \<Rightarrow> nat) \<Rightarrow> nat list \<Rightarrow> nat set" where
  "uspace sz xs = (\<Union>a \<in> set xs. {a ..< a + 8 * sz a})"

lemma path_append: "path h x (as @ bs) y \<longleftrightarrow> (\<exists>z. path h x as z \<and> path h z bs y)"
  by (induction as arbitrary: x) auto

lemma path_upd [simp]: "u \<notin> set as \<Longrightarrow> path (h(u := v)) x as y = path h x as y"
  by (induction as arbitrary: x) auto

lemma path_hd: "path h x (a # as) y \<Longrightarrow> a = x"
  by simp

lemma spaced_mono: "spaced sz xs e \<Longrightarrow> e \<le> e' \<Longrightarrow> spaced sz xs e'"
  by (induction sz xs e rule: spaced.induct) auto

lemma spaced_cong: "(\<And>a. a \<in> set xs \<Longrightarrow> sz a = sz' a) \<Longrightarrow> spaced sz xs e = spaced sz' xs e"
  by (induction sz xs e rule: spaced.induct) auto

lemma spaced_append:
  "spaced sz (as @ b # bs) e \<longleftrightarrow> spaced sz (b # bs) e \<and> (as = [] \<or> (spaced sz as b \<and> last as + 8 * sz (last as) < b))"
proof (induction as)
  case (Cons a as)
  then show ?case by (cases as) auto
qed simp

lemma spaced_sorted: "spaced sz xs e \<Longrightarrow> sorted_wrt (<) xs"
proof (induction sz xs e rule: spaced.induct)
  case (3 sz a b as e)
  then have "sorted_wrt (<) (b # as)" "a < b" by auto
  then show ?case by auto
qed auto

lemma spaced_less: "spaced sz (as @ b # bs) e \<Longrightarrow> a \<in> set as \<Longrightarrow> a + 8 * sz a < b"
proof (induction as arbitrary: a)
  case IH: (Cons x as)
  show ?case
  proof (cases as)
    case Nil
    then show ?thesis using IH by simp
  next
    case (Cons y ys)
    have sp: "spaced sz (as @ b # bs) e" "x + 8 * sz x < y" using Cons IH.prems by auto
    have "y + 8 * sz y < b" using IH.IH [OF sp(1), of y] Cons by simp
    then show ?thesis using sp IH.IH [OF sp(1), of a] IH.prems(2) by auto
  qed
qed simp

lemma spaced_top: "spaced sz xs e \<Longrightarrow> a \<in> set xs \<Longrightarrow> a + 8 * sz a \<le> e"
proof (induction sz xs e arbitrary: a rule: spaced.induct)
  case (3 sz a' b as e)
  then have IH: "spaced sz (b # as) e" "a' + 8 * sz a' < b" "\<And>x. x \<in> set (b # as) \<Longrightarrow> x + 8 * sz x \<le> e" by auto
  have "b + 8 * sz b \<le> e" by (rule IH(3)) simp
  then have "a' + 8 * sz a' \<le> e" using IH(2) by linarith
  then show ?case using IH(3) 3(3) by auto
qed auto

lemma find_forward:
  assumes "path (hptr s) q (ys @ p # bs) base" "sorted_wrt (<) (ys @ p # bs)" "base < bp" "p < bp" "\<forall>b \<in> set bs. bp < b" "base \<le> p"
  shows "free_find s bp q = Some p"
  using assms
proof (induction ys arbitrary: q)
  case Nil
  then show ?case by (cases bs) (auto simp: free_find.simps)
next
  case (Cons y ys)
  then have q: "y = q" "path (hptr s) (hptr s q) (ys @ p # bs) base" by auto
  obtain z zs where z: "ys @ p # bs = z # zs" "hptr s q = z" using q(2) by (cases "ys @ p # bs") auto
  have "z \<le> p" using z Cons.prems(2) by (cases ys) auto
  moreover have "q < z" using z q Cons.prems(2) by auto
  ultimately have "free_find s bp q = free_find s bp (hptr s q)" using z Cons.prems(4) by (subst free_find.simps) auto
  then show ?case using Cons.IH [OF q(2)] Cons.prems by simp
qed

lemma find_backward:
  assumes "path (hptr s) q (q # zs) base" "sorted_wrt (<) (q # zs)" "base < bp" "bp < q"
  shows "free_find s bp q = free_find s bp base"
  using assms
proof (induction zs arbitrary: q)
  case Nil
  then show ?case by (subst free_find.simps) auto
next
  case (Cons z zs)
  then have z: "hptr s q = z" by simp
  have "free_find s bp q = free_find s bp z" using z Cons.prems by (subst free_find.simps) auto
  then show ?case using Cons.IH [of z] Cons.prems z by simp
qed

text \<open>The search ends at the last block below \<open>bp\<close>, wherever in the list it starts.\<close>

lemma free_find_ok:
  assumes u: "ulist base xs s" and d: "base # xs = as @ p # bs" and bp: "base < bp" "p < bp" "\<forall>b \<in> set bs. bp < b"
    and q: "q \<in> set (base # xs)"
  shows "free_find s bp q = Some p"
proof -
  have pt: "path (hptr s) base (as @ p # bs) base" and so: "sorted_wrt (<) (as @ p # bs)"
    using u spaced_sorted d unfolding ulist_def by auto
  have bl: "base \<le> p" using so d by (cases as) (auto simp: sorted_wrt_append)
  have base: "free_find s bp base = Some p" by (rule find_forward [OF pt so bp bl])
  have "q \<in> set as \<or> q = p \<or> q \<in> set bs" using q d by auto
  then consider ys zs where "as = ys @ q # zs" | "q = p" | ys zs where "bs = ys @ q # zs" by (auto dest!: split_list)
  then show ?thesis
  proof cases
    case 1
    then show ?thesis using pt so find_forward [of s q "q # zs" p bs base bp] bp bl by (auto simp: path_append sorted_wrt_append)
  next
    case 2
    then show ?thesis using pt so find_forward [of s q "[]" p bs base bp] bp bl by (auto simp: path_append sorted_wrt_append)
  next
    case 3
    then show ?thesis using pt so find_backward [of s q zs base bp] bp base by (auto simp: path_append sorted_wrt_append)
  qed
qed


section \<open>free\<close>

lemma uspace_simps [simp]: "uspace sz [] = {}" "uspace sz (a # as) = {a ..< a + 8 * sz a} \<union> uspace sz as"
  "uspace sz (as @ bs) = uspace sz as \<union> uspace sz bs"
  by (auto simp: uspace_def)

lemma uspace_cong: "(\<And>a. a \<in> set xs \<Longrightarrow> sz a = sz' a) \<Longrightarrow> uspace sz xs = uspace sz' xs"
  by (simp add: uspace_def)

lemma spaced_upd [simp]: "u \<notin> set xs \<Longrightarrow> spaced (sz(u := v)) xs e = spaced sz xs e"
  by (rule spaced_cong) auto

lemma uspace_upd [simp]: "u \<notin> set xs \<Longrightarrow> uspace (sz(u := v)) xs = uspace sz xs"
  by (rule uspace_cong) auto

lemma hadd_small: "p + 8 * n < 2 ^ 32 \<Longrightarrow> hadd p n = p + 8 * n"
  by (simp add: hadd_def)

text \<open>First step: \<open>bp\<close> is put in front of the blocks above it, and merged with the first of them if they touch.\<close>

definition above :: "nat \<Rightarrow> nat \<Rightarrow> nat list \<Rightarrow> nat list" where
  "above bp n bs = (if bs \<noteq> [] \<and> bp + 8 * n = hd bs then tl bs else bs)"

lemma join_upper_ok:
  assumes pt: "path (hptr s) (hptr s p) bs base" and sp: "spaced (hsize s) bs (ubrk s)" and ne: "bp \<notin> set bs" "p \<noteq> bp" "base < bp"
    and fit: "bs \<noteq> [] \<longrightarrow> bp + 8 * hsize s bp \<le> hd bs" "bp + 8 * hsize s bp \<le> ubrk s" and brk: "ubrk s < 2 ^ 31"
    and t: "t = join_upper bp p s" and rest: "rest = above bp (hsize s bp) bs"
  shows "path (hptr t) bp (bp # rest) base" "spaced (hsize t) (bp # rest) (ubrk s)"
    "uspace (hsize t) (bp # rest) = {bp ..< bp + 8 * hsize s bp} \<union> uspace (hsize s) bs"
    "hsize s bp \<le> hsize t bp" "hptr t = (hptr s)(bp := hptr t bp)" "hsize t = (hsize s)(bp := hsize t bp)" "ubrk t = ubrk s"
    "set rest \<subseteq> set bs" "bs \<noteq> [] \<Longrightarrow> hd bs \<in> set rest \<or> bp + 8 * hsize s bp = hd bs"
proof -
  have ha: "hadd bp (hsize s bp) = bp + 8 * hsize s bp" using fit(2) brk by (intro hadd_small) simp
  show "hptr t = (hptr s)(bp := hptr t bp)" "hsize t = (hsize s)(bp := hsize t bp)" "ubrk t = ubrk s"
    by (auto simp: t join_upper_def fun_eq_iff)
  show "set rest \<subseteq> set bs" by (cases bs) (auto simp: rest above_def)
  show "hd bs \<in> set rest \<or> bp + 8 * hsize s bp = hd bs" if "bs \<noteq> []" using that by (auto simp: rest above_def)
  have "path (hptr t) bp (bp # rest) base \<and> spaced (hsize t) (bp # rest) (ubrk s) \<and>
    uspace (hsize t) (bp # rest) = {bp ..< bp + 8 * hsize s bp} \<union> uspace (hsize s) bs \<and> hsize s bp \<le> hsize t bp"
  proof (cases "bs \<noteq> [] \<and> bp + 8 * hsize s bp = hd bs")
    case True
    then obtain b bs' where bs: "bs = b # bs'" and b: "bp + 8 * hsize s bp = b" by (cases bs) auto
    have hp: "hptr s p = b" using pt bs by auto
    have "b + 8 * hsize s b \<le> ubrk s" using spaced_top [OF sp, of b] bs by simp
    then have sm: "(hsize s bp + hsize s b) mod 2 ^ 32 = hsize s bp + hsize s b" using brk b by simp
    have r: "rest = bs'" using True by (simp add: rest above_def bs)
    show ?thesis
      using pt sp ne hp b sm unfolding r t join_upper_def ha bs by (cases bs') (auto simp: add_mult_distrib2)
  next
    case False
    then have r: "rest = bs" "hadd bp (hsize s bp) \<noteq> hptr s p" using pt ne(3) ha by (cases bs; auto simp: rest above_def)+
    then show ?thesis
      using pt sp ne fit False unfolding r t join_upper_def by (cases bs) auto
  qed
  then show "path (hptr t) bp (bp # rest) base" "spaced (hsize t) (bp # rest) (ubrk s)"
    "uspace (hsize t) (bp # rest) = {bp ..< bp + 8 * hsize s bp} \<union> uspace (hsize s) bs" "hsize s bp \<le> hsize t bp" by auto
qed


text \<open>Second step: the result is put behind \<open>p\<close>, or merged with \<open>p\<close> if they touch.\<close>

lemma join_lower_ok:
  assumes pt: "path (hptr t) base as p" "path (hptr t) bp (bp # rest) base"
    and sp: "spaced (hsize t) (as @ [p]) bp" "spaced (hsize t) (bp # rest) (ubrk t)"
    and ne: "p \<notin> set as" "bp \<notin> set as" "p \<noteq> bp" "p \<notin> set rest" "bp \<notin> set rest" and brk: "ubrk t < 2 ^ 31"
    and u: "u = join_lower bp p t" and ys: "ys = as @ p # (if p + 8 * hsize t p = bp then rest else bp # rest)"
  shows "path (hptr u) base ys base" "spaced (hsize u) ys (ubrk t)"
    "uspace (hsize u) ys = uspace (hsize t) (as @ [p]) \<union> uspace (hsize t) (bp # rest)" "ubrk u = ubrk t"
    "hsize u = (hsize t)(p := hsize u p)" "hsize t p \<le> hsize u p" "hsize u p = (if p + 8 * hsize t p = bp then hsize t p + hsize t bp else hsize t p)"
proof -
  have fit: "p + 8 * hsize t p \<le> bp" "bp + 8 * hsize t bp \<le> ubrk t"
    using spaced_top [OF sp(1), of p] spaced_top [OF sp(2), of bp] by auto
  have ha: "hadd p (hsize t p) = p + 8 * hsize t p" using fit brk by (intro hadd_small) simp
  show "hsize u p = (if p + 8 * hsize t p = bp then hsize t p + hsize t bp else hsize t p)" using fit brk by (simp add: u join_lower_def ha)
  show "ubrk u = ubrk t" "hsize u = (hsize t)(p := hsize u p)" by (auto simp: u join_lower_def fun_eq_iff)
  have "path (hptr u) base ys base \<and> spaced (hsize u) ys (ubrk t) \<and>
    uspace (hsize u) ys = uspace (hsize t) (as @ [p]) \<union> uspace (hsize t) (bp # rest) \<and> hsize t p \<le> hsize u p"
  proof (cases "p + 8 * hsize t p = bp")
    case True
    have sm: "(hsize t p + hsize t bp) mod 2 ^ 32 = hsize t p + hsize t bp" using fit brk by simp
    have e: "{p ..< p + 8 * (hsize t p + hsize t bp)} = {p ..< p + 8 * hsize t p} \<union> {bp ..< bp + 8 * hsize t bp}"
      using True by auto
    have "spaced ((hsize t)(p := hsize t p + hsize t bp)) (p # rest) (ubrk t)"
      using sp(2) ne True by (cases rest) (auto simp: add_mult_distrib2)
    moreover have "last as + 8 * hsize t (last as) < p" "spaced (hsize t) as p" "last as \<noteq> p" if "as \<noteq> []"
      using sp(1) that ne(1) last_in_set [OF that] by (auto simp: spaced_append)
    ultimately have "spaced (hsize u) ys (ubrk t)" using ne True sm unfolding u ys join_lower_def ha
      by (cases "as = []") (auto simp: spaced_append)
    then show ?thesis using pt ne True sm e unfolding u ys join_lower_def ha by (auto simp: path_append)
  next
    case False
    then have "p + 8 * hsize t p < bp" using fit(1) by simp
    then show ?thesis using pt sp ne False unfolding u ys join_lower_def ha by (auto simp: path_append spaced_append)
  qed
  then show "path (hptr u) base ys base" "spaced (hsize u) ys (ubrk t)"
    "uspace (hsize u) ys = uspace (hsize t) (as @ [p]) \<union> uspace (hsize t) (bp # rest)" "hsize t p \<le> hsize u p" by auto
qed

text \<open>The place of an address in the list.\<close>

lemma ulist_split:
  assumes u: "ulist base xs s" and bp: "base < bp" "bp \<notin> set xs"
  obtains as p bs where "base # xs = as @ p # bs" "p < bp" "\<forall>b \<in> set bs. bp < b"
proof -
  define a b where ab: "a = takeWhile (\<lambda>x. x < bp) (base # xs)" "b = dropWhile (\<lambda>x. x < bp) (base # xs)"
  have so: "sorted_wrt (<) (base # xs)" using u spaced_sorted unfolding ulist_def by blast
  have ne: "a \<noteq> []" using bp(1) by (simp add: ab)
  have "base # xs = a @ b" unfolding ab by (rule takeWhile_dropWhile_id [symmetric])
  then have e: "base # xs = butlast a @ last a # b" using append_butlast_last_id [OF ne] by simp
  moreover have "last a < bp" using last_in_set [OF ne] unfolding ab by (rule set_takeWhileD [THEN conjunct2])
  moreover have "\<forall>x \<in> set b. bp < x"
  proof (cases b)
    case (Cons c cs)
    then have "\<not> c < bp" using hd_dropWhile [of "\<lambda>x. x < bp" "base # xs"] by (simp add: ab del: dropWhile.simps)
    moreover have "c \<in> set (base # xs)" unfolding e using Cons by simp
    ultimately have "bp < c" using bp by (cases "c = bp") auto
    moreover have "\<forall>d \<in> set cs. c < d" using so [unfolded e] Cons by (simp add: sorted_wrt_append)
    ultimately show ?thesis using Cons by auto
  qed simp
  ultimately show ?thesis by (rule that)
qed


lemma ulistD:
  assumes "ulist base xs s"
  shows "0 < base" "path (hptr s) base (base # xs) base" "spaced (hsize s) (base # xs) (ubrk s)" "hsize s base = 0"
    "x \<in> set xs \<Longrightarrow> 0 < hsize s x" "ufreep s \<in> set (base # xs)" "ubrk s < 2 ^ 31" "sorted_wrt (<) (base # xs)" "base < ubrk s"
  using assms spaced_sorted [of "hsize s" "base # xs" "ubrk s"] unfolding ulist_def by auto

lemma block_fits:
  assumes u: "ulist base xs s" and d: "base # xs = as @ p # bs" "p < bp" "\<forall>b \<in> set bs. bp < b" and n: "0 < n"
    and dj: "{bp ..< bp + 8 * n} \<inter> uspace (hsize s) xs = {}"
  shows "p + 8 * hsize s p \<le> bp" "bs \<noteq> [] \<longrightarrow> bp + 8 * n \<le> hd bs"
proof -
  have sub: False if "x \<in> set (base # xs)" "bp \<le> a" "a < bp + 8 * n" "x \<le> a" "a < x + 8 * hsize s x" for x a
  proof -
    have "x \<in> set xs" using that ulistD(4) [OF u] by auto
    then have "a \<in> uspace (hsize s) xs" using that by (auto simp: uspace_def)
    then show False using dj that by auto
  qed
  have "p \<in> set (base # xs)" unfolding d(1) by simp
  then show "p + 8 * hsize s p \<le> bp" using sub [of p bp] d(2) n by force
  show "bs \<noteq> [] \<longrightarrow> bp + 8 * n \<le> hd bs"
  proof
    assume "bs \<noteq> []"
    then have b: "hd bs \<in> set xs" "bp < hd bs" using d(1,3) by (cases as; auto)+
    then show "bp + 8 * n \<le> hd bs" using sub [of "hd bs" "hd bs"] ulistD(5) [OF u b(1)] by force
  qed
qed

lemma free_joined:
  assumes u: "ulist base xs s" and bp: "base < bp" "0 < hsize s bp" "bp + 8 * hsize s bp \<le> ubrk s"
    and d: "base # xs = as @ p # bs" "p < bp" "\<forall>b \<in> set bs. bp < b"
    and fit: "p + 8 * hsize s p \<le> bp" "bs \<noteq> [] \<longrightarrow> bp + 8 * hsize s bp \<le> hd bs"
    and t: "t = join_lower bp p (join_upper bp p s)"
  shows "\<exists>ys. path (hptr t) base (base # ys) base \<and> spaced (hsize t) (base # ys) (ubrk s) \<and>
    uspace (hsize t) (base # ys) = uspace (hsize s) (base # xs) \<union> {bp ..< bp + 8 * hsize s bp} \<and> ubrk t = ubrk s \<and>
    p \<in> set (base # ys) \<and> set ys \<subseteq> insert bp (set xs) \<and> (\<forall>a. a \<noteq> p \<longrightarrow> a \<noteq> bp \<longrightarrow> hsize t a = hsize s a) \<and>
    hsize s p \<le> hsize t p \<and> hsize s bp \<le> hsize t bp \<and> (p = base \<longrightarrow> hsize t p = hsize s p) \<and> (\<exists>x \<in> set ys. hsize s bp \<le> hsize t x)"
proof -
  note U = ulistD [OF u]
  define t1 where "t1 = join_upper bp p s"
  define rest where "rest = above bp (hsize s bp) bs"
  define L where "L = as @ p # (if p + 8 * hsize t1 p = bp then rest else bp # rest)"
  have so: "sorted_wrt (<) (as @ p # bs)" and pt: "path (hptr s) base as p" "path (hptr s) (hptr s p) bs base"
    and sp: "spaced (hsize s) bs (ubrk s)" "spaced (hsize s) (as @ [p]) bp"
    using U(2,3,8) [unfolded d(1)] fit(1) by (cases bs; auto simp: path_append spaced_append)+
  have out: "p \<notin> set as" "bp \<notin> set as" "bp \<notin> set bs" "p \<notin> set bs" "p \<noteq> bp" using so d(2,3) by (auto simp: sorted_wrt_append)
  note J = join_upper_ok [OF pt(2) sp(1) out(3,5) bp(1) fit(2) bp(3) U(7) t1_def rest_def]
  have rs: "p \<notin> set rest" "bp \<notin> set rest" using J(8) out by auto
  have pt1: "path (hptr t1) base as p" using pt(1) out(2) by (subst J(5)) simp
  have sp1: "spaced (hsize t1) (as @ [p]) bp" using sp(2) out(2,5) by (subst J(6)) simp
  have us1: "uspace (hsize t1) (as @ [p]) = uspace (hsize s) (as @ [p])" using out(2,5) by (subst J(6)) simp
  have brk: "ubrk t1 < 2 ^ 31" using J(7) U(7) by simp
  note K = join_lower_ok [OF pt1 J(1) sp1 J(2) [folded J(7)] out(1,2,5) rs(1,2) brk t [folded t1_def] L_def]
  obtain ys where ys: "L = base # ys" using d(1) by (cases as) (auto simp: L_def)
  have p1: "hsize t1 p = hsize s p" using J(6) out(5) by (metis fun_upd_apply)
  have pb: "p = base \<longleftrightarrow> as = []" using d(1) out(1) by (cases as) auto
  have nl: "p + 8 * hsize t1 p \<noteq> bp" if "p = base" using p1 that U(4) bp(1) by simp
  have "\<exists>x \<in> set ys. hsize s bp \<le> hsize t x"
  proof (cases "p + 8 * hsize t1 p = bp")
    case True
    then have "p \<in> set ys" using ys nl pb by (cases as) (auto simp: L_def)
    then show ?thesis using True K(7) J(4) by (intro bexI [of _ p]) auto
  next
    case False
    then have "bp \<in> set ys" using ys bp(1) by (cases as) (auto simp: L_def)
    then show ?thesis using K(5) J(4) out(5) by (metis fun_upd_apply)
  qed
  moreover have "set ys \<subseteq> insert bp (set xs)"
  proof -
    have "base \<notin> set ys" using spaced_sorted [OF K(2)] by (auto simp: ys)
    moreover have "set L \<subseteq> insert bp (set (base # xs))" unfolding d(1) L_def using J(8) by auto
    ultimately show ?thesis unfolding ys by auto
  qed
  moreover have "uspace (hsize t) L = uspace (hsize s) (base # xs) \<union> {bp ..< bp + 8 * hsize s bp}" 
    unfolding K(3) us1 J(3) d(1) by auto
  moreover have "p \<in> set L" by (simp add: L_def)
  moreover have "hsize t a = hsize s a" if "a \<noteq> p" "a \<noteq> bp" for a using that K(5) J(6) by (metis fun_upd_apply)
  moreover have "hsize s p \<le> hsize t p" "p = base \<longrightarrow> hsize t p = hsize s p" using K(6,7) p1 nl by auto
  moreover have "hsize s bp \<le> hsize t bp" using J(4) out(5) K(5) by (metis fun_upd_apply)
  ultimately show ?thesis using K(1,2,4) J(7) ys by (intro exI [of _ ys]) simp
qed


lemma u_free_ok:
  assumes u: "ulist base xs s" and bp: "base < bp" "0 < hsize s bp" "bp + 8 * hsize s bp \<le> ubrk s"
    and dj: "{bp ..< bp + 8 * hsize s bp} \<inter> uspace (hsize s) xs = {}"
  shows "\<exists>t ys. u_free (bp + 8) s = Some t \<and> ulist base ys t \<and> uspace (hsize t) ys = uspace (hsize s) xs \<union> {bp ..< bp + 8 * hsize s bp} \<and>
    ubrk t = ubrk s \<and> (\<forall>a. a \<notin> set (base # xs) \<longrightarrow> a \<noteq> bp \<longrightarrow> hsize t a = hsize s a) \<and> (\<exists>x \<in> set ys. hsize s bp \<le> hsize t x)"
proof -
  note U = ulistD [OF u]
  have bpn: "bp \<notin> set xs"
  proof
    assume "bp \<in> set xs"
    then have "bp \<in> uspace (hsize s) xs" using bp(2) by (auto simp: uspace_def)
    then show False using dj bp(2) by (auto simp: disjoint_iff)
  qed
  obtain as p bs where d: "base # xs = as @ p # bs" "p < bp" "\<forall>b \<in> set bs. bp < b" by (rule ulist_split [OF u bp(1) bpn])
  define t0 where "t0 = join_lower bp p (join_upper bp p s)"
  define t where "t = t0\<lparr>ufreep := p\<rparr>"
  obtain ys where Y: "path (hptr t) base (base # ys) base" "spaced (hsize t) (base # ys) (ubrk s)"
    "uspace (hsize t) (base # ys) = uspace (hsize s) (base # xs) \<union> {bp ..< bp + 8 * hsize s bp}" "ubrk t = ubrk s"
    "p \<in> set (base # ys)" "set ys \<subseteq> insert bp (set xs)" "\<forall>a. a \<noteq> p \<longrightarrow> a \<noteq> bp \<longrightarrow> hsize t a = hsize s a"
    "hsize s p \<le> hsize t p" "hsize s bp \<le> hsize t bp" "p = base \<longrightarrow> hsize t p = hsize s p" "\<exists>x \<in> set ys. hsize s bp \<le> hsize t x"
    using free_joined [OF u bp d block_fits [OF u d bp(2) dj] t0_def] by (auto simp: t_def)
  have b0: "hsize t base = 0" using Y(7,10) bp(1) U(4) by (cases "p = base") auto
  have "0 < hsize t x" if "x \<in> set ys" for x
    using that Y(6,7,8,9) U(5) [of x] bp(2) by (cases "x = bp"; cases "x = p") auto
  then have "ulist base ys t" using Y(1,2,4,5) U(1,7,9) b0 by (simp add: ulist_def t_def)
  moreover have "u_free (bp + 8) s = Some t"
    using free_find_ok [OF u d(1) bp(1) d(2,3) U(6)] by (simp add: u_free_def t_def t0_def)
  moreover have "p \<in> set (base # xs)" using d(1) by simp
  ultimately show ?thesis using Y(3,4,7,11) U(4) b0 by (intro exI [of _ t] exI [of _ ys]) auto
qed


section \<open>malloc\<close>

text \<open>What \<^verbatim>\<open>malloc\<close> does with a block \<open>p\<close> that is large enough.\<close>

definition malloc_take :: "nat \<Rightarrow> nat \<Rightarrow> nat \<Rightarrow> um_state \<Rightarrow> nat \<times> um_state" where
  "malloc_take n prevp p s =
     (if hsize s p = n then (hadd p 1, s\<lparr>hptr := (hptr s)(prevp := hptr s p), ufreep := prevp\<rparr>)
      else (let m = hsize s p - n; q = hadd p m in
            (hadd q 1, s\<lparr>hsize := (hsize s)(p := m, q := n), ufreep := prevp\<rparr>)))"

lemma malloc_step:
  "n \<le> hsize s p \<Longrightarrow> malloc_loop lim n prevp p s = Some (malloc_take n prevp p s)"
  "hsize s p < n \<Longrightarrow> p \<noteq> ufreep s \<Longrightarrow> malloc_loop lim n prevp p s = malloc_loop lim n p (hptr s p) s"
  "hsize s p < n \<Longrightarrow> p = ufreep s \<Longrightarrow> malloc_loop lim n prevp p s = (case morecore lim n s of None \<Rightarrow> None
     | Some (r, s') \<Rightarrow> if r = 0 then Some (0, s') else malloc_loop lim n r (hptr s' r) s')"
  by (subst malloc_loop.simps, simp add: malloc_take_def Let_def)+

text \<open>The scan visits the blocks from \<open>p\<close> on, \<open>ufreep\<close> last.\<close>

lemma malloc_scan:
  assumes "path (hptr s) p zs (ufreep s)" "ufreep s \<notin> set zs" "hptr s prevp = p" "prevp \<in> A" "insert (ufreep s) (set zs) \<subseteq> A"
  shows "(\<exists>y z. z \<in> insert (ufreep s) (set zs) \<and> y \<in> A \<and> hptr s y = z \<and> n \<le> hsize s z \<and> malloc_loop lim n prevp p s = Some (malloc_take n y z s)) \<or>
    ((\<forall>z \<in> insert (ufreep s) (set zs). hsize s z < n) \<and>
     malloc_loop lim n prevp p s = (case morecore lim n s of None \<Rightarrow> None
       | Some (r, s') \<Rightarrow> if r = 0 then Some (0, s') else malloc_loop lim n r (hptr s' r) s'))"
  using assms
proof (induction zs arbitrary: p prevp)
  case Nil
  then have p: "p = ufreep s" by simp
  show ?case
  proof (cases "n \<le> hsize s p")
    case True
    then show ?thesis using Nil p malloc_step(1) [OF True] by (intro disjI1 exI [of _ prevp] exI [of _ p]) auto
  next
    case False
    then show ?thesis using Nil p malloc_step(3) [of s p n lim prevp] by auto
  qed
next
  case (Cons z zs)
  then have p: "z = p" "path (hptr s) (hptr s p) zs (ufreep s)" "p \<noteq> ufreep s" "p \<in> A" by auto
  show ?case
  proof (cases "n \<le> hsize s p")
    case True
    then show ?thesis using p Cons.prems malloc_step(1) [OF True] by (intro disjI1 exI [of _ prevp] exI [of _ p]) auto
  next
    case False
    then have e: "malloc_loop lim n prevp p s = malloc_loop lim n p (hptr s p) s"
      using p(3) by (intro malloc_step(2)) auto
    have "ufreep s \<notin> set zs" "insert (ufreep s) (set zs) \<subseteq> A" using Cons.prems by auto
    from Cons.IH [OF p(2) this(1) refl p(4) this(2)] show ?thesis using False p(1) unfolding e by fastforce
  qed
qed

lemma ulist_cycle:
  assumes u: "ulist base xs s"
  obtains zs where "path (hptr s) (hptr s (ufreep s)) zs (ufreep s)" "ufreep s \<notin> set zs" "insert (ufreep s) (set zs) = set (base # xs)"
proof -
  note U = ulistD [OF u]
  obtain as bs where d: "base # xs = as @ ufreep s # bs" using split_list [OF U(6)] by blast
  have "path (hptr s) (hptr s (ufreep s)) (bs @ as) (ufreep s)" using U(2) [unfolded d] by (auto simp: path_append)
  moreover have "ufreep s \<notin> set (bs @ as)" using U(8) [unfolded d] by (auto simp: sorted_wrt_append)
  moreover have "insert (ufreep s) (set (bs @ as)) = set (base # xs)" unfolding d by auto
  ultimately show ?thesis by (rule that)
qed

lemma malloc_found:
  assumes u: "ulist base xs s" and n: "0 < n"
  shows "(\<exists>y z. z \<in> set xs \<and> y \<in> set (base # xs) \<and> hptr s y = z \<and> n \<le> hsize s z \<and>
      malloc_loop lim n (ufreep s) (hptr s (ufreep s)) s = Some (malloc_take n y z s)) \<or>
    ((\<forall>z \<in> set xs. hsize s z < n) \<and>
     malloc_loop lim n (ufreep s) (hptr s (ufreep s)) s = (case morecore lim n s of None \<Rightarrow> None
       | Some (r, s') \<Rightarrow> if r = 0 then Some (0, s') else malloc_loop lim n r (hptr s' r) s'))"
proof -
  obtain zs where z: "path (hptr s) (hptr s (ufreep s)) zs (ufreep s)" "ufreep s \<notin> set zs" "insert (ufreep s) (set zs) = set (base # xs)"
    by (rule ulist_cycle [OF u])
  show ?thesis
    using malloc_scan [OF z(1,2) refl, of "set (base # xs)" n lim] ulistD(4,6) [OF u] n unfolding z(3) by fastforce
qed


text \<open>A block \<open>q\<close> of \<open>n\<close> headers has been taken out of the free space \<open>F\<close>.\<close>

definition taken :: "nat \<Rightarrow> nat \<Rightarrow> nat \<Rightarrow> nat set \<Rightarrow> um_state \<Rightarrow> nat list \<Rightarrow> um_state \<Rightarrow> bool" where
  "taken base q n F s ys t \<longleftrightarrow> ulist base ys t \<and> hsize t q = n \<and> base < q \<and> q + 8 * n \<le> ubrk t \<and> ubrk t = ubrk s \<and>
     {q ..< q + 8 * n} \<inter> uspace (hsize t) ys = {} \<and> {q ..< q + 8 * n} \<union> uspace (hsize t) ys = F \<and>
     (\<forall>a. a \<notin> F \<longrightarrow> hsize t a = hsize s a)"

lemma spaced_disjoint:
  assumes "spaced sz (as @ z # bs) e"
  shows "{z ..< z + 8 * sz z} \<inter> uspace sz (as @ bs) = {}"
proof -
  have "a + 8 * sz a < z" if "a \<in> set as" for a using spaced_less [OF assms that] .
  moreover have "z + 8 * sz z < b" if b': "b \<in> set bs" for b
  proof -
    obtain cs ds where b: "bs = cs @ b # ds" using split_list [OF b'] by blast
    show ?thesis by (rule spaced_less [of sz "as @ z # cs" b ds e z]) (use assms b in simp_all)
  qed
  ultimately show ?thesis by (fastforce simp: uspace_def)
qed

lemma spaced_shrink: "spaced sz (as @ z # bs) e \<Longrightarrow> m \<le> sz z \<Longrightarrow> z \<notin> set as \<Longrightarrow> z \<notin> set bs \<Longrightarrow> spaced (sz(z := m)) (as @ z # bs) e"
  by (cases bs; cases "as = []") (auto simp: spaced_append dest: last_in_set)

lemma spaced_remove: "spaced sz (as @ y # z # bs) e \<Longrightarrow> spaced sz (as @ y # bs) e"
  by (cases bs) (auto simp: spaced_append)

lemma taken_place:
  assumes u: "ulist base xs s" and z: "z \<in> set xs" "y \<in> set (base # xs)" "hptr s y = z"
  obtains as bs where "base # xs = as @ y # z # bs" "spaced (hsize s) ((as @ [y]) @ z # bs) (ubrk s)" "z + 8 * hsize s z \<le> ubrk s"
    "z \<notin> set (as @ [y])" "z \<notin> set bs" "y \<notin> set as" "y \<notin> set bs" "base < z"
    "{z ..< z + 8 * hsize s z} \<inter> uspace (hsize s) ((as @ [y]) @ bs) = {}" "uspace (hsize s) xs = uspace (hsize s) ((as @ [y]) @ z # bs)"
proof -
  note U = ulistD [OF u]
  obtain as cs where d0: "base # xs = as @ y # cs" using split_list [OF z(2)] by blast
  have zb: "z \<noteq> base" using z(1) U(8) by auto
  have "path (hptr s) z cs base" using U(2) [unfolded d0] z(3) by (auto simp: path_append)
  then obtain bs where d: "base # xs = as @ y # z # bs" using zb d0 by (cases cs) auto
  have so: "sorted_wrt (<) (as @ y # z # bs)" using U(8) [unfolded d] .
  have sp: "spaced (hsize s) ((as @ [y]) @ z # bs) (ubrk s)" using U(3) [unfolded d] by simp
  show ?thesis
  proof (rule that [OF d sp _ _ _ _ _ _ spaced_disjoint [OF sp]])
    show "z + 8 * hsize s z \<le> ubrk s" using spaced_top [OF sp, of z] by simp
    show "z \<notin> set (as @ [y])" "z \<notin> set bs" "y \<notin> set as" "y \<notin> set bs" using so by (auto simp: sorted_wrt_append)
    show "base < z" using U(8) z(1) by auto
    show "uspace (hsize s) xs = uspace (hsize s) ((as @ [y]) @ z # bs)" using arg_cong [OF d, of "uspace (hsize s)"] U(4) by simp
  qed
qed

lemma take_all:
  assumes u: "ulist base xs s" and z: "z \<in> set xs" "y \<in> set (base # xs)" "hptr s y = z"
    and t: "t = s\<lparr>hptr := (hptr s)(y := hptr s z), ufreep := y\<rparr>"
  shows "\<exists>ys. taken base z (hsize s z) (uspace (hsize s) xs) s ys t"
proof -
  note U = ulistD [OF u]
  obtain as bs where d: "base # xs = as @ y # z # bs" and sp: "spaced (hsize s) ((as @ [y]) @ z # bs) (ubrk s)" and top: "z + 8 * hsize s z \<le> ubrk s"
    and out: "z \<notin> set (as @ [y])" "z \<notin> set bs" "y \<notin> set as" "y \<notin> set bs" and bz: "base < z"
    and dj: "{z ..< z + 8 * hsize s z} \<inter> uspace (hsize s) ((as @ [y]) @ bs) = {}"
    and F: "uspace (hsize s) xs = uspace (hsize s) ((as @ [y]) @ z # bs)" by (rule taken_place [OF u z])
  obtain ys where ys: "as @ y # bs = base # ys" using d by (cases as) auto
  have "path (hptr t) base (as @ y # bs) base" using U(2) [unfolded d] out t by (auto simp: path_append)
  moreover have "set ys \<subseteq> set xs" using d ys by (cases as) auto
  moreover have "spaced (hsize s) (as @ y # bs) (ubrk s)" using spaced_remove sp by simp
  moreover have "y \<in> set (base # ys)" using ys [symmetric] by simp
  ultimately have "ulist base ys t" using U(1,4,5,7,9) ys t by (auto simp: ulist_def)
  moreover have "uspace (hsize s) ys = uspace (hsize s) ((as @ [y]) @ bs)"
    using arg_cong [OF ys, of "uspace (hsize s)"] U(4) by simp
  ultimately show ?thesis using F dj bz top t by (intro exI [of _ ys]) (auto simp: taken_def)
qed

lemma interval_split:
  fixes a :: nat
  assumes "a \<le> q" "q \<le> e" "{a ..< e} \<inter> R = {}"
  shows "{q ..< e} \<inter> ({a ..< q} \<union> R) = {}" "{q ..< e} \<union> ({a ..< q} \<union> R) = {a ..< e} \<union> R"
  using assms by (auto simp: disjoint_iff)

lemma take_part:
  assumes u: "ulist base xs s" and z: "z \<in> set xs" "y \<in> set (base # xs)" "hptr s y = z" and m: "0 < m" "0 < n" "m + n = hsize s z"
    and t: "t = s\<lparr>hsize := (hsize s)(z := m, z + 8 * m := n), ufreep := y\<rparr>"
  shows "taken base (z + 8 * m) n (uspace (hsize s) xs) s xs t"
proof -
  note U = ulistD [OF u]
  obtain as bs where d: "base # xs = as @ y # z # bs" and sp: "spaced (hsize s) ((as @ [y]) @ z # bs) (ubrk s)" and top: "z + 8 * hsize s z \<le> ubrk s"
    and out: "z \<notin> set (as @ [y])" "z \<notin> set bs" and bz: "base < z"
    and dj: "{z ..< z + 8 * hsize s z} \<inter> uspace (hsize s) ((as @ [y]) @ bs) = {}"
    and F: "uspace (hsize s) xs = uspace (hsize s) ((as @ [y]) @ z # bs)" by (rule taken_place [OF u z])
  let ?q = "z + 8 * m"
  have q: "?q + 8 * n = z + 8 * hsize s z" "?q \<in> {z ..< z + 8 * hsize s z}" "?q \<noteq> z" using m by (auto simp flip: m(3))
  have qn: "?q \<notin> set (base # xs)"
  proof
    assume a: "?q \<in> set (base # xs)"
    have "?q \<in> set xs" using a bz by auto
    moreover have "?q \<in> set ((as @ [y]) @ bs)" using a q(3) unfolding d by auto
    ultimately have "?q \<in> uspace (hsize s) ((as @ [y]) @ bs)" using U(5) by (fastforce simp: uspace_def)
    then show False using dj q(2) by blast
  qed
  then have hs: "uspace (hsize t) xs = uspace ((hsize s)(z := m)) xs" "spaced (hsize t) (base # xs) e = spaced ((hsize s)(z := m)) (base # xs) e" for e
    by (simp_all add: t)
  have "spaced (hsize t) (base # xs) (ubrk s)"
    unfolding hs unfolding d using spaced_shrink [OF sp _ out, of m] m by simp
  then have "ulist base xs t" using U z(2) qn m bz by (auto simp: ulist_def t)
  moreover have "uspace (hsize t) xs = {z ..< ?q} \<union> uspace (hsize s) ((as @ [y]) @ bs)"
  proof -
    have "uspace (hsize t) (base # xs) = uspace ((hsize s)(z := m)) (as @ y # z # bs)" using qn d by (simp add: t)
    moreover have "uspace (hsize t) (base # xs) = uspace (hsize t) xs" using U(4) qn bz by (auto simp: t)
    ultimately show ?thesis using out by auto
  qed
  moreover have "hsize t a = hsize s a" if "a \<notin> uspace (hsize s) xs" for a
    using that q(2) m unfolding F by (auto simp: t)
  moreover note interval_split [OF _ _ dj, of ?q]
  moreover have "uspace (hsize s) xs = {z ..< z + 8 * hsize s z} \<union> uspace (hsize s) ((as @ [y]) @ bs)" unfolding F by auto
  ultimately show ?thesis
    using q(2,3) bz top unfolding taken_def q(1) by (simp add: t)
qed


lemma malloc_take_ok:
  assumes u: "ulist base xs s" and z: "z \<in> set xs" "y \<in> set (base # xs)" "hptr s y = z" and n: "0 < n" "n \<le> hsize s z"
  shows "\<exists>q ys t. malloc_take n y z s = (q + 8, t) \<and> taken base q n (uspace (hsize s) xs) s ys t"
proof (cases "hsize s z = n")
  case True
  have "z + 8 * hsize s z \<le> ubrk s" using spaced_top [OF ulistD(3) [OF u], of z] z(1) by simp
  then have "hadd z 1 = z + 8" using ulistD(7) [OF u] True n by (simp add: hadd_small)
  then show ?thesis using True take_all [OF u z refl] by (auto simp: malloc_take_def)
next
  case False
  define m where "m = hsize s z - n"
  have m: "0 < m" "m + n = hsize s z" using False n by (auto simp: m_def)
  have "z + 8 * hsize s z \<le> ubrk s" using spaced_top [OF ulistD(3) [OF u], of z] z(1) by simp
  then have "hadd z m = z + 8 * m" "hadd (z + 8 * m) 1 = z + 8 * m + 8" using ulistD(7) [OF u] m n by (auto simp: hadd_small)
  then show ?thesis
    using False take_part [OF u z m(1) n(1) m(2) refl] by (auto simp: malloc_take_def Let_def m_def)
qed

text \<open>\<^verbatim>\<open>morecore\<close> adds a block at the break, or fails when the process cannot grow.\<close>

lemma morecore_ok:
  assumes u: "ulist base xs s" and lim: "lim < 2 ^ 31" and n: "8 * n < 2 ^ 31" "k = max 4096 n"
  shows "(lim < ubrk s + 8 * k \<and> morecore lim n s = Some (0, s)) \<or>
    (\<exists>ys t. morecore lim n s = Some (ufreep t, t) \<and> ulist base ys t \<and> ubrk t = ubrk s + 8 * k \<and>
      uspace (hsize t) ys = uspace (hsize s) xs \<union> {ubrk s ..< ubrk t} \<and> (\<exists>x \<in> set ys. n \<le> hsize t x) \<and>
      (\<forall>a. a \<notin> set (base # xs) \<longrightarrow> a \<noteq> ubrk s \<longrightarrow> hsize t a = hsize s a))"
proof -
  note U = ulistD [OF u]
  have k: "(if n < 4096 then 4096 else n) = k" "8 * k < 2 ^ 31" "0 < k" "n \<le> k" using n by auto
  then have "(int k * 8 + 2147483648) mod 4294967296 - 2147483648 = 8 * int k" by simp
  then have mc: "morecore lim n s = (case u_sbrk lim (8 * int k) s of (p, s) \<Rightarrow> if p = - 1 then Some (0, s)
      else (case u_free (hadd (nat p) 1) (s\<lparr>hsize := (hsize s)(nat p := k)\<rparr>) of None \<Rightarrow> None | Some s \<Rightarrow> Some (ufreep s, s)))"
    by (simp add: morecore_def Let_def k(1) mult.commute split: prod.split)
  show ?thesis
  proof (cases "ubrk s + 8 * k \<le> lim")
    case False
    then have "u_sbrk lim (8 * int k) s = (- 1, s)" using k(3) by (simp add: u_sbrk_def)
    then show ?thesis using False by (simp add: mc)
  next
    case True
    define s1 where "s1 = s\<lparr>ubrk := ubrk s + 8 * k, hsize := (hsize s)(ubrk s := k)\<rparr>"
    have sb: "u_sbrk lim (8 * int k) s = (int (ubrk s), s\<lparr>ubrk := ubrk s + 8 * k\<rparr>)"
      using True k(3) by (simp add: u_sbrk_def nat_mult_distrib)
    have lo: "x + 8 * hsize s x \<le> ubrk s" if "x \<in> set (base # xs)" for x using spaced_top [OF U(3) that] .
    have nb: "ubrk s \<notin> set (base # xs)" using lo U(5,9) by force
    have u1: "ulist base xs s1"
      using U nb True lim spaced_mono [OF U(3), of "ubrk s + 8 * k"] by (auto simp: ulist_def s1_def)
    have sp1: "uspace (hsize s1) xs = uspace (hsize s) xs" using nb by (simp add: s1_def)
    have "{ubrk s ..< ubrk s + 8 * k} \<inter> uspace (hsize s1) xs = {}" unfolding sp1 using lo by (fastforce simp: uspace_def)
    then obtain t ys where t: "u_free (ubrk s + 8) s1 = Some t" "ulist base ys t" "uspace (hsize t) ys = uspace (hsize s) xs \<union> {ubrk s ..< ubrk s + 8 * k}"
      "ubrk t = ubrk s + 8 * k" "\<forall>a. a \<notin> set (base # xs) \<longrightarrow> a \<noteq> ubrk s \<longrightarrow> hsize t a = hsize s1 a" "\<exists>x \<in> set ys. k \<le> hsize t x"
      using u_free_ok [OF u1, of "ubrk s"] U(9) k(3) sp1 by (auto simp: s1_def)
    have "hadd (ubrk s) 1 = ubrk s + 8" using U(7) by (simp add: hadd_small)
    then have "morecore lim n s = Some (ufreep t, t)" using sb t(1) by (simp add: mc s1_def)
    moreover have "\<exists>x \<in> set ys. n \<le> hsize t x" using t(6) k(4) by (meson order_trans)
    ultimately show ?thesis using t(2-5) by (intro disjI2 exI [of _ ys] exI [of _ t]) (simp add: s1_def)
  qed
qed


definition uheap :: "nat \<Rightarrow> nat list \<Rightarrow> um_state \<Rightarrow> bool" where
  "uheap base xs s \<longleftrightarrow> ulist base xs s \<or> (ufreep s = 0 \<and> xs = [] \<and> 0 < base \<and> base < ubrk s \<and> ubrk s < 2 ^ 31)"

lemma uheap_init:
  assumes "uheap base xs s"
  obtains s0 where "ulist base xs s0" "ubrk s0 = ubrk s" "\<And>x. x \<noteq> base \<Longrightarrow> hsize s0 x = hsize s x"
    "\<And>lim nbytes. u_malloc base lim nbytes s = malloc_loop lim (nunits_of nbytes) (ufreep s0) (hptr s0 (ufreep s0)) s0"
proof (cases "ufreep s = 0")
  case True
  then have h: "xs = []" "0 < base" "base < ubrk s" "ubrk s < 2 ^ 31"
    using assms ulistD(1,6,8) [of base xs s] by (auto simp: uheap_def)
  show ?thesis
    by (rule that [of "s\<lparr>hptr := (hptr s)(base := base), ufreep := base, hsize := (hsize s)(base := 0)\<rparr>"])
      (use True h in \<open>auto simp: u_malloc_def ulist_def\<close>)
next
  case False
  then show ?thesis using assms by (intro that [of s]) (auto simp: uheap_def u_malloc_def)
qed

lemma nunits_size:
  assumes "nbytes < 2 ^ 31 - 16"
  shows "0 < nunits_of nbytes" "8 * nunits_of nbytes < 2 ^ 31" "nbytes + 8 \<le> 8 * nunits_of nbytes"
  using assms by (auto simp: nunits_of_def)

lemma malloc_loop_ok:
  assumes u: "ulist base xs s" and lim: "lim < 2 ^ 31" and n: "0 < n" "8 * n < 2 ^ 31"
  shows "(\<exists>q t ys. malloc_loop lim n (ufreep s) (hptr s (ufreep s)) s = Some (q + 8, t) \<and> taken base q n (uspace (hsize s) xs \<union> {ubrk s ..< ubrk t}) (s\<lparr>ubrk := ubrk t\<rparr>) ys t) \<or>
    (malloc_loop lim n (ufreep s) (hptr s (ufreep s)) s = Some (0, s) \<and> (\<forall>z \<in> set xs. hsize s z < n) \<and> lim < ubrk s + 8 * max 4096 n)"
  using malloc_found [OF u n(1), of lim]
proof (elim disjE exE conjE)
  fix y z assume "z \<in> set xs" "y \<in> set (base # xs)" "hptr s y = z" "n \<le> hsize s z"
    and e: "malloc_loop lim n (ufreep s) (hptr s (ufreep s)) s = Some (malloc_take n y z s)"
  then obtain q ys t where t: "malloc_take n y z s = (q + 8, t)" "taken base q n (uspace (hsize s) xs) s ys t"
    using malloc_take_ok [OF u _ _ _ n(1)] by blast
  then have "ubrk t = ubrk s" by (simp add: taken_def)
  then show ?thesis using e t by (intro disjI1 exI [of _ q] exI [of _ t] exI [of _ ys]) simp
next
  assume small: "\<forall>z \<in> set xs. hsize s z < n"
    and e: "malloc_loop lim n (ufreep s) (hptr s (ufreep s)) s = (case morecore lim n s of None \<Rightarrow> None
       | Some (r, s') \<Rightarrow> if r = 0 then Some (0, s') else malloc_loop lim n r (hptr s' r) s')"
  from morecore_ok [OF u lim n(2) refl] show ?thesis
  proof (elim disjE exE conjE)
    assume "lim < ubrk s + 8 * max 4096 n" "morecore lim n s = Some (0, s)"
    then show ?thesis using e small by simp
  next
    fix ys t assume m: "morecore lim n s = Some (ufreep t, t)" and ut: "ulist base ys t"
      and sp: "uspace (hsize t) ys = uspace (hsize s) xs \<union> {ubrk s ..< ubrk t}" and big: "\<exists>x \<in> set ys. n \<le> hsize t x"
      and same: "\<forall>a. a \<notin> set (base # xs) \<longrightarrow> a \<noteq> ubrk s \<longrightarrow> hsize t a = hsize s a" and brk: "ubrk t = ubrk s + 8 * max 4096 n"
    have fp: "ufreep t \<noteq> 0" using ulistD(1,6,8) [OF ut] by auto
    obtain y z where yz: "z \<in> set ys" "y \<in> set (base # ys)" "hptr t y = z" "n \<le> hsize t z"
      and e': "malloc_loop lim n (ufreep t) (hptr t (ufreep t)) t = Some (malloc_take n y z t)"
      using malloc_found [OF ut n(1), of lim] big by (auto simp: not_le [symmetric])
    obtain q zs v where v: "malloc_take n y z t = (q + 8, v)" "taken base q n (uspace (hsize t) ys) t zs v"
      using malloc_take_ok [OF ut yz(1-3) n(1) yz(4)] by blast
    have "hsize v a = hsize s a" if a: "a \<notin> uspace (hsize s) xs \<union> {ubrk s ..< ubrk t}" for a
    proof -
      have "a \<notin> set xs" using a ulistD(5) [OF u, of a] by (auto simp: uspace_def)
      moreover have "a \<noteq> ubrk s" using a brk n(1) by auto
      ultimately have "hsize t a = hsize s a" using same ulistD(4) [OF ut] ulistD(4) [OF u] by (cases "a = base") auto
      then show ?thesis using v(2) a by (simp add: taken_def sp)
    qed
    then have "taken base q n (uspace (hsize s) xs \<union> {ubrk s ..< ubrk v}) (s\<lparr>ubrk := ubrk v\<rparr>) zs v"
      using v(2) by (auto simp: taken_def sp)
    then show ?thesis using e e' m v(1) fp by auto
  qed
qed


section \<open>Properties\<close>


text \<open>
  C25. \<^verbatim>\<open>free\<close> of a block that is in the heap and not free returns, and makes exactly its bytes free: the free list stays
  circular, sorted and fully merged, and the headers of all other allocated blocks are as before.
\<close>

theorem free_releases:
  assumes "ulist base xs s" "base < bp" "0 < hsize s bp" "bp + 8 * hsize s bp \<le> ubrk s"
    and "{bp ..< bp + 8 * hsize s bp} \<inter> uspace (hsize s) xs = {}"
  shows "\<exists>t ys. u_free (bp + 8) s = Some t \<and> ulist base ys t \<and> uspace (hsize t) ys = uspace (hsize s) xs \<union> {bp ..< bp + 8 * hsize s bp} \<and>
    ubrk t = ubrk s \<and> (\<forall>a. a \<notin> uspace (hsize t) ys \<longrightarrow> hsize t a = hsize s a)"
proof -
  obtain t ys where t: "u_free (bp + 8) s = Some t" "ulist base ys t" "uspace (hsize t) ys = uspace (hsize s) xs \<union> {bp ..< bp + 8 * hsize s bp}"
    "ubrk t = ubrk s" "\<forall>a. a \<notin> set (base # xs) \<longrightarrow> a \<noteq> bp \<longrightarrow> hsize t a = hsize s a"
    using u_free_ok [OF assms] by blast
  have "hsize t a = hsize s a" if a: "a \<notin> uspace (hsize t) ys" for a
  proof -
    have "a \<notin> set xs" "a \<noteq> bp" using a [unfolded t(3)] assms(3) ulistD(5) [OF assms(1), of a] by (auto simp: uspace_def)
    then show ?thesis using t(5) ulistD(4) [OF t(2)] ulistD(4) [OF assms(1)] by (cases "a = base") auto
  qed
  then show ?thesis using t by blast
qed

section \<open>Witnesses\<close>

text \<open>A program whose heap is still empty, with the static header at 4096 and the break at 8192.\<close>

definition ex_um :: um_state where
  "ex_um = \<lparr>hptr = (\<lambda>_. 0), hsize = (\<lambda>_. 0), ufreep = 0, ubrk = 8192\<rparr>"


text \<open>One free block at 9000, and an allocated one of 5 headers at 8192.\<close>

definition ex_um_used :: um_state where
  "ex_um_used = \<lparr>hptr = (\<lambda>a. if a = 4096 then 9000 else 4096), hsize = (\<lambda>a. if a = 9000 then 10 else if a = 8192 then 5 else 0), ufreep = 9000, ubrk = 12288\<rparr>"

theorem free_releases_witness: "\<exists>t ys. u_free 8200 ex_um_used = Some t \<and> uspace (hsize t) ys = {9000 ..< 9080} \<union> {8192 ..< 8232}"
  using free_releases [of 4096 "[9000]" ex_um_used 8192] by (simp add: ulist_def ex_um_used_def) (metis Un_empty_right)

text \<open>Sizes near \<open>2 ^ 32\<close> are not met: the number of headers wraps around.\<close>

lemma nunits_wraps: "nunits_of 4294967295 = 1" "nunits_of 4294967289 = 1"
  by (simp_all add: nunits_of_def)

text \<open>For a request of 2 GB or more the argument of \<^verbatim>\<open>sbrk\<close> is negative: the process shrinks.\<close>

lemma morecore_shrinks:
  "snd (u_sbrk lim ((int (268435457 * 8) + 2 ^ 31) mod 2 ^ 32 - 2 ^ 31) (s\<lparr>ubrk := 2147483648\<rparr>)) = s\<lparr>ubrk := 8\<rparr>"
  by (simp add: u_sbrk_def)

end
