(* ===== verification/Cron.thy ===== *)
theory Cron
  imports Printf Hw
begin

text \<open>
  The program \<^verbatim>\<open>cron\<close> (\<^verbatim>\<open>cron.c\<close>): the lines of the file \<^verbatim>\<open>crontab\<close>, the five time fields and the command of a line, and one
  pass over the lines, which runs the commands whose fields match the time. Accesses outside an array or through a
  pointer that was never set are errors. Not modelled: the memory that holds the lines and fields is never short, and
  what is freed or leaked.
\<close>

datatype cron_err = UnsetParams | MissingFields | RangeOverflow | LongFile

record cronarray =
  ca_size :: nat
  run_when_matched :: "int list"     \<comment> \<open>60 of them\<close>

definition months :: "byte list list" where
  "months = map ascii [''jan'', ''feb'', ''mar'', ''apr'', ''may'', ''jun'', ''jul'', ''aug'', ''sep'', ''oct'', ''nov'', ''dec'']"

definition days :: "byte list list" where
  "days = map ascii [''sun'', ''mon'', ''tue'', ''wed'', ''thu'', ''fri'', ''sat'']"

definition NUMBERS :: "byte list" where
  "NUMBERS = ascii ''123456789''"

fun is_digit_loop :: "byte list \<Rightarrow> byte \<Rightarrow> bool" where
  "is_digit_loop [] c = False"
| "is_digit_loop (d # ds) c = (if c = d then True else is_digit_loop ds c)"

definition is_digit :: "byte \<Rightarrow> bool" where
  "is_digit c = is_digit_loop NUMBERS c"

text \<open>The loops of \<^verbatim>\<open>day_to_int\<close> and \<^verbatim>\<open>month_to_int\<close>: the position of the name in the table.\<close>

fun name_loop :: "byte list list \<Rightarrow> byte list \<Rightarrow> nat \<Rightarrow> nat option" where
  "name_loop [] s i = None"
| "name_loop (n # ns) s i = (if strcmp n s = 0 then Some i else name_loop ns s (i + 1))"

text \<open>The result and what is printed.\<close>

definition day_to_int :: "byte list \<Rightarrow> int \<times> byte list" where
  "day_to_int day = (case name_loop days day 0 of Some i \<Rightarrow> (int i, [])
     | None \<Rightarrow> (- 1, ascii ''there is likely a problem in your day spelling''))"

definition month_to_int :: "byte list \<Rightarrow> int \<times> byte list" where
  "month_to_int month = (case name_loop months month 0 of Some i \<Rightarrow> (int i + 1, [])
     | None \<Rightarrow> (- 1, ascii ''there is likely a problem in your month spelling''))"

text \<open>A number or, in the fields 3 and 4, a name.\<close>

definition cron_value :: "nat \<Rightarrow> byte list \<Rightarrow> byte list \<Rightarrow> int \<times> byte list" where
  "cron_value i initial s =
     (if (i = 3 \<or> i = 4) \<and> \<not> is_digit (hd0 initial) then (if i = 3 then month_to_int s else day_to_int s)
      else (atoi s, []))"

text \<open>\<^verbatim>\<open>for (int k = start; k <= end; k++)\<close>\<close>

function fill_range :: "int \<Rightarrow> int \<Rightarrow> nat \<Rightarrow> int list \<Rightarrow> cron_err + int list \<times> nat" where
  "fill_range k e l run =
     (if k \<le> e then (if l < length run then fill_range (k + 1) e (l + 1) (run[l := k]) else Inl RangeOverflow)
      else Inr (run, l))"
  by pat_completeness auto

termination
  by (relation "measure (\<lambda>(k, e, l, run). nat (e + 1 - k))") auto

declare fill_range.simps [simp del]

text \<open>
  The loop over the characters of the field: every \<^verbatim>\<open>-\<close> makes it a range, from what is before it to what is after it. The
  state is the array, whether there was a \<^verbatim>\<open>-\<close>, and the output.
\<close>

function field_loop :: "nat \<Rightarrow> byte list \<Rightarrow> nat \<Rightarrow> cronarray \<times> bool \<times> byte list \<Rightarrow> cron_err + cronarray \<times> bool \<times> byte list" where
  "field_loop i p j st =
     (if j < length p then
        (if p ! j = 45 then
           (case st of (ca, multi, out) \<Rightarrow>
             let initial = take j p; final = drop (j + 1) p;
                 (start, o1) = cron_value i initial initial; (end', o2) = cron_value i initial final in
             case fill_range start end' 0 (run_when_matched ca) of
               Inl e \<Rightarrow> Inl e
             | Inr (run, l) \<Rightarrow> field_loop i p (j + 1) (\<lparr>ca_size = l, run_when_matched = run\<rparr>, True, out @ o1 @ o2))
         else field_loop i p (j + 1) st)
      else Inr st)"
  by pat_completeness auto

termination
  by (relation "measure (\<lambda>(i, p, j, st). length p - j)") auto

declare field_loop.simps [simp del]

definition cron_field :: "nat \<Rightarrow> byte list \<Rightarrow> cronarray \<Rightarrow> cron_err + cronarray \<times> byte list" where
  "cron_field i p ca =
     (if strcmp p (ascii ''*'') = 0 then Inr (\<lparr>ca_size = 1, run_when_matched = (run_when_matched ca)[0 := - 1]\<rparr>, [])
      else
        (case field_loop i p 0 (ca, False, []) of
           Inl e \<Rightarrow> Inl e
         | Inr (ca, multi, out) \<Rightarrow>
             if \<not> multi then
               (let (v, o1) = cron_value i p p in Inr (\<lparr>ca_size = 1, run_when_matched = (run_when_matched ca)[0 := v]\<rparr>, out @ o1))
             else Inr (ca, out)))"

text \<open>The loop that cuts the line at the spaces; \<open>i\<close> runs up to and including the terminating 0.\<close>

function params_loop :: "byte list \<Rightarrow> nat \<Rightarrow> nat \<Rightarrow> byte list list" where
  "params_loop line off i =
     (if i \<le> length line then
        (if i = length line \<or> line ! i = 32 then take (i - off) (drop off line) # params_loop line (i + 1) (i + 1)
         else params_loop line off (i + 1))
      else [])"
  by pat_completeness auto

termination
  by (relation "measure (\<lambda>(line, off, i). length line + 1 - i)") auto

declare params_loop.simps [simp del]

text \<open>The loop over the five fields; \<open>cs\<close> are the arrays from \<open>i\<close> on.\<close>

fun fields_loop :: "nat \<Rightarrow> byte list list \<Rightarrow> cronarray list \<Rightarrow> cron_err + cronarray list \<times> byte list" where
  "fields_loop i ps [] = Inr ([], [])"
| "fields_loop i [] (c # cs) = Inl MissingFields"
| "fields_loop i (p # ps) (c # cs) =
     (case cron_field i p c of
        Inl e \<Rightarrow> Inl e
      | Inr (c', o1) \<Rightarrow>
          (case fields_loop (i + 1) ps cs of Inl e \<Rightarrow> Inl e | Inr (cs', o2) \<Rightarrow> Inr (c' # cs', o1 @ o2)))"

text \<open>
  \<^verbatim>\<open>get_cron_details\<close> fills the arrays and returns \<^verbatim>\<open>command->argv\<close>. With fewer than five fields it reads, and before that
  writes, outside its arrays.
\<close>

definition get_cron_details :: "byte list \<Rightarrow> cronarray list \<Rightarrow> cron_err + cronarray list \<times> byte list list \<times> byte list" where
  "get_cron_details line cron =
     (if hd0 line \<noteq> 35 \<and> 3 < strlen line then
        (let ps = params_loop (cstr line) 0 0 in
         if length ps < 5 then Inl MissingFields
         else (case fields_loop 0 ps cron of Inl e \<Rightarrow> Inl e | Inr (cron, out) \<Rightarrow> Inr (cron, drop 5 ps, out)))
      else Inl UnsetParams)"

definition int_to_time :: "rtcdate \<Rightarrow> nat \<Rightarrow> int" where
  "int_to_time r i =
     (if i = 0 then sint (rtc_minute r) else if i = 1 then sint (rtc_hour r) else if i = 2 then sint (rtc_day r)
      else if i = 3 then sint (rtc_month r) else if i = 4 then sint (rtc_year r) else - 1)"

section \<open>The file\<close>

text \<open>
  The loop of \<^verbatim>\<open>read_file\<close> that makes the lines out of the \<open>total\<close> bytes of the buffer: a line starts at the newline that
  ended the one before, and that newline is stepped over.
\<close>

function lines_loop :: "byte list \<Rightarrow> nat \<Rightarrow> nat \<Rightarrow> byte list list" where
  "lines_loop buf off i =
     (if i \<le> length buf then
        (if i = length buf \<or> buf ! i = 10 then
           (let line = take (i - off) (drop off buf) in
            (if hd0 line = 10 then tl line else line) # lines_loop buf i (i + 1))
         else lines_loop buf off (i + 1))
      else [])"
  by pat_completeness auto

termination
  by (relation "measure (\<lambda>(buf, off, i). length buf + 1 - i)") auto

declare lines_loop.simps [simp del]

text \<open>
  \<open>chunks\<close> are the results of the calls of \<^verbatim>\<open>read\<close>. Before it appends a second chunk, \<^verbatim>\<open>read_file\<close> takes the \<^verbatim>\<open>strlen\<close> of the
  first one, which has no terminating 0.
\<close>

definition read_file :: "byte list list \<Rightarrow> cron_err + byte list list" where
  "read_file chunks = (case chunks of [] \<Rightarrow> Inr (lines_loop [] 0 0) | [c] \<Rightarrow> Inr (lines_loop c 0 0) | _ \<Rightarrow> Inl LongFile)"

section \<open>A pass over the lines\<close>

text \<open>\<^verbatim>\<open>for (int j = 0; j < cron[i].size; j++)\<close>\<close>

function match_loop :: "int \<Rightarrow> cronarray \<Rightarrow> nat \<Rightarrow> bool \<Rightarrow> bool" where
  "match_loop t ca j matches =
     (if j < ca_size ca then
        (if run_when_matched ca ! 0 \<noteq> - 1 then
           (if t = run_when_matched ca ! j then True else match_loop t ca (j + 1) matches)
         else match_loop t ca (j + 1) True)
      else matches)"
  by pat_completeness auto

termination
  by (relation "measure (\<lambda>(t, ca, j, m). ca_size ca - j)") auto

declare match_loop.simps [simp del]

fun execute_loop :: "rtcdate \<Rightarrow> nat \<Rightarrow> cronarray list \<Rightarrow> bool" where
  "execute_loop r i [] = True"
| "execute_loop r i (c # cs) = (if match_loop (int_to_time r i) c 0 False then execute_loop r (i + 1) cs else False)"

text \<open>What a pass does: the commands it starts, each with its arguments, and the end of the program on an error.\<close>

datatype cron_action = Print1 "byte list" | Spawn "byte list list" | Crash cron_err

fun cron_pass :: "rtcdate \<Rightarrow> byte list list \<Rightarrow> cronarray list \<Rightarrow> cron_action list" where
  "cron_pass r [] cron = []"
| "cron_pass r (line # lines) cron =
     (if hd0 line = 35 \<or> strlen line < 1 then cron_pass r lines cron
      else
        (case get_cron_details line cron of
           Inl e \<Rightarrow> [Crash e]
         | Inr (cron, argv, out) \<Rightarrow>
             (if out = [] then [] else [Print1 out]) @
             (if execute_loop r 0 cron then [Spawn argv] else []) @
             cron_pass r lines cron))"

text \<open>\<^verbatim>\<open>main\<close> first waits for a full minute, in ticks of the clock.\<close>

definition cron_delay :: "rtcdate \<Rightarrow> int" where
  "cron_delay r = (if 0 < rtc_second r then wrap32 (100 * (60 - int (unat (rtc_second r)))) else 0)"


section \<open>Cutting at a separator\<close>

fun joined :: "byte \<Rightarrow> byte list list \<Rightarrow> byte list" where
  "joined c [] = []"
| "joined c [w] = w"
| "joined c (w # v # ws) = w @ c # joined c (v # ws)"

lemma params_word:
  assumes "line = pre @ w @ rest" "32 \<notin> set w" "rest = [] \<or> hd rest = 32" "k \<le> length w"
  shows "params_loop line (length pre) (length pre + k) = w # params_loop line (length pre + length w + 1) (length pre + length w + 1)"
  using assms(4)
proof (induction "length w - k" arbitrary: k)
  case 0
  then have k: "k = length w" by simp
  have "length pre + length w = length line \<or> line ! (length pre + length w) = 32" "length pre + length w \<le> length line"
    using assms(1,3) by (cases rest; simp add: nth_append)+
  then show ?case using assms(1) unfolding k by (subst params_loop.simps) auto
next
  case (Suc n)
  then have k: "k < length w" by simp
  have "line ! (length pre + k) = w ! k" "length pre + k < length line" using assms(1) k by (auto simp: nth_append)
  moreover have "w ! k \<noteq> 32" using k assms(2) nth_mem by metis
  ultimately have "params_loop line (length pre) (length pre + k) = params_loop line (length pre) (length pre + (k + 1))"
    by (subst params_loop.simps) (auto simp: add.assoc)
  then show ?case using Suc k by simp
qed

lemma params_joined:
  assumes "\<forall>w \<in> set ws. 32 \<notin> set w" "ws \<noteq> []"
  shows "params_loop (pre @ joined 32 ws) (length pre) (length pre) = ws"
  using assms
proof (induction ws arbitrary: pre)
  case (Cons w ws)
  show ?case
  proof (cases ws)
    case Nil
    then show ?thesis
      using Cons.prems params_word [of "pre @ w" pre w "[]" 0] params_loop.simps [of "pre @ w" "length pre + length w + 1"] by simp
  next
    case (Cons v vs)
    let ?pre = "pre @ w @ [32]"
    have "params_loop (?pre @ joined 32 ws) (length ?pre) (length ?pre) = ws" using Cons.IH [of ?pre] Cons.prems Cons by simp
    then show ?thesis
      using Cons Cons.prems params_word [of "pre @ joined 32 (w # ws)" pre w "32 # joined 32 ws" 0] by (simp add: One_nat_def)
  qed
qed simp

text \<open>The same for \<^verbatim>\<open>lines_loop\<close>, where \<open>off\<close> is the newline before the line or, for the first line, its start.\<close>

lemma lines_word:
  assumes "buf = pre @ w @ rest" "10 \<notin> set w" "rest = [] \<or> hd rest = 10" "k \<le> length w" "pre = [] \<or> last pre = 10"
  shows "lines_loop buf (length pre - 1) (length pre + k) = w # lines_loop buf (length pre + length w) (length pre + length w + 1)"
  using assms(4)
proof (induction "length w - k" arbitrary: k)
  case 0
  then have k: "k = length w" by simp
  have e: "length pre + length w = length buf \<or> buf ! (length pre + length w) = 10" "length pre + length w \<le> length buf"
    using assms(1,3) by (cases rest; simp add: nth_append)+
  have "(let line = take (length pre + length w - (length pre - 1)) (drop (length pre - 1) buf) in if hd0 line = 10 then tl line else line) = w"
  proof (cases "pre = []")
    case True
    then show ?thesis using assms(1,2) by (cases w) (auto simp: hd0_def)
  next
    case False
    then obtain q where "pre = q @ [10]" using assms(5) append_butlast_last_id [OF False] by metis
    then show ?thesis using assms(1) by (simp add: hd0_def)
  qed
  then show ?case using e unfolding k by (subst lines_loop.simps) (auto simp: Let_def)
next
  case (Suc n)
  then have k: "k < length w" by simp
  have "buf ! (length pre + k) = w ! k" "length pre + k < length buf" using assms(1) k by (auto simp: nth_append)
  moreover have "w ! k \<noteq> 10" using k assms(2) nth_mem by metis
  ultimately have "lines_loop buf (length pre - 1) (length pre + k) = lines_loop buf (length pre - 1) (length pre + (k + 1))"
    by (subst lines_loop.simps) (auto simp: add.assoc)
  then show ?case using Suc k by simp
qed

lemma lines_joined:
  assumes "\<forall>w \<in> set ws. 10 \<notin> set w" "ws \<noteq> []" "pre = [] \<or> last pre = 10"
  shows "lines_loop (pre @ joined 10 ws) (length pre - 1) (length pre) = ws"
  using assms
proof (induction ws arbitrary: pre)
  case (Cons w ws)
  show ?case
  proof (cases ws)
    case Nil
    then show ?thesis
      using Cons.prems lines_word [of "pre @ w" pre w "[]" 0] lines_loop.simps [of "pre @ w" "length pre + length w" "length pre + length w + 1"] by simp
  next
    case (Cons v vs)
    let ?pre = "pre @ w @ [10]"
    have "lines_loop (?pre @ joined 10 ws) (length ?pre - 1) (length ?pre) = ws" using Cons.IH [of ?pre] Cons.prems Cons by simp
    then show ?thesis
      using Cons Cons.prems lines_word [of "pre @ joined 10 (w # ws)" pre w "10 # joined 10 ws" 0] by (simp add: One_nat_def)
  qed
qed simp


section \<open>Fields\<close>

lemma fill_range_ok:
  assumes "l + nat (e + 1 - k) \<le> length run"
  shows "\<exists>run'. fill_range k e l run = Inr (run', l + nat (e + 1 - k)) \<and> length run' = length run \<and>
    (\<forall>m < length run. run' ! m = (if l \<le> m \<and> m < l + nat (e + 1 - k) then k + int (m - l) else run ! m))"
  using assms
proof (induction k e l run rule: fill_range.induct)
  case (1 k e l run)
  show ?case
  proof (cases "k \<le> e")
    case True
    then have c: "nat (e + 1 - k) = Suc (nat (e + 1 - (k + 1)))" by simp
    then have l: "l < length run" using 1(2) by simp
    from 1(1) [OF True l] obtain run' where r: "fill_range (k + 1) e (l + 1) (run[l := k]) = Inr (run', l + nat (e + 1 - k))" "length run' = length run"
      "\<forall>m < length run. run' ! m = (if l + 1 \<le> m \<and> m < l + nat (e + 1 - k) then k + 1 + int (m - (l + 1)) else run[l := k] ! m)"
      using 1(2) c by (auto simp: One_nat_def)
    have "run' ! m = (if l \<le> m \<and> m < l + nat (e + 1 - k) then k + int (m - l) else run ! m)" if "m < length run" for m
      using r(3) that c by (cases "m = l") (auto simp: nth_list_update of_nat_diff)
    then show ?thesis using r True l by (subst fill_range.simps) auto
  qed (simp add: fill_range.simps)
qed

lemma match_loop_wild: "run_when_matched ca ! 0 = - 1 \<Longrightarrow> match_loop t ca j m \<longleftrightarrow> m \<or> j < ca_size ca"
proof (induction t ca j m rule: match_loop.induct)
  case (1 t ca j m)
  then show ?case by (subst match_loop.simps) auto
qed

lemma match_loop_values: "run_when_matched ca ! 0 \<noteq> - 1 \<Longrightarrow> match_loop t ca j m \<longleftrightarrow> m \<or> (\<exists>k. j \<le> k \<and> k < ca_size ca \<and> run_when_matched ca ! k = t)"
proof (induction t ca j m rule: match_loop.induct)
  case (1 t ca j m)
  show ?case
  proof (cases "j < ca_size ca \<and> t \<noteq> run_when_matched ca ! j")
    case True
    then have "match_loop t ca j m = match_loop t ca (j + 1) m" using 1(3) by (subst match_loop.simps) simp
    moreover have "(\<exists>k. j \<le> k \<and> k < ca_size ca \<and> run_when_matched ca ! k = t) \<longleftrightarrow> (\<exists>k. j + 1 \<le> k \<and> k < ca_size ca \<and> run_when_matched ca ! k = t)"
      using True by (metis Suc_eq_plus1 le_antisym not_less_eq_eq Suc_leD)
    ultimately show ?thesis using 1 True by simp
  next
    case False
    then show ?thesis using 1(3) by (subst match_loop.simps) auto
  qed
qed

lemma field_loop_skip: "j \<le> n \<Longrightarrow> n \<le> length p \<Longrightarrow> (\<forall>k. j \<le> k \<longrightarrow> k < n \<longrightarrow> p ! k \<noteq> 45) \<Longrightarrow> field_loop i p j st = field_loop i p n st"
proof (induction "n - j" arbitrary: j)
  case (Suc m)
  then have "j < n" "p ! j \<noteq> 45" by auto
  then have "field_loop i p j st = field_loop i p (j + 1) st" using Suc.prems by (subst field_loop.simps) auto
  then show ?case using Suc.hyps(1) [of "j + 1"] Suc.hyps(2) Suc.prems \<open>j < n\<close> by auto
qed simp

lemma field_loop_end: "length p \<le> j \<Longrightarrow> field_loop i p j st = Inr st"
  by (simp add: field_loop.simps)


text \<open>Decimal numerals.\<close>

definition numeral_text :: "nat \<Rightarrow> byte list" where
  "numeral_text n = u_printint (of_nat n) 10 False"

lemma digits_rev_set: "c \<in> set (digits_rev u_hexdigit 10 x) \<Longrightarrow> 48 \<le> unat c \<and> unat c \<le> 57"
proof (induction x rule: measure_induct_rule [of unat])
  case (less x)
  have base: "\<not> (10 :: u32) \<le> 1" by (simp add: word_le_nat_alt)
  have h: "48 \<le> unat (u_hexdigit (x mod 10)) \<and> unat (u_hexdigit (x mod 10)) \<le> 57"
    unfolding u_hexdigit_10 by (simp add: unat_mod)
  show ?case
  proof (cases "x div 10 = 0")
    case True
    then show ?thesis using less.prems h base by (simp add: digits_rev.simps [of _ 10 x])
  next
    case False
    then have "unat x \<noteq> 0" by (auto simp: unat_eq_0)
    then have "unat (x div 10) < unat x" by (simp add: unat_div)
    then show ?thesis using less False h base by (auto simp: digits_rev.simps [of _ 10 x])
  qed
qed

lemma digits_rev_last: "x \<noteq> 0 \<Longrightarrow> 49 \<le> unat (last (digits_rev u_hexdigit 10 x))"
proof (induction x rule: measure_induct_rule [of unat])
  case (less x)
  have base: "\<not> (10 :: u32) \<le> 1" by (simp add: word_le_nat_alt)
  have x0: "unat x \<noteq> 0" using less.prems by (simp add: unat_eq_0)
  show ?case
  proof (cases "x div 10 = 0")
    case True
    moreover have "unat (x div 10) = unat x div 10" by (simp add: unat_div)
    ultimately have "unat x div 10 = 0" by simp
    then show ?thesis using True base x0 u_hexdigit_10 [of x] by (simp add: digits_rev.simps [of _ 10 x] unat_mod)
  next
    case False
    have "unat (x div 10) < unat x" using x0 by (simp add: unat_div)
    moreover have "digits_rev u_hexdigit 10 (x div 10) \<noteq> []" using base by (subst digits_rev.simps) simp
    ultimately show ?thesis using less.IH [OF _ False] False base by (simp add: digits_rev.simps [of _ 10 x])
  qed
qed


lemma is_digit_iff: "is_digit c \<longleftrightarrow> 49 \<le> unat c \<and> unat c \<le> 57"
proof -
  have "is_digit c \<longleftrightarrow> c \<in> {49, 50, 51, 52, 53, 54, 55, 56, 57}" by (auto simp: is_digit_def NUMBERS_def ascii_def)
  also have "\<dots> \<longleftrightarrow> unat c \<in> {49, 50, 51, 52, 53, 54, 55, 56, 57}" by (simp add: word_unat_eq_iff)
  also have "\<dots> \<longleftrightarrow> 49 \<le> unat c \<and> unat c \<le> 57" by auto
  finally show ?thesis .
qed

lemma numeral_text:
  assumes "n < 2 ^ 31"
  shows "numeral_text n \<noteq> []" "c \<in> set (numeral_text n) \<Longrightarrow> 48 \<le> unat c \<and> unat c \<le> 57" "atoi (numeral_text n) = int n"
    "n \<noteq> 0 \<Longrightarrow> is_digit (hd0 (numeral_text n))"
proof -
  have e: "numeral_text n = rev (digits_rev u_hexdigit 10 (of_nat n))" by (simp add: numeral_text_def u_printint_def)
  have u: "unat (of_nat n :: u32) = n" using assms by (simp add: unat_of_nat)
  show ne: "numeral_text n \<noteq> []" unfolding e by (subst digits_rev.simps) (simp add: word_le_nat_alt)
  show *: "c \<in> set (numeral_text n) \<Longrightarrow> 48 \<le> unat c \<and> unat c \<le> 57" for c unfolding e using digits_rev_set by simp
  show "atoi (numeral_text n) = int n" using atoi_digits [of "of_nat n" "[]"] u assms by (simp add: atoi_def e)
  assume "n \<noteq> 0"
  then have "(of_nat n :: u32) \<noteq> 0" using u by (metis unat_0)
  then have "49 \<le> unat (hd (numeral_text n))" using digits_rev_last by (simp add: e hd_rev)
  moreover have "unat (hd (numeral_text n)) \<le> 57" using * [of "hd (numeral_text n)"] ne by simp
  ultimately show "is_digit (hd0 (numeral_text n))" using ne by (cases "numeral_text n") (auto simp: is_digit_iff hd0_def)
qed

section \<open>Crontab entries\<close>

text \<open>A time field is \<^verbatim>\<open>*\<close>, a value or a range; a value is a number or, for months and days of the week, the position of a name.\<close>

datatype catom = Num nat | Name nat

datatype cspec = Any | One catom | Range catom catom

definition cnames :: "nat \<Rightarrow> byte list list" where
  "cnames i = (if i = 3 then months else if i = 4 then days else [])"

fun atom_text :: "nat \<Rightarrow> catom \<Rightarrow> byte list" where
  "atom_text i (Num n) = numeral_text n"
| "atom_text i (Name k) = cnames i ! k"

fun atom_val :: "nat \<Rightarrow> catom \<Rightarrow> int" where
  "atom_val i (Num n) = int n"
| "atom_val i (Name k) = (if i = 3 then int k + 1 else int k)"

fun atom_ok :: "nat \<Rightarrow> catom \<Rightarrow> bool" where
  "atom_ok i (Num n) \<longleftrightarrow> n < 2 ^ 31 \<and> ((i = 3 \<or> i = 4) \<longrightarrow> n \<noteq> 0)"
| "atom_ok i (Name k) \<longleftrightarrow> k < length (cnames i)"

fun spec_text :: "nat \<Rightarrow> cspec \<Rightarrow> byte list" where
  "spec_text i Any = [42]"
| "spec_text i (One a) = atom_text i a"
| "spec_text i (Range a b) = atom_text i a @ 45 # atom_text i b"

text \<open>Both ends of a range are numbers or both are names, and the range has at most 60 values.\<close>

fun spec_ok :: "nat \<Rightarrow> cspec \<Rightarrow> bool" where
  "spec_ok i Any \<longleftrightarrow> True"
| "spec_ok i (One a) \<longleftrightarrow> atom_ok i a"
| "spec_ok i (Range a b) \<longleftrightarrow> atom_ok i a \<and> atom_ok i b \<and> (\<exists>x. a = Num x) = (\<exists>x. b = Num x) \<and> atom_val i b < atom_val i a + 60"

fun spec_matches :: "nat \<Rightarrow> cspec \<Rightarrow> int \<Rightarrow> bool" where
  "spec_matches i Any t \<longleftrightarrow> True"
| "spec_matches i (One a) t \<longleftrightarrow> t = atom_val i a"
| "spec_matches i (Range a b) t \<longleftrightarrow> atom_val i a \<le> t \<and> t \<le> atom_val i b"

lemma name_chars: "k < length (cnames i) \<Longrightarrow> c \<in> set (cnames i ! k) \<Longrightarrow> 97 \<le> unat c \<and> unat c \<le> 122"
proof -
  have "\<forall>n \<in> set months \<union> set days. \<forall>c \<in> set n. 97 \<le> unat c \<and> unat c \<le> 122" by (simp add: months_def days_def ascii_def)
  then show "k < length (cnames i) \<Longrightarrow> c \<in> set (cnames i ! k) \<Longrightarrow> 97 \<le> unat c \<and> unat c \<le> 122"
    by (auto simp: cnames_def dest!: nth_mem split: if_splits)
qed


lemma strcmp_eq: "0 \<notin> set p \<Longrightarrow> 0 \<notin> set q \<Longrightarrow> strcmp p q = 0 \<longleftrightarrow> p = q"
proof (induction p arbitrary: q)
  case Nil
  then show ?case by (cases q) (auto simp: hd0_def uint_0_iff)
next
  case (Cons c p)
  then show ?case by (cases q) (auto simp: hd0_def uint_0_iff dest: word_uint_eqI)
qed

lemma name_loop_nth:
  assumes "distinct ns" "\<forall>n \<in> set ns. 0 \<notin> set n" "k < length ns"
  shows "name_loop ns (ns ! k) i = Some (i + k)"
  using assms
proof (induction ns arbitrary: i k)
  case (Cons n ns)
  then show ?case by (cases k) (auto simp: strcmp_eq)
qed simp

lemma names_tables: "distinct months" "distinct days" "\<forall>n \<in> set months. 0 \<notin> set n" "\<forall>n \<in> set days. 0 \<notin> set n" "[] \<notin> set months" "[] \<notin> set days"
  by (simp_all add: months_def days_def ascii_def)

lemma atom_chars: "atom_ok i a \<Longrightarrow> c \<in> set (atom_text i a) \<Longrightarrow> 48 \<le> unat c"
  using numeral_text(2) name_chars by (cases a) fastforce+

lemma atom_nonempty: "atom_ok i a \<Longrightarrow> atom_text i a \<noteq> []"
proof (cases a)
  case (Num n)
  then show "atom_ok i a \<Longrightarrow> atom_text i a \<noteq> []" using numeral_text(1) by simp
next
  case (Name k)
  assume "atom_ok i a"
  then show "atom_text i a \<noteq> []" using Name names_tables(5,6) by (auto simp: cnames_def dest: nth_mem split: if_splits)
qed

lemma hd0_mem: "w \<noteq> [] \<Longrightarrow> hd0 w \<in> set w"
  by (cases w) (simp_all add: hd0_def)

lemma cron_value_ok:
  assumes "atom_ok i a" "atom_ok i b" "(\<exists>x. a = Num x) = (\<exists>x. b = Num x)"
  shows "cron_value i (atom_text i a) (atom_text i b) = (atom_val i b, [])"
proof (cases b)
  case (Num n)
  then obtain m where m: "a = Num m" using assms(3) by auto
  show ?thesis using assms(1,2) numeral_text(3) [of n] numeral_text(4) [of m] by (auto simp: cron_value_def Num m)
next
  case (Name k)
  then obtain m where m: "a = Name m" using assms(3) by (cases a) auto
  have "97 \<le> unat (hd0 (cnames i ! m))" using name_chars [of m i "hd0 (cnames i ! m)"] hd0_mem atom_nonempty [OF assms(1)] assms(1) m by simp
  then have nd: "\<not> is_digit (hd0 (cnames i ! m))" by (simp add: is_digit_iff)
  have "i = 3 \<or> i = 4" "k < length (cnames i)" using assms(2) Name by (auto simp: cnames_def split: if_splits)
  then show ?thesis
    using nd name_loop_nth [of months k 0] name_loop_nth [of days k 0] names_tables
    by (auto simp: Name m cron_value_def month_to_int_def day_to_int_def cnames_def)
qed

lemma spec_hd:
  assumes "spec_ok i sp"
  shows "spec_text i sp \<noteq> []" "c \<in> set (spec_text i sp) \<Longrightarrow> 42 \<le> unat c" "sp \<noteq> Any \<Longrightarrow> 48 \<le> unat (hd0 (spec_text i sp))"
proof -
  have a: "atom_ok i a \<Longrightarrow> 48 \<le> unat (hd0 (atom_text i a @ w))" for a w
    using atom_chars [of i a "hd0 (atom_text i a)"] hd0_mem atom_nonempty [of i a] by (cases "atom_text i a") (auto simp: hd0_def)
  show "spec_text i sp \<noteq> []" using assms atom_nonempty by (cases sp) auto
  show "c \<in> set (spec_text i sp) \<Longrightarrow> 42 \<le> unat c" using assms atom_chars by (cases sp) fastforce+
  show "sp \<noteq> Any \<Longrightarrow> 48 \<le> unat (hd0 (spec_text i sp))" using assms a a [of _ "[]"] by (cases sp) auto
qed


lemma atom_val_nonneg: "0 \<le> atom_val i a"
  by (cases a) simp_all

lemma not_star: "spec_ok i sp \<Longrightarrow> sp \<noteq> Any \<Longrightarrow> strcmp (spec_text i sp) (ascii ''*'') \<noteq> 0"
proof -
  assume ok: "spec_ok i sp" "sp \<noteq> Any"
  then have "0 \<notin> set (spec_text i sp)" using spec_hd(2) [OF ok(1), of 0] by auto
  moreover have "spec_text i sp \<noteq> [42]" using spec_hd(3) [OF ok] by (auto simp: hd0_def)
  ultimately show ?thesis by (simp add: strcmp_eq ascii_def)
qed

lemma atom_no_dash: "atom_ok i a \<Longrightarrow> k < length (atom_text i a) \<Longrightarrow> atom_text i a ! k \<noteq> 45"
  using atom_chars [of i a "atom_text i a ! k"] nth_mem [of k "atom_text i a"] by auto

lemma range_field:
  assumes ok: "spec_ok i (Range a b)" and len: "length (run_when_matched ca) = 60"
  shows "\<exists>run'. field_loop i (spec_text i (Range a b)) 0 (ca, False, []) =
      Inr (\<lparr>ca_size = nat (atom_val i b + 1 - atom_val i a), run_when_matched = run'\<rparr>, True, []) \<and> length run' = 60 \<and>
    (\<forall>m < nat (atom_val i b + 1 - atom_val i a). run' ! m = atom_val i a + int m)"
proof -
  let ?p = "spec_text i (Range a b)" and ?n = "length (atom_text i a)" and ?c = "nat (atom_val i b + 1 - atom_val i a)"
  have ab: "atom_ok i a" "atom_ok i b" "(\<exists>x. a = Num x) = (\<exists>x. b = Num x)" "?c \<le> 60" using ok by auto
  have v: "cron_value i (atom_text i a) (atom_text i a) = (atom_val i a, [])" "cron_value i (atom_text i a) (atom_text i b) = (atom_val i b, [])"
    using cron_value_ok ab by auto
  obtain run' where r: "fill_range (atom_val i a) (atom_val i b) 0 (run_when_matched ca) = Inr (run', ?c)" "length run' = 60"
    "\<forall>m < ?c. run' ! m = atom_val i a + int m"
    using fill_range_ok [of 0 "atom_val i b" "atom_val i a" "run_when_matched ca"] ab(4) len by auto
  have p: "?n < length ?p" "?p ! ?n = 45" "take ?n ?p = atom_text i a" "drop (?n + 1) ?p = atom_text i b" by (simp_all add: One_nat_def)
  have "field_loop i ?p 0 (ca, False, []) = field_loop i ?p ?n (ca, False, [])"
    using atom_no_dash [OF ab(1)] by (intro field_loop_skip) (auto simp: nth_append)
  also have "\<dots> = field_loop i ?p (?n + 1) (\<lparr>ca_size = ?c, run_when_matched = run'\<rparr>, True, [])"
    using p v r(1) by (subst field_loop.simps) (simp add: Let_def del: spec_text.simps)
  also have "\<dots> = field_loop i ?p (length ?p) (\<lparr>ca_size = ?c, run_when_matched = run'\<rparr>, True, [])"
  proof (rule field_loop_skip)
    show "\<forall>k. ?n + 1 \<le> k \<longrightarrow> k < length ?p \<longrightarrow> ?p ! k \<noteq> 45"
    proof (intro allI impI)
      fix k assume k: "?n + 1 \<le> k" "k < length ?p"
      then have "?p ! k = atom_text i b ! (k - (?n + 1))" by (simp add: nth_append nth_Cons')
      then show "?p ! k \<noteq> 45" using atom_no_dash [OF ab(2), of "k - (?n + 1)"] k by auto
    qed
  qed simp_all
  finally show ?thesis using r(2,3) by (auto simp: field_loop_end)
qed

lemma cron_field_ok:
  assumes ok: "spec_ok i sp" and len: "length (run_when_matched ca) = 60"
  shows "\<exists>ca'. cron_field i (spec_text i sp) ca = Inr (ca', []) \<and> length (run_when_matched ca') = 60 \<and>
    (\<forall>t. match_loop t ca' 0 False = spec_matches i sp t)"
proof (cases sp)
  case Any
  have "run_when_matched ca \<noteq> []" using len by auto
  then show ?thesis using len by (simp add: Any cron_field_def ascii_def match_loop_wild hd0_def)
next
  case (One a)
  have a: "atom_ok i a" using ok One by simp
  have "field_loop i (atom_text i a) 0 (ca, False, []) = field_loop i (atom_text i a) (length (atom_text i a)) (ca, False, [])"
    using atom_no_dash [OF a] by (intro field_loop_skip) auto
  then have "cron_field i (atom_text i a) ca = Inr (\<lparr>ca_size = 1, run_when_matched = (run_when_matched ca)[0 := atom_val i a]\<rparr>, [])"
    using not_star [OF ok] One cron_value_ok [OF a a] by (simp add: cron_field_def field_loop_end)
  moreover have "run_when_matched ca \<noteq> []" using len by auto
  ultimately show ?thesis using len atom_val_nonneg [of i a] by (auto simp: One match_loop_values less_Suc_eq)
next
  case (Range a b)
  let ?c = "nat (atom_val i b + 1 - atom_val i a)"
  obtain run' where r: "field_loop i (spec_text i sp) 0 (ca, False, []) = Inr (\<lparr>ca_size = ?c, run_when_matched = run'\<rparr>, True, [])"
    "length run' = 60" "\<forall>m < ?c. run' ! m = atom_val i a + int m"
    using range_field [OF ok [unfolded Range] len] unfolding Range by blast
  have "match_loop t \<lparr>ca_size = ?c, run_when_matched = run'\<rparr> 0 False = spec_matches i sp t" for t
  proof (cases "?c = 0")
    case True
    then show ?thesis by (subst match_loop.simps) (simp add: Range)
  next
    case False
    then have "run' ! 0 \<noteq> - 1" using r(3) atom_val_nonneg [of i a] by auto
    moreover have "(\<exists>k < ?c. atom_val i a + int k = t) \<longleftrightarrow> atom_val i a \<le> t \<and> t \<le> atom_val i b"
      by (auto intro!: exI [of _ "nat (t - atom_val i a)"])
    ultimately show ?thesis using r(3) by (auto simp: match_loop_values Range)
  qed
  then show ?thesis using r(1,2) not_star [OF ok] Range by (simp add: cron_field_def)
qed


datatype cline = Comment "byte list" | Blank | Entry "cspec list" "byte list list"

fun spec_texts :: "nat \<Rightarrow> cspec list \<Rightarrow> byte list list" where
  "spec_texts i [] = []"
| "spec_texts i (sp # sps) = spec_text i sp # spec_texts (i + 1) sps"

fun specs_ok :: "nat \<Rightarrow> cspec list \<Rightarrow> bool" where
  "specs_ok i [] \<longleftrightarrow> True"
| "specs_ok i (sp # sps) \<longleftrightarrow> spec_ok i sp \<and> specs_ok (i + 1) sps"

fun specs_match :: "rtcdate \<Rightarrow> nat \<Rightarrow> cspec list \<Rightarrow> bool" where
  "specs_match r i [] \<longleftrightarrow> True"
| "specs_match r i (sp # sps) \<longleftrightarrow> spec_matches i sp (int_to_time r i) \<and> specs_match r (i + 1) sps"

fun line_text :: "cline \<Rightarrow> byte list" where
  "line_text (Comment t) = 35 # t"
| "line_text Blank = []"
| "line_text (Entry sps argv) = joined 32 (spec_texts 0 sps @ argv)"

fun line_ok :: "cline \<Rightarrow> bool" where
  "line_ok (Comment t) \<longleftrightarrow> 10 \<notin> set t"
| "line_ok Blank \<longleftrightarrow> True"
| "line_ok (Entry sps argv) \<longleftrightarrow> length sps = 5 \<and> specs_ok 0 sps \<and> (\<forall>w \<in> set argv. \<forall>c \<in> {0, 10, 32}. c \<notin> set w)"

fun due :: "rtcdate \<Rightarrow> cline list \<Rightarrow> byte list list list" where
  "due r [] = []"
| "due r (Entry sps argv # ls) = (if specs_match r 0 sps then argv # due r ls else due r ls)"
| "due r (_ # ls) = due r ls"

lemma fields_loop_ok:
  assumes "specs_ok i sps" "length cs = length sps" "\<forall>c \<in> set cs. length (run_when_matched c) = 60"
  shows "\<exists>cs'. fields_loop i (spec_texts i sps @ rest) cs = Inr (cs', []) \<and> length cs' = length cs \<and>
    (\<forall>c \<in> set cs'. length (run_when_matched c) = 60) \<and> execute_loop r i cs' = specs_match r i sps"
  using assms
proof (induction sps arbitrary: i cs)
  case Nil
  then show ?case by simp
next
  case (Cons sp sps)
  then obtain c ds where cs: "cs = c # ds" by (cases cs) auto
  obtain c' where c': "cron_field i (spec_text i sp) c = Inr (c', [])" "length (run_when_matched c') = 60"
    "\<forall>t. match_loop t c' 0 False = spec_matches i sp t"
    using cron_field_ok [of i sp c] Cons.prems cs by auto
  obtain ds' where "fields_loop (i + 1) (spec_texts (i + 1) sps @ rest) ds = Inr (ds', [])" "length ds' = length ds"
    "\<forall>c \<in> set ds'. length (run_when_matched c) = 60" "execute_loop r (i + 1) ds' = specs_match r (i + 1) sps"
    using Cons.IH [of "i + 1" ds] Cons.prems cs by auto
  then show ?case using c' by (intro exI [of _ "c' # ds'"]) (simp add: cs)
qed

lemma spec_texts_chars: "specs_ok i sps \<Longrightarrow> w \<in> set (spec_texts i sps) \<Longrightarrow> c \<in> set w \<Longrightarrow> 42 \<le> unat c"
  using spec_hd(2) by (induction i sps rule: spec_texts.induct) auto

lemma joined_chars: "c \<in> set (joined s ws) \<Longrightarrow> c = s \<or> (\<exists>w \<in> set ws. c \<in> set w)"
  by (induction s ws rule: joined.induct) auto

lemma length_joined: "length ws - 1 \<le> length (joined s ws)"
  by (induction s ws rule: joined.induct) auto

lemma hd0_joined: "w \<noteq> [] \<Longrightarrow> hd0 (joined s (w # ws)) = hd0 w"
  by (cases ws; cases w) (simp_all add: hd0_def)

lemma strlen_cstr: "0 \<notin> set s \<Longrightarrow> strlen s = length s \<and> cstr s = s"
  by (induction s) (auto simp: cstr_def)

lemma length_spec_texts [simp]: "length (spec_texts i sps) = length sps"
  by (induction i sps rule: spec_texts.induct) simp_all

lemma entry_chars:
  assumes "line_ok (Entry sps argv)" "w \<in> set (spec_texts 0 sps @ argv)"
  shows "0 \<notin> set w" "10 \<notin> set w" "32 \<notin> set w"
  using assms spec_texts_chars [of 0 sps w 0] spec_texts_chars [of 0 sps w 10] spec_texts_chars [of 0 sps w 32] by auto

lemma line_text_newline: "line_ok l \<Longrightarrow> 10 \<notin> set (line_text l)"
  using entry_chars(2) joined_chars [of 10 32] by (cases l) fastforce+

lemma entry_details:
  assumes ok: "line_ok (Entry sps argv)" and cron: "length cron = 5" "\<forall>c \<in> set cron. length (run_when_matched c) = 60"
  shows "hd0 (line_text (Entry sps argv)) \<noteq> 35" "1 \<le> strlen (line_text (Entry sps argv))"
    "\<exists>cron'. get_cron_details (line_text (Entry sps argv)) cron = Inr (cron', argv, []) \<and> length cron' = 5 \<and>
      (\<forall>c \<in> set cron'. length (run_when_matched c) = 60) \<and> execute_loop r 0 cron' = specs_match r 0 sps"
proof -
  let ?ws = "spec_texts 0 sps @ argv" and ?l = "line_text (Entry sps argv)"
  obtain sp sps' where sps: "sps = sp # sps'" using ok by (cases sps) auto
  have "0 \<notin> set ?l" using joined_chars [of 0 32 ?ws] entry_chars(1) [OF ok] by auto
  then have sl: "strlen ?l = length ?l" "cstr ?l = ?l" using strlen_cstr by auto
  have len: "4 \<le> length ?l" using length_joined [of ?ws 32] ok by simp
  have "spec_ok 0 sp" using ok sps by simp
  then have "42 \<le> unat (hd0 (spec_text 0 sp))" "spec_text 0 sp \<noteq> []" using spec_hd(1,2) hd0_mem by blast+
  then have "42 \<le> unat (hd0 ?l)" by (simp add: sps hd0_joined)
  then show h: "hd0 ?l \<noteq> 35" by auto
  show "1 \<le> strlen ?l" using sl len by simp
  have ps: "params_loop ?l 0 0 = ?ws" using params_joined [of ?ws "[]"] entry_chars(3) [OF ok] sps by simp
  obtain cron' where "fields_loop 0 ?ws cron = Inr (cron', [])" "length cron' = 5" "\<forall>c \<in> set cron'. length (run_when_matched c) = 60"
    "execute_loop r 0 cron' = specs_match r 0 sps"
    using fields_loop_ok [of 0 sps cron argv r] ok cron by auto
  moreover have "drop 5 ?ws = argv" using ok by simp
  ultimately show "\<exists>cron'. get_cron_details ?l cron = Inr (cron', argv, []) \<and> length cron' = 5 \<and>
      (\<forall>c \<in> set cron'. length (run_when_matched c) = 60) \<and> execute_loop r 0 cron' = specs_match r 0 sps"
    using h sl len ps ok by (simp add: get_cron_details_def del: line_text.simps)
qed


section \<open>Properties\<close>


definition ex_date :: rtcdate where
  "ex_date = \<lparr>rtc_second = 0, rtc_minute = 30, rtc_hour = 4, rtc_day = 15, rtc_month = 11, rtc_year = 2021\<rparr>"

definition ex_tab :: "cline list" where
  "ex_tab = [Comment (ascii ''nightly''),
     Entry [One (Num 30), Range (Num 2) (Num 6), Any, Range (Name 9) (Name 11), Any] [ascii ''echo'', ascii ''hi''],
     Entry [One (Num 31), Any, Any, Any, Any] [ascii ''ls'']]"

lemma ex_tab: "\<forall>l \<in> set ex_tab. line_ok l" "ex_tab \<noteq> []" "due ex_date ex_tab = [[ascii ''echo'', ascii ''hi'']]"
  by (auto simp: ex_tab_def ascii_def cnames_def months_def ex_date_def int_to_time_def)

definition ex_cron :: "cronarray list" where
  "ex_cron = replicate 5 \<lparr>ca_size = 0, run_when_matched = replicate 60 0\<rparr>"

lemma ex_cron: "length ex_cron = 5" "\<forall>c \<in> set ex_cron. length (run_when_matched c) = 60"
  by (simp_all add: ex_cron_def)


text \<open>
  A misspelled name, and the day of the week \<^verbatim>\<open>0\<close>, do not keep a job from running: the field then matches every time, like
  \<^verbatim>\<open>*\<close>.
\<close>

lemma misspelled_matches:
  assumes "i = 3 \<or> i = 4" "w \<notin> set (cnames i)" "\<forall>c \<in> set w. c \<noteq> 0 \<and> c \<noteq> 45" "\<not> is_digit (hd0 w)" "w \<noteq> [42]" "length (run_when_matched ca) = 60"
  shows "\<exists>ca' out. cron_field i w ca = Inr (ca', out) \<and> (\<forall>t. match_loop t ca' 0 False)"
proof -
  have w: "0 \<notin> set w" using assms(3) by auto
  have nl: "name_loop ns w k = None" if "w \<notin> set ns" "\<forall>n \<in> set ns. 0 \<notin> set n" for ns k
    using that w by (induction ns arbitrary: k) (auto simp: strcmp_eq)
  have v: "fst (cron_value i w w) = - 1"
    using assms(1,2,4) nl [of months 0] nl [of days 0] names_tables(3,4)
    by (auto simp: cron_value_def month_to_int_def day_to_int_def cnames_def)
  have "field_loop i w 0 (ca, False, []) = field_loop i w (length w) (ca, False, [])"
    using assms(3) by (intro field_loop_skip) auto
  then have "cron_field i w ca = Inr (\<lparr>ca_size = 1, run_when_matched = (run_when_matched ca)[0 := - 1]\<rparr>, snd (cron_value i w w))"
    using v w assms(5) by (simp add: cron_field_def field_loop_end strcmp_eq ascii_def split: prod.split) (auto simp: prod_eq_iff)
  moreover have "run_when_matched ca \<noteq> []" using assms(6) by auto
  ultimately show ?thesis by (simp add: match_loop_wild)
qed

lemma misspelled_example:
  "\<exists>ca' out. cron_field 3 (ascii ''sept'') (hd ex_cron) = Inr (ca', out) \<and> match_loop 2 ca' 0 False"
  using misspelled_matches [of 3 "ascii ''sept''" "hd ex_cron"]
  by (auto simp: ex_cron_def cnames_def months_def ascii_def is_digit_iff hd0_def)

end
