(* ===== verification/Paging.thy ===== *)
theory Paging
  imports Vm
begin

unbundle bit_operations_syntax

text \<open>
  What the page tables of theory Vm mean. \<open>translate\<close> is the walk of the memory management unit: directory entry, table entry, page
  frame. \<open>pt_ok\<close> says that a page directory and its tables are pages of their own outside the free list, and \<open>user_ok\<close> adds that the
  frames of the user part are distinct pages outside both. The lemmas show what \<^verbatim>\<open>walkpgdir\<close>, \<^verbatim>\<open>mappages\<close> and
  \<^verbatim>\<open>deallocuvm\<close> do to the translation, and that each keeps these invariants; theory Uvm goes on with the operations that add pages.
\<close>

section \<open>Page numbers\<close>

definition pgn :: "u32 \<Rightarrow> nat" where "pgn va = unat va div 4096"

lemma u32_less: "unat (a :: u32) < 4294967296"
proof -
  have "unat a < 2 ^ LENGTH(32)" by (rule unsigned_less)
  then show ?thesis by simp
qed

lemma pgn_less: "pgn va < 1048576"
  using u32_less [of va] by (simp add: pgn_def)

lemma PDX_unat: "unat (PDX va) = pgn va div 1024"
proof -
  have "PDX va = take_bit 10 (drop_bit 22 va)" by (simp add: PDX_def take_bit_eq_mask mask_eq_exp_minus_1)
  then have "unat (PDX va) = unat va div 4194304 mod 1024" by (simp add: unat_mod unat_div take_bit_eq_mod drop_bit_eq_div)
  moreover have "unat va div 4194304 < 1024" using u32_less [of va] by simp
  ultimately show ?thesis by (simp add: pgn_def div_mult2_eq [symmetric])
qed

lemma PTX_unat: "unat (PTX va) = pgn va mod 1024"
proof -
  have "PTX va = take_bit 10 (drop_bit 12 va)" by (simp add: PTX_def take_bit_eq_mask mask_eq_exp_minus_1)
  then show ?thesis by (simp add: pgn_def unat_mod unat_div take_bit_eq_mod drop_bit_eq_div)
qed

lemma PDX_less: "PDX va < 1024" and PTX_less: "PTX va < 1024"
  using pgn_less [of va] by (simp_all add: word_less_nat_alt PDX_unat PTX_unat)

lemma PGROUNDDOWN_pgn: "PGROUNDDOWN a = PGROUNDDOWN b \<longleftrightarrow> pgn a = pgn b"
  by (simp add: word_unat_eq_iff PGROUNDDOWN_unat pgn_def)

lemma same_entry: "PDX va = PDX vb \<and> PTX va = PTX vb \<longleftrightarrow> pgn va = pgn vb"
  unfolding word_unat_eq_iff PDX_unat PTX_unat by (metis div_mult_mod_eq)

lemma pgn_PDX_PTX: "pgn va = pgn vb \<Longrightarrow> PDX va = PDX vb" "pgn va = pgn vb \<Longrightarrow> PTX va = PTX vb"
  by (simp_all add: word_unat_eq_iff PDX_unat PTX_unat)

section \<open>Entries and their addresses\<close>

lemma aligned_PGROUNDDOWN: "PGROUNDDOWN a mod PGSIZE = 0"
  by (simp add: aligned_iff PGROUNDDOWN_unat)

lemma PGROUNDDOWN_idem [simp]: "PGROUNDDOWN (PGROUNDDOWN a) = PGROUNDDOWN a"
  by (simp add: page_aligned_down aligned_PGROUNDDOWN)

text \<open>A word of a page.\<close>

lemma page_offset:
  assumes "p mod PGSIZE = 0" "unat i < 4096"
  shows "unat (p + i) = unat p + unat i" "PGROUNDDOWN (p + i) = p"
proof -
  obtain k where k: "unat p = 4096 * k" using assms(1) by (auto simp: aligned_iff mod_eq_0_iff_dvd)
  then have "unat p + unat i < 2 ^ 32" using u32_less [of p] assms(2) by simp
  then show u: "unat (p + i) = unat p + unat i" by (simp add: unat_word_ariths)
  show "PGROUNDDOWN (p + i) = p" using k assms(2) by (simp add: word_unat_eq_iff PGROUNDDOWN_unat u)
qed

lemma entry_unat: "i < 1024 \<Longrightarrow> unat (4 * i :: u32) = 4 * unat i"
  by (simp add: word_less_nat_alt unat_word_ariths)

lemma entry_page: "p mod PGSIZE = 0 \<Longrightarrow> i < 1024 \<Longrightarrow> PGROUNDDOWN (p + 4 * i) = p"
  by (rule page_offset(2)) (simp_all add: entry_unat word_less_nat_alt)

lemma entry_inj:
  assumes "p mod PGSIZE = 0" "q mod PGSIZE = 0" "i < 1024" "j < 1024"
  shows "p + 4 * i = q + 4 * j \<longleftrightarrow> p = q \<and> i = j"
proof
  assume eq: "p + 4 * i = q + 4 * j"
  then have "p = q" using entry_page [of p i] entry_page [of q j] assms by simp
  then have "unat (4 * i) = unat (4 * j)" using eq by simp
  then show "p = q \<and> i = j" using \<open>p = q\<close> assms by (simp add: entry_unat word_unat_eq_iff)
qed simp

lemma entry_times4: "i < 1024 \<Longrightarrow> j < 1024 \<Longrightarrow> 4 * i = 4 * j \<longleftrightarrow> i = (j :: u32)"
  using entry_inj [of 0 0 i j] by simp

lemma P2V_aligned: "P2V p mod PGSIZE = 0 \<longleftrightarrow> p mod PGSIZE = 0"
proof -
  have "unat (P2V p) = (unat p + 4096 * 524288) mod (4096 * 1048576)" by (simp add: P2V_def KERNBASE_def unat_word_ariths)
  then have "unat (P2V p) mod 4096 = unat p mod 4096" by (simp only: mod_mod_cancel [OF dvd_triv_left] mod_mult_self2)
  then show ?thesis by (simp add: aligned_iff)
qed

lemma V2P_aligned: "V2P p mod PGSIZE = 0 \<longleftrightarrow> p mod PGSIZE = 0"
  using P2V_aligned [of "V2P p"] by simp

lemma PTE_ADDR_eq: "PTE_ADDR = PGROUNDDOWN"
  by (simp add: fun_eq_iff PTE_ADDR_def PGROUNDDOWN_def PGSIZE_def)

text \<open>A frame address with flags below it.\<close>

lemma PTE_ADDR_or:
  assumes "p mod PGSIZE = 0" "f AND NOT 0xFFF = 0"
  shows "PTE_ADDR (p OR f) = p"
proof -
  have "p AND NOT 0xFFF = p" using page_aligned_down [OF assms(1)] by (simp add: PGROUNDDOWN_def PGSIZE_def)
  then show ?thesis using assms(2) by (simp add: PTE_ADDR_def bit.conj_disj_distrib2)
qed


section \<open>Translation\<close>

abbreviation present :: "u32 \<Rightarrow> bool" where "present e \<equiv> e AND PTE_P \<noteq> 0"

text \<open>The page table that entry \<open>i\<close> of the directory points to.\<close>

definition ptab :: "(u32 \<Rightarrow> u32) \<Rightarrow> u32 \<Rightarrow> u32 \<Rightarrow> u32" where
  "ptab m d i = P2V (PTE_ADDR (m (d + 4 * i)))"

definition translate :: "(u32 \<Rightarrow> u32) \<Rightarrow> u32 \<Rightarrow> u32 \<Rightarrow> u32 option" where
  "translate m d va =
     (if present (m (d + 4 * PDX va)) then
        (let e = m (ptab m d (PDX va) + 4 * PTX va) in if present e then Some e else None)
      else None)"

definition pt_pages :: "(u32 \<Rightarrow> u32) \<Rightarrow> u32 \<Rightarrow> u32 set" where
  "pt_pages m d = insert d (ptab m d ` {i. i < 1024 \<and> present (m (d + 4 * i))})"

definition pt_wf :: "u32 \<Rightarrow> (u32 \<Rightarrow> u32) \<Rightarrow> u32 \<Rightarrow> bool" where
  "pt_wf e m d \<longleftrightarrow> page_ok e d \<and>
     (\<forall>i < 1024. present (m (d + 4 * i)) \<longrightarrow> page_ok e (ptab m d i) \<and> ptab m d i \<noteq> d) \<and>
     (\<forall>i < 1024. \<forall>j < 1024. present (m (d + 4 * i)) \<longrightarrow> present (m (d + 4 * j)) \<longrightarrow> ptab m d i = ptab m d j \<longrightarrow> i = j)"

lemma translate_pgn: "pgn va = pgn vb \<Longrightarrow> translate m d va = translate m d vb"
  using pgn_PDX_PTX [of va vb] by (simp add: translate_def)

lemma translate_present: "translate m d va = Some e \<Longrightarrow> present e"
  by (auto simp: translate_def Let_def split: if_splits)

lemma page_okD: "page_ok e v \<Longrightarrow> v mod PGSIZE = 0"
  by (simp add: page_ok_def)

lemma pt_wfD:
  assumes "pt_wf e m d"
  shows "d mod PGSIZE = 0" "page_ok e d"
    "i < 1024 \<Longrightarrow> present (m (d + 4 * i)) \<Longrightarrow> page_ok e (ptab m d i) \<and> ptab m d i mod PGSIZE = 0 \<and> ptab m d i \<noteq> d \<and> ptab m d i \<in> pt_pages m d"
    "i < 1024 \<Longrightarrow> j < 1024 \<Longrightarrow> present (m (d + 4 * i)) \<Longrightarrow> present (m (d + 4 * j)) \<Longrightarrow> ptab m d i = ptab m d j \<Longrightarrow> i = j"
  using assms by (auto simp: pt_wf_def page_ok_def pt_pages_def)

lemma pt_pages_ok: "pt_wf e m d \<Longrightarrow> p \<in> pt_pages m d \<Longrightarrow> page_ok e p"
  by (auto simp: pt_pages_def pt_wf_def)

text \<open>Memory outside the directory and its tables does not matter.\<close>

lemma pt_cong:
  assumes wf: "pt_wf e m d" and same: "\<And>a. PGROUNDDOWN a \<in> pt_pages m d \<Longrightarrow> m' a = m a"
  shows "pt_wf e m' d" "pt_pages m' d = pt_pages m d" "translate m' d va = translate m d va"
proof -
  have d: "m' (d + 4 * i) = m (d + 4 * i)" if "i < 1024" for i
    by (rule same) (use that pt_wfD(1) [OF wf] in \<open>simp add: entry_page pt_pages_def\<close>)
  have t: "ptab m' d i = ptab m d i" if "i < 1024" for i using d [OF that] by (simp add: ptab_def)
  show "pt_wf e m' d" using wf d t by (simp add: pt_wf_def)
  show "pt_pages m' d = pt_pages m d" using d t by (force simp: pt_pages_def)
  have "m' (ptab m d (PDX va) + 4 * PTX va) = m (ptab m d (PDX va) + 4 * PTX va)" if "present (m (d + 4 * PDX va))"
    by (rule same) (use pt_wfD(3) [OF wf PDX_less that] in \<open>simp add: entry_page PTX_less\<close>)
  then show "translate m' d va = translate m d va" using d [OF PDX_less] t [OF PDX_less] by (auto simp: translate_def)
qed

text \<open>Storing a table entry.\<close>

lemma pt_store:
  assumes wf: "pt_wf e m d" and va: "present (m (d + 4 * PDX va))" and m': "m' = m(ptab m d (PDX va) + 4 * PTX va := w)"
  shows "pt_wf e m' d" "pt_pages m' d = pt_pages m d"
    "translate m' d vb = (if pgn vb = pgn va then if present w then Some w else None else translate m d vb)"
proof -
  note T = pt_wfD(3) [OF wf PDX_less va]
  have d: "m' (d + 4 * i) = m (d + 4 * i)" if "i < 1024" for i
    using T pt_wfD(1) [OF wf] that PTX_less [of va] by (auto simp: m' entry_inj)
  have t: "ptab m' d i = ptab m d i" if "i < 1024" for i using d [OF that] by (simp add: ptab_def)
  show "pt_wf e m' d" using wf d t by (simp add: pt_wf_def)
  show "pt_pages m' d = pt_pages m d" using d t by (force simp: pt_pages_def)
  show "translate m' d vb = (if pgn vb = pgn va then if present w then Some w else None else translate m d vb)"
  proof (cases "present (m (d + 4 * PDX vb))")
    case True
    note T' = pt_wfD(3) [OF wf PDX_less True]
    have "ptab m d (PDX vb) + 4 * PTX vb = ptab m d (PDX va) + 4 * PTX va \<longleftrightarrow> pgn vb = pgn va"
      using T T' PTX_less pt_wfD(4) [OF wf PDX_less PDX_less True va] same_entry [of vb va] by (auto simp: entry_inj)
    then show ?thesis using True d [OF PDX_less] t [OF PDX_less] by (auto simp: translate_def m')
  next
    case False
    then have "pgn vb \<noteq> pgn va" using va pgn_PDX_PTX(1) [of vb va] by auto
    then show ?thesis using False d [OF PDX_less] by (simp add: translate_def)
  qed
qed

text \<open>A new, empty page table.\<close>

lemma pt_new:
  assumes wf: "pt_wf e m d" and va: "\<not> present (m (d + 4 * PDX va))" and p: "page_ok e p" "p \<notin> pt_pages m d"
    and m': "m' = (page_fill p 0 m)(d + 4 * PDX va := V2P p OR PTE_P OR PTE_W OR PTE_U)"
  shows "pt_wf e m' d" "pt_pages m' d = insert p (pt_pages m d)" "translate m' d vb = translate m d vb"
    "present (m' (d + 4 * PDX va))" "ptab m' d (PDX va) = p"
proof -
  have pm: "p mod PGSIZE = 0" "p \<noteq> d" using p by (auto simp: page_ok_def pt_pages_def)
  have e: "m' (d + 4 * PDX va) = V2P p OR PTE_P OR PTE_W OR PTE_U" by (simp add: m')
  have d: "m' (d + 4 * i) = m (d + 4 * i)" if "i < 1024" "i \<noteq> PDX va" for i
    using that pm pt_wfD(1) [OF wf] PDX_less [of va] by (auto simp: m' entry_inj entry_times4 page_fill_def entry_page)
  have pde: "m' (d + 4 * i) = (if i = PDX va then V2P p OR PTE_P OR PTE_W OR PTE_U else m (d + 4 * i))" if "i < 1024" for i
    using e d [OF that] by simp
  show pr: "present (m' (d + 4 * PDX va))" by (simp add: e pte_defs bit.conj_disj_distrib2)
  show t: "ptab m' d (PDX va) = p"
    using pm(1) by (simp add: ptab_def e PTE_ADDR_or V2P_aligned pte_defs)
  have ti: "ptab m' d i = (if i = PDX va then p else ptab m d i)" if "i < 1024" for i
    using t d [OF that] by (simp add: ptab_def)
  have pi: "present (m' (d + 4 * i)) \<longleftrightarrow> i = PDX va \<or> present (m (d + 4 * i))" if "i < 1024" for i
    using pr va pde [OF that] by (cases "i = PDX va") simp_all
  have new: "p \<noteq> ptab m d i" if "i < 1024" "present (m (d + 4 * i))" for i using that p(2) by (auto simp: pt_pages_def)
  show "pt_wf e m' d" using wf p(1) pm(2) new va by (auto simp: pt_wf_def ti pi)
  show "pt_pages m' d = insert p (pt_pages m d)"
  proof -
    have "{i. i < 1024 \<and> present (m' (d + 4 * i))} = insert (PDX va) {i. i < 1024 \<and> present (m (d + 4 * i))}"
      using PDX_less [of va] pi by blast
    moreover have "ptab m' d ` {i. i < 1024 \<and> present (m (d + 4 * i))} = ptab m d ` {i. i < 1024 \<and> present (m (d + 4 * i))}"
      by (rule image_cong) (use va in \<open>auto simp: ti\<close>)
    ultimately show ?thesis using t by (simp add: pt_pages_def insert_commute)
  qed
  show "translate m' d vb = translate m d vb"
  proof (cases "PDX vb = PDX va")
    case True
    have "m' (p + 4 * PTX vb) = 0"
      using pm pt_wfD(1) [OF wf] PTX_less [of vb] PDX_less [of va] by (auto simp: m' page_fill_def entry_page entry_inj)
    then show ?thesis using True va pr t by (simp add: translate_def)
  next
    case False
    have "m' (ptab m d (PDX vb) + 4 * PTX vb) = m (ptab m d (PDX vb) + 4 * PTX vb)" if "present (m (d + 4 * PDX vb))"
      using pt_wfD(3) [OF wf PDX_less that] new [OF PDX_less that] pt_wfD(1) [OF wf] PTX_less [of vb] PDX_less [of va]
      by (auto simp: m' page_fill_def entry_page entry_inj)
    then show ?thesis using False by (auto simp: translate_def ti PDX_less pde)
  qed
qed


section \<open>Page tables beside the free list\<close>

definition pt_ok :: "'r kmem_state_scheme \<Rightarrow> u32 \<Rightarrow> u32 list \<Rightarrow> bool" where
  "pt_ok s d vs \<longleftrightarrow> kpool s vs \<and> KERNBASE < kend s \<and> pt_wf (kend s) (mem s) d \<and> pt_pages (mem s) d \<inter> set vs = {}"

text \<open>
  A step that only writes the directory and its tables, and may turn free pages into tables.
\<close>

definition pt_ext :: "u32 \<Rightarrow> 'r kmem_state_scheme \<Rightarrow> u32 list \<Rightarrow> 'r kmem_state_scheme \<Rightarrow> u32 list \<Rightarrow> bool" where
  "pt_ext d s vs t ws \<longleftrightarrow> pt_ok t d ws \<and> kmem_frame s t \<and> pt_pages (mem s) d \<subseteq> pt_pages (mem t) d \<and>
     pt_pages (mem t) d \<union> set ws = pt_pages (mem s) d \<union> set vs \<and> (\<forall>a. PGROUNDDOWN a \<notin> pt_pages (mem t) d \<longrightarrow> mem t a = mem s a)"

lemma pt_okD:
  assumes "pt_ok s d vs"
  shows "kmem_inv s vs" "LKmem \<notin> held s" "kpool s vs" "KERNBASE < kend s" "pt_wf (kend s) (mem s) d" "pt_pages (mem s) d \<inter> set vs = {}"
  using assms by (simp_all add: pt_ok_def kpool_def)

lemma kmem_frame_refl: "kmem_frame s s"
  by (simp add: kmem_frame_def)

lemma pt_ext_refl: "pt_ok s d vs \<Longrightarrow> pt_ext d s vs s vs"
  by (simp add: pt_ext_def kmem_frame_refl)

lemma pt_ext_trans: "pt_ext d s vs t ws \<Longrightarrow> pt_ext d t ws u xs \<Longrightarrow> pt_ext d s vs u xs"
  unfolding pt_ext_def using kmem_frame_trans by (metis subsetD subset_trans)

lemma pt_extD:
  assumes "pt_ext d s vs t ws"
  shows "pt_ok t d ws" "kmem_frame s t" "pt_pages (mem s) d \<subseteq> pt_pages (mem t) d" "set ws \<subseteq> set vs" "pt_pages (mem t) d \<subseteq> pt_pages (mem s) d \<union> set vs"
    "PGROUNDDOWN a \<notin> pt_pages (mem t) d \<Longrightarrow> mem t a = mem s a" "kend t = kend s"
  using assms pt_okD(6) [of t d ws] unfolding pt_ext_def kmem_frame_def by blast+

lemma kpool_mem:
  assumes "kpool s vs" "\<And>a. PGROUNDDOWN a \<in> set vs \<Longrightarrow> m a = mem s a"
  shows "kpool (s\<lparr>mem := m\<rparr>) vs"
proof -
  have "free_chain m (freelist s) vs"
    by (rule free_chain_cong [of "mem s"]) (use assms in \<open>auto simp: kpool_def kmem_inv_def page_ok_def page_aligned_down\<close>)
  then show ?thesis using assms(1) by (simp add: kpool_def kmem_inv_def)
qed

lemma walk_find:
  "walkpgdir d va False s = Ok (if present (mem s (d + 4 * PDX va)) then Some (ptab (mem s) d (PDX va) + 4 * PTX va) else None) s"
  by (simp add: walkpgdir_def k_defs ptab_def Let_def)

lemma walk_alloc:
  assumes "pt_ok s d vs"
  shows "wp (walkpgdir d va True) (\<lambda>r t. \<exists>ws. pt_ext d s vs t ws \<and> (\<forall>vb. translate (mem t) d vb = translate (mem s) d vb) \<and> length vs \<le> length ws + 1 \<and>
    (case r of None \<Rightarrow> ws = [] \<and> vs = [] | Some pte \<Rightarrow> present (mem t (d + 4 * PDX va)) \<and> pte = ptab (mem t) d (PDX va) + 4 * PTX va)) s"
proof (cases "present (mem s (d + 4 * PDX va))")
  case True
  then show ?thesis using pt_ext_refl [OF assms] by (auto simp: walkpgdir_def wp_simps ptab_def Let_def)
next
  case False
  note ok = pt_okD [OF assms]
  let ?post = "\<lambda>r t. \<exists>ws. pt_ext d s vs t ws \<and> (\<forall>vb. translate (mem t) d vb = translate (mem s) d vb) \<and> length vs \<le> length ws + 1 \<and>
    (case r of None \<Rightarrow> ws = [] \<and> vs = [] | Some pte \<Rightarrow> present (mem t (d + 4 * PDX va)) \<and> pte = ptab (mem t) d (PDX va) + 4 * PTX va)"
  have "wp (if r = 0 then kreturn None else kbind (zero_page r) (\<lambda>_. kbind (store (d + 4 * PDX va) (V2P r OR PTE_P OR PTE_W OR PTE_U)) (\<lambda>_.
      kreturn (Some (r + 4 * PTX va))))) ?post t"
    if t: "r = (case vs of [] \<Rightarrow> 0 | v # _ \<Rightarrow> v)" "kmem_inv t (tl vs)" "mem t = mem s" "kmem_frame s t" for r t
  proof (cases vs)
    case Nil
    then show ?thesis using t assms by (auto simp: wp_kreturn pt_ext_def pt_ok_def kpool_def kmem_frame_def)
  next
    case (Cons v ws)
    then have v: "r = v" "v \<noteq> 0" "page_ok (kend s) v" "v \<notin> pt_pages (mem s) d" "v \<notin> set ws"
      using t(1) ok(1,6) by (auto simp: kmem_inv_def)
    define m where "m = (page_fill v 0 (mem s))(d + 4 * PDX va := V2P v OR PTE_P OR PTE_W OR PTE_U)"
    note new = pt_new [OF ok(5) _ v(3,4) m_def]
    have "pt_ok (t\<lparr>mem := m\<rparr>) d ws"
      unfolding pt_ok_def
    proof (intro conjI)
      show "kpool (t\<lparr>mem := m\<rparr>) ws"
      proof (rule kpool_mem)
        show "kpool t ws" using t(2,4) ok(2) Cons by (simp add: kpool_def kmem_frame_def)
        show "m a = mem t a" if "PGROUNDDOWN a \<in> set ws" for a
          using that v(5) ok(6) Cons t(3) entry_page [OF pt_wfD(1) [OF ok(5)] PDX_less, of va] by (auto simp: m_def page_fill_def pt_pages_def)
      qed
      show "KERNBASE < kend (t\<lparr>mem := m\<rparr>)" "pt_wf (kend (t\<lparr>mem := m\<rparr>)) (mem (t\<lparr>mem := m\<rparr>)) d"
        using ok(4) t(4) new(1) False by (simp_all add: kmem_frame_def)
      show "pt_pages (mem (t\<lparr>mem := m\<rparr>)) d \<inter> set ws = {}" using new(2) False ok(6) Cons v(5) by auto
    qed
    then have "pt_ext d s vs (t\<lparr>mem := m\<rparr>) ws"
      using t(4) new(2) False Cons entry_page [OF pt_wfD(1) [OF ok(5)] PDX_less, of va]
      by (auto simp: pt_ext_def kmem_frame_def m_def page_fill_def pt_pages_def)
    then show ?thesis using v(1,2) new False t(3) Cons by (auto simp: wp_simps zero_page_def store_def m_def)
  qed
  then show ?thesis
    unfolding walkpgdir_def Let_def wp_kbind wp_kget
    using False by (auto intro: wp_mono [OF kalloc_spec [OF ok(1,2)]] simp: wp_kbind)
qed


lemma store_pte:
  assumes ok: "pt_ok s d vs" and va: "present (mem s (d + 4 * PDX va))"
    and t_def: "t = s\<lparr>mem := (mem s)(ptab (mem s) d (PDX va) + 4 * PTX va := w)\<rparr>"
  shows "pt_ext d s vs t vs" "translate (mem t) d vb = (if pgn vb = pgn va then if present w then Some w else None else translate (mem s) d vb)"
    "pt_pages (mem t) d = pt_pages (mem s) d"
proof -
  note o = pt_okD [OF ok]
  note st = pt_store [OF o(5) va, of "mem t" w] and T = pt_wfD(3) [OF o(5) PDX_less va]
  have p: "PGROUNDDOWN (ptab (mem s) d (PDX va) + 4 * PTX va) = ptab (mem s) d (PDX va)" using T PTX_less by (simp add: entry_page)
  have "kpool t vs" unfolding t_def by (rule kpool_mem [OF o(3)]) (use p T o(6) in auto)
  then have "pt_ok t d vs" using o st by (simp add: pt_ok_def t_def)
  then show "pt_ext d s vs t vs" using st(2) p T by (auto simp: pt_ext_def kmem_frame_def t_def)
  show "translate (mem t) d vb = (if pgn vb = pgn va then if present w then Some w else None else translate (mem s) d vb)"
    by (rule st(3)) (simp add: t_def)
  show "pt_pages (mem t) d = pt_pages (mem s) d" by (rule st(2)) (simp add: t_def)
qed

section \<open>Mapping a range\<close>

text \<open>The entries of the \<open>k\<close> pages from page number \<open>A\<close> on are now those of \<open>f\<close>; the others are as before.\<close>

definition remap :: "u32 \<Rightarrow> 'r kmem_state_scheme \<Rightarrow> 'r kmem_state_scheme \<Rightarrow> nat \<Rightarrow> nat \<Rightarrow> (nat \<Rightarrow> u32 option) \<Rightarrow> bool" where
  "remap d s t A k f \<longleftrightarrow> (\<forall>va. translate (mem t) d va = (if A \<le> pgn va \<and> pgn va < A + k then f (pgn va - A) else translate (mem s) d va))"

lemma remap_0: "remap d s t A 0 f \<longleftrightarrow> (\<forall>va. translate (mem t) d va = translate (mem s) d va)"
  by (simp add: remap_def) (metis leD)

lemma pgn_step:
  assumes "pgn a + i < 1048576"
  shows "pgn (a + of_nat i * PGSIZE) = pgn a + i"
proof -
  have "unat (of_nat i * PGSIZE :: u32) = i * 4096"
    using assms by (simp add: PGSIZE_def unat_word_ariths unat_of_nat)
  moreover have "unat a + i * 4096 < 4294967296" using assms u32_less [of a] by (simp add: pgn_def)
  ultimately have "unat (a + of_nat i * PGSIZE) = unat a + i * 4096" by (simp add: unat_word_ariths)
  then show ?thesis by (simp add: pgn_def)
qed

lemma pgn_PGROUNDDOWN [simp]: "pgn (PGROUNDDOWN a) = pgn a"
  by (simp add: pgn_def PGROUNDDOWN_unat)

definition map_entry :: "u32 \<Rightarrow> u32 \<Rightarrow> nat \<Rightarrow> u32 option" where
  "map_entry pa perm i = Some ((pa + of_nat i * PGSIZE) OR perm OR PTE_P)"

lemma present_or: "present (x OR y OR PTE_P)"
  by (simp add: pte_defs bit.conj_disj_distrib2)

lemma map_page_ok:
  assumes ok: "pt_ok s d vs" and free: "translate (mem s) d a = None"
  shows "wp (map_page d a pa perm) (found_or
    (\<lambda>t. \<exists>ws. pt_ext d s vs t ws \<and> length vs \<le> length ws + 1 \<and> (\<forall>vb. translate (mem t) d vb = (if pgn vb = pgn a then Some (pa OR perm OR PTE_P) else translate (mem s) d vb)))
    (\<lambda>r t. r = - 1 \<and> vs = [] \<and> pt_ext d s vs t [] \<and> (\<forall>vb. translate (mem t) d vb = translate (mem s) d vb))) s"
  unfolding map_page_def
proof (rule wp_seq [OF walk_alloc [OF ok]], elim exE conjE)
  fix r u ws assume u: "pt_ext d s vs u ws" "\<forall>vb. translate (mem u) d vb = translate (mem s) d vb"
    and len: "length vs \<le> length ws + 1"
    and u3: "case r of None \<Rightarrow> ws = [] \<and> vs = [] | Some pte \<Rightarrow> present (mem u (d + 4 * PDX a)) \<and> pte = ptab (mem u) d (PDX a) + 4 * PTX a"
  show "wp (case r of None \<Rightarrow> kreturn (Some (- 1)) | Some pte \<Rightarrow> kbind (kget (\<lambda>s. mem s pte)) (\<lambda>e.
      if e AND PTE_P \<noteq> 0 then kpanic ''remap'' else kbind (store pte (pa OR perm OR PTE_P)) (\<lambda>_. kreturn None)))
      (found_or
    (\<lambda>t. \<exists>ws. pt_ext d s vs t ws \<and> length vs \<le> length ws + 1 \<and> (\<forall>vb. translate (mem t) d vb = (if pgn vb = pgn a then Some (pa OR perm OR PTE_P) else translate (mem s) d vb)))
    (\<lambda>r t. r = - 1 \<and> vs = [] \<and> pt_ext d s vs t [] \<and> (\<forall>vb. translate (mem t) d vb = translate (mem s) d vb))) u"
  proof (cases r)
    case None
    then show ?thesis using u u3 by (simp add: wp_kreturn)
  next
    case (Some pte)
    then have p: "present (mem u (d + 4 * PDX a))" "pte = ptab (mem u) d (PDX a) + 4 * PTX a" using u3 by simp_all
    have "translate (mem u) d a = None" using u(2) free by simp
    then have np: "mem u pte AND PTE_P = 0" using p by (simp add: translate_def Let_def split: if_splits)
    note st = store_pte [OF pt_extD(1) [OF u(1)] p(1), folded p(2), OF refl]
    show ?thesis using Some np pt_ext_trans [OF u(1) st(1)] st(2) u(2) len present_or by (auto simp: wp_simps store_def)
  qed
qed

lemma mappages_loop:
  assumes ok: "pt_ok s d vs" and n: "pgn a + n \<le> 1048576"
    and free: "\<And>va. pgn a \<le> pgn va \<Longrightarrow> pgn va < pgn a + n \<Longrightarrow> translate (mem s) d va = None"
  shows "wp (kfirst [0 ..< n] (\<lambda>i. map_page d (a + of_nat i * PGSIZE) (pa + of_nat i * PGSIZE) perm))
    (found_or (\<lambda>t. \<exists>ws. pt_ext d s vs t ws \<and> length vs \<le> length ws + n \<and> remap d s t (pgn a) n (map_entry pa perm))
       (\<lambda>r t. r = - 1 \<and> (\<exists>k < n. pt_ext d s vs t [] \<and> length vs \<le> k \<and> remap d s t (pgn a) k (map_entry pa perm)))) s"
proof -
  let ?I = "\<lambda>k t. \<exists>ws. pt_ext d s vs t ws \<and> length vs \<le> length ws + k \<and> remap d s t (pgn a) k (map_entry pa perm)"
  let ?Q = "\<lambda>r t. r = - 1 \<and> (\<exists>k < n. pt_ext d s vs t [] \<and> length vs \<le> k \<and> remap d s t (pgn a) k (map_entry pa perm))"
  have step: "wp (map_page d (a + of_nat k * PGSIZE) (pa + of_nat k * PGSIZE) perm) (found_or (?I (Suc k)) ?Q) t"
    if k: "k < n" and t: "?I k t" for k t
  proof -
    let ?va = "a + of_nat k * PGSIZE"
    have va: "pgn ?va = pgn a + k" by (rule pgn_step) (use k n in simp)
    obtain ws where ws: "pt_ext d s vs t ws" "remap d s t (pgn a) k (map_entry pa perm)" "length vs \<le> length ws + k" using t by blast
    have "translate (mem t) d ?va = None" using ws(2) free [of ?va] va k by (simp add: remap_def)
    from map_page_ok [OF pt_extD(1) [OF ws(1)] this] show ?thesis
    proof (rule wp_mono)
      fix r u assume r: "found_or
          (\<lambda>u. \<exists>xs. pt_ext d t ws u xs \<and> length ws \<le> length xs + 1 \<and> (\<forall>vb. translate (mem u) d vb = (if pgn vb = pgn ?va then Some ((pa + of_nat k * PGSIZE) OR perm OR PTE_P) else translate (mem t) d vb)))
          (\<lambda>r u. r = - 1 \<and> ws = [] \<and> pt_ext d t ws u [] \<and> (\<forall>vb. translate (mem u) d vb = translate (mem t) d vb)) r u"
      show "found_or (?I (Suc k)) ?Q r u"
      proof (cases r)
        case None
        then obtain xs where xs: "pt_ext d t ws u xs" "length ws \<le> length xs + 1" and tr: "\<And>vb. translate (mem u) d vb = (if pgn vb = pgn a + k then map_entry pa perm k else translate (mem t) d vb)"
          using r by (auto simp: va map_entry_def)
        have "remap d s u (pgn a) (Suc k) (map_entry pa perm)"
          unfolding remap_def tr using ws(2) by (auto simp: remap_def less_Suc_eq)
        then show ?thesis using None pt_ext_trans [OF ws(1) xs(1)] xs(2) ws(3) by (auto intro!: exI [of _ xs])
      next
        case (Some e)
        then show ?thesis using r ws k by (auto simp: remap_def intro: pt_ext_trans)
      qed
    qed
  qed
  have "wp (kfirst [0 ..< n] (\<lambda>i. map_page d (a + of_nat i * PGSIZE) (pa + of_nat i * PGSIZE) perm)) (found_or (?I (length [0 ..< n])) ?Q) s"
    by (rule wp_kfirst_inv) (use step pt_ext_refl [OF ok] in \<open>auto simp: remap_def\<close>)
  then show ?thesis by simp
qed

lemma mappages_ok:
  assumes ok: "pt_ok s d vs" and n: "pgn (va + sz - 1) = pgn va + n"
    and free: "\<And>vb. pgn va \<le> pgn vb \<Longrightarrow> pgn vb < pgn va + Suc n \<Longrightarrow> translate (mem s) d vb = None"
  shows "wp (mappages d va sz pa perm)
    (\<lambda>r t. (r = 0 \<and> (\<exists>ws. pt_ext d s vs t ws \<and> length vs \<le> length ws + Suc n \<and> remap d s t (pgn va) (Suc n) (map_entry pa perm))) \<or>
       (r = - 1 \<and> (\<exists>k < Suc n. pt_ext d s vs t [] \<and> length vs \<le> k \<and> remap d s t (pgn va) k (map_entry pa perm)))) s"
proof -
  have "unat (PGROUNDDOWN (va + sz - 1) - PGROUNDDOWN va) = (pgn va + n) * 4096 - pgn va * 4096"
    by (simp add: unat_sub word_le_nat_alt PGROUNDDOWN_unat pgn_def [symmetric] n)
  then have c: "unat (PGROUNDDOWN (va + sz - 1) - PGROUNDDOWN va) div 4096 + 1 = Suc n" by (simp add: algebra_simps)
  have "pgn (PGROUNDDOWN va) + Suc n \<le> 1048576" using pgn_less [of "va + sz - 1"] n by simp
  from mappages_loop [OF ok this, of pa perm] show ?thesis
    unfolding mappages_def Let_def c wp_kbind wp_kreturn
    by (rule wp_mono) (use free in \<open>auto split: option.split\<close>)
qed


section \<open>User memory\<close>

definition frame_of :: "u32 \<Rightarrow> u32" where "frame_of e = P2V (PTE_ADDR e)"

definition user_ok :: "'r kmem_state_scheme \<Rightarrow> u32 \<Rightarrow> u32 list \<Rightarrow> bool" where
  "user_ok s d vs \<longleftrightarrow> pt_ok s d vs \<and>
     (\<forall>va e. va < KERNBASE \<longrightarrow> translate (mem s) d va = Some e \<longrightarrow>
        page_ok (kend s) (frame_of e) \<and> frame_of e \<notin> pt_pages (mem s) d \<and> frame_of e \<notin> set vs) \<and>
     (\<forall>va vb e f. va < KERNBASE \<longrightarrow> vb < KERNBASE \<longrightarrow> translate (mem s) d va = Some e \<longrightarrow> translate (mem s) d vb = Some f \<longrightarrow>
        frame_of e = frame_of f \<longrightarrow> pgn va = pgn vb)"

lemma KERNBASE_pgn: "va < KERNBASE \<longleftrightarrow> pgn va < 524288"
  by (simp add: word_less_nat_alt KERNBASE_def pgn_def div_less_iff_less_mult)

lemma user_okD:
  assumes "user_ok s d vs"
  shows "pt_ok s d vs"
    "va < KERNBASE \<Longrightarrow> translate (mem s) d va = Some e \<Longrightarrow> page_ok (kend s) (frame_of e) \<and> frame_of e \<notin> pt_pages (mem s) d \<and> frame_of e \<notin> set vs"
    "va < KERNBASE \<Longrightarrow> vb < KERNBASE \<Longrightarrow> translate (mem s) d va = Some e \<Longrightarrow> translate (mem s) d vb = Some f \<Longrightarrow> frame_of e = frame_of f \<Longrightarrow> pgn va = pgn vb"
  using assms unfolding user_ok_def by blast+

lemma user_ok_sub:
  assumes ok: "user_ok s d vs" "pt_ok t d ws" "kend t = kend s" "pt_pages (mem t) d \<union> set ws \<subseteq> pt_pages (mem s) d \<union> set vs \<union> F"
    and sub: "\<And>va e. va < KERNBASE \<Longrightarrow> translate (mem t) d va = Some e \<Longrightarrow> translate (mem s) d va = Some e \<and> frame_of e \<notin> F"
  shows "user_ok t d ws"
  unfolding user_ok_def
proof (intro conjI allI impI)
  fix va e assume va: "va < KERNBASE" "translate (mem t) d va = Some e"
  note f = user_okD(2) [OF ok(1) va(1)] sub [OF va]
  show "page_ok (kend t) (frame_of e)" using f ok(3) by simp
  show "frame_of e \<notin> pt_pages (mem t) d" "frame_of e \<notin> set ws" using f ok(4) by blast+
next
  fix va vb e f assume v: "va < KERNBASE" "vb < KERNBASE" "translate (mem t) d va = Some e" "translate (mem t) d vb = Some f" "frame_of e = frame_of f"
  then show "pgn va = pgn vb" using user_okD(3) [OF ok(1) v(1,2)] sub by blast
qed (rule ok(2))

text \<open>The frames of the user part, and all pages of an address space and of the free list.\<close>

definition upages :: "(u32 \<Rightarrow> u32) \<Rightarrow> u32 \<Rightarrow> u32 set" where
  "upages m d = {f. \<exists>va e. va < KERNBASE \<and> translate m d va = Some e \<and> f = frame_of e}"

definition owned :: "'r kmem_state_scheme \<Rightarrow> u32 \<Rightarrow> u32 list \<Rightarrow> u32 set" where
  "owned s d vs = pt_pages (mem s) d \<union> upages (mem s) d \<union> set vs"

lemma upagesI: "va < KERNBASE \<Longrightarrow> translate m d va = Some e \<Longrightarrow> frame_of e \<in> upages m d"
  by (auto simp: upages_def)

lemma upages_disjoint: "user_ok s d vs \<Longrightarrow> upages (mem s) d \<inter> (pt_pages (mem s) d \<union> set vs) = {}"
  using user_okD(2) [of s d vs] by (auto simp: upages_def)

lemma upages_cong: "(\<And>va. va < KERNBASE \<Longrightarrow> translate m' d va = translate m d va) \<Longrightarrow> upages m' d = upages m d"
  by (auto simp: upages_def)

text \<open>Steps that give pages back and change the tables, but take no new page.\<close>

definition freed :: "u32 \<Rightarrow> 'r kmem_state_scheme \<Rightarrow> u32 list \<Rightarrow> 'r kmem_state_scheme \<Rightarrow> u32 list \<Rightarrow> bool" where
  "freed d s vs t ws \<longleftrightarrow> user_ok t d ws \<and> kmem_frame s t \<and> pt_pages (mem t) d = pt_pages (mem s) d \<and> set vs \<subseteq> set ws \<and> owned t d ws = owned s d vs \<and>
     (\<forall>a. PGROUNDDOWN a \<notin> pt_pages (mem s) d \<longrightarrow> PGROUNDDOWN a \<notin> set ws \<longrightarrow> mem t a = mem s a)"

lemma freed_refl: "user_ok s d vs \<Longrightarrow> freed d s vs s vs"
  by (simp add: freed_def kmem_frame_refl)

lemma freed_trans: "freed d s vs t ws \<Longrightarrow> freed d t ws u xs \<Longrightarrow> freed d s vs u xs"
  by (auto simp: freed_def intro: kmem_frame_trans)

lemma freed_page:
  assumes ok: "user_ok s d vs" and a: "a < KERNBASE" and e: "translate (mem s) d a = Some e"
  shows "wp (kbind (kfree (frame_of e)) (\<lambda>_. store (ptab (mem s) d (PDX a) + 4 * PTX a) 0))
    (\<lambda>_ t. freed d s vs t (frame_of e # vs) \<and> (\<forall>vb. translate (mem t) d vb = (if pgn vb = pgn a then None else translate (mem s) d vb))) s"
proof -
  note o = pt_okD [OF user_okD(1) [OF ok]] and f = user_okD(2) [OF ok a e]
  let ?f = "frame_of e" and ?pte = "ptab (mem s) d (PDX a) + 4 * PTX a"
  have fl: "PGROUNDDOWN ?f = ?f" using f by (simp add: page_ok_def page_aligned_down)
  have k: "page_ok (kend s) ?f" "?f \<notin> set vs" using f by simp_all
  show ?thesis
  proof (rule wp_seq [OF kfree_spec [OF o(1) k o(2)]], elim conjE)
    fix x :: unit and t assume t: "kmem_inv t (?f # vs)" "kmem_frame s t" "mem t = (page_fill ?f 0x01010101 (mem s))(?f := freelist s)"
    have same: "mem t b = mem s b" if "PGROUNDDOWN b \<noteq> ?f" for b using that fl by (auto simp: t(3) page_fill_def)
    note c = pt_cong [OF o(5), of "mem t"]
    have ne: "PGROUNDDOWN b \<in> pt_pages (mem s) d \<Longrightarrow> mem t b = mem s b" for b using f by (auto intro: same)
    have t_ok: "pt_ok t d (?f # vs)"
      using t(1,2) o c [OF ne] f by (auto simp: pt_ok_def kpool_def kmem_frame_def)
    have pr: "present (mem s (d + 4 * PDX a))" using e by (auto simp: translate_def split: if_splits)
    have "mem t (d + 4 * PDX a) = mem s (d + 4 * PDX a)"
      by (rule ne) (use entry_page [OF pt_wfD(1) [OF o(5)] PDX_less, of a] in \<open>simp add: pt_pages_def\<close>)
    then have pt: "present (mem t (d + 4 * PDX a))" "ptab (mem t) d (PDX a) = ptab (mem s) d (PDX a)" using pr by (simp_all add: ptab_def)
    define u where "u = t\<lparr>mem := (mem t)(?pte := 0)\<rparr>"
    note st = store_pte [OF t_ok pt(1), of u 0, unfolded pt(2), OF u_def] and x = pt_extD [OF st(1)]
    have tr: "translate (mem u) d vb = (if pgn vb = pgn a then None else translate (mem s) d vb)" for vb using st(2) c(3) [OF ne] by simp
    have pp: "pt_pages (mem u) d = pt_pages (mem s) d" using st(3) c(2) [OF ne] by simp
    have "user_ok u d (?f # vs)"
    proof (rule user_ok_sub [OF ok x(1), of "{?f}"])
      show "kend u = kend s" using t(2) x(7) by (simp add: kmem_frame_def)
      show "pt_pages (mem u) d \<union> set (?f # vs) \<subseteq> pt_pages (mem s) d \<union> set vs \<union> {?f}" using pp by auto
      show "translate (mem s) d va = Some e' \<and> frame_of e' \<notin> {?f}" if "va < KERNBASE" "translate (mem u) d va = Some e'" for va e'
        using that tr [of va] user_okD(3) [OF ok that(1) a _ e] by (auto split: if_splits)
    qed
    moreover have "insert ?f (upages (mem u) d) = upages (mem s) d"
    proof (intro equalityI subsetI)
      show "x \<in> upages (mem s) d" if "x \<in> insert ?f (upages (mem u) d)" for x using that a e tr by (auto simp: upages_def split: if_splits)
      show "x \<in> insert ?f (upages (mem u) d)" if x: "x \<in> upages (mem s) d" for x
      proof -
        obtain va e' where v: "va < KERNBASE" "translate (mem s) d va = Some e'" "x = frame_of e'" using x by (auto simp: upages_def)
        show ?thesis using v tr [of va] e translate_pgn [of va a "mem s" d] by (cases "pgn va = pgn a") (auto simp: upages_def)
      qed
    qed
    then have "owned u d (?f # vs) = owned s d vs" using pp by (auto simp: owned_def)
    ultimately have "freed d s vs u (?f # vs)"
      using kmem_frame_trans [OF t(2) x(2)] pp x(6) same by (auto simp: freed_def)
    then show "wp (store ?pte 0) (\<lambda>_ t. freed d s vs t (?f # vs) \<and> (\<forall>vb. translate (mem t) d vb = (if pgn vb = pgn a then None else translate (mem s) d vb))) t"
      using tr by (simp add: store_def wp_simps u_def)
  qed
qed


lemma wp_walk_find:
  "wp (walkpgdir d va False) Q s \<longleftrightarrow> Q (if present (mem s (d + 4 * PDX va)) then Some (ptab (mem s) d (PDX va) + 4 * PTX va) else None) s"
  by (simp add: wp_iff_Ok walk_find)

lemma aligned_pgn: "a mod PGSIZE = 0 \<Longrightarrow> unat a = pgn a * 4096"
  by (simp add: aligned_iff pgn_def mod_0_imp_dvd)

text \<open>The step to the next directory entry.\<close>

lemma next_table:
  assumes "a < KERNBASE"
  shows "pgn (PGADDR (PDX a + 1) 0 0) = (pgn a div 1024 + 1) * 1024" "PGADDR (PDX a + 1) 0 0 mod PGSIZE = 0"
proof -
  have p: "unat (PDX a) < 512" using assms by (simp add: KERNBASE_pgn PDX_unat)
  then have "unat (PDX a + 1) = unat (PDX a) + 1" by (simp add: unat_word_ariths)
  then have u: "unat (PGADDR (PDX a + 1) 0 0) = (unat (PDX a) + 1) * 4194304"
    using p by (simp add: PGADDR_def push_bit_eq_mult unat_word_ariths)
  show "pgn (PGADDR (PDX a + 1) 0 0) = (pgn a div 1024 + 1) * 1024" by (simp add: pgn_def [of "PGADDR (PDX a + 1) 0 0"] u PDX_unat)
  show "PGADDR (PDX a + 1) 0 0 mod PGSIZE = 0" by (simp add: aligned_iff u)
qed

lemma step_aligned: "a mod PGSIZE = 0 \<Longrightarrow> a < KERNBASE \<Longrightarrow> pgn (a + PGSIZE) = pgn a + 1 \<and> (a + PGSIZE) mod PGSIZE = 0"
proof -
  assume a: "a mod PGSIZE = 0" "a < KERNBASE"
  have "unat (a + PGSIZE) = unat a + 4096" using a(2) by (simp add: PGSIZE_def KERNBASE_def word_less_nat_alt unat_word_ariths)
  then show ?thesis using a(1) by (simp add: aligned_iff pgn_def)
qed

definition npages :: "u32 \<Rightarrow> nat" where "npages sz = (unat sz + 4095) div 4096"

lemma dealloc_loop_ok:
  assumes "user_ok s d vs" "a mod PGSIZE = 0" "oldsz \<le> KERNBASE" "npages oldsz \<le> pgn a + n"
  shows "wp (dealloc_loop n d oldsz a) (\<lambda>_ t. \<exists>ws. freed d s vs t ws \<and> remap d s t (pgn a) (npages oldsz - pgn a) (\<lambda>_. None)) s"
  using assms(1,2,4)
proof (induction n arbitrary: a s vs)
  case 0
  then show ?case using freed_refl [of s d vs] by (auto simp: wp_kreturn remap_def)
next
  case (Suc n)
  have lt: "a < oldsz \<longleftrightarrow> pgn a < npages oldsz"
    using aligned_pgn [OF Suc.prems(2)] by (simp add: word_less_nat_alt npages_def less_eq_div_iff_mult_less_eq Suc_le_eq [symmetric])
  show ?case
  proof (cases "a < oldsz")
    case False
    then show ?thesis using freed_refl [OF Suc.prems(1)] lt by (auto simp: wp_kreturn remap_def)
  next
    case True
    then have a: "a < KERNBASE" using assms(3) by simp
    note next_a = step_aligned [OF Suc.prems(2) a]
    show ?thesis
    proof (cases "present (mem s (d + 4 * PDX a))")
      case False
      let ?a = "PGADDR (PDX a + 1) 0 0"
      have no: "translate (mem s) d va = None" if "pgn a \<le> pgn va" "pgn va < pgn ?a" for va
      proof -
        have "PDX va = PDX a" using that unfolding next_table(1) [OF a] word_unat_eq_iff PDX_unat by (metis div_le_mono le_antisym less_Suc_eq_le Suc_eq_plus1 less_mult_imp_div_less)
        then show ?thesis using False by (simp add: translate_def)
      qed
      have up: "pgn a < pgn ?a" 
        unfolding next_table(1) [OF a] using dividend_less_times_div [of 1024 "pgn a"] by (simp add: algebra_simps)
      then have "wp (dealloc_loop n d oldsz ?a) (\<lambda>_ t. \<exists>ws. freed d s vs t ws \<and> remap d s t (pgn ?a) (npages oldsz - pgn ?a) (\<lambda>_. None)) s"
        using Suc.prems next_table(2) [OF a] by (intro Suc.IH) auto
      then have "wp (dealloc_loop n d oldsz ?a) (\<lambda>_ t. \<exists>ws. freed d s vs t ws \<and> remap d s t (pgn a) (npages oldsz - pgn a) (\<lambda>_. None)) s"
        by (rule wp_mono) (use no up in \<open>auto simp: remap_def\<close>)
      then show ?thesis using True False by (simp add: wp_kbind wp_walk_find)
    next
      case pr: True
      let ?pte = "ptab (mem s) d (PDX a) + 4 * PTX a"
      have IH: "wp (dealloc_loop n d oldsz (a + PGSIZE)) (\<lambda>_ t. \<exists>ws. freed d s vs t ws \<and> remap d s t (pgn a) (npages oldsz - pgn a) (\<lambda>_. None)) u"
        if u: "freed d s vs u us" "\<And>vb. translate (mem u) d vb = (if pgn vb = pgn a then None else translate (mem s) d vb)" for u us
      proof (rule wp_mono [OF Suc.IH [of u us "a + PGSIZE"]])
        show "user_ok u d us" using u(1) by (simp add: freed_def)
      next
        fix x t assume "\<exists>ws. freed d u us t ws \<and> remap d u t (pgn (a + PGSIZE)) (npages oldsz - pgn (a + PGSIZE)) (\<lambda>_. None)"
        then obtain ws where "freed d s vs t ws" "remap d u t (pgn a + 1) (npages oldsz - (pgn a + 1)) (\<lambda>_. None)"
          using freed_trans [OF u(1)] next_a by auto
        then show "\<exists>ws. freed d s vs t ws \<and> remap d s t (pgn a) (npages oldsz - pgn a) (\<lambda>_. None)"
          using u(2) True lt by (auto simp: remap_def)
      qed (use next_a Suc.prems(3) in auto)
      show ?thesis
      proof (cases "present (mem s ?pte)")
        case False
        then have "translate (mem s) d a = None" using pr by (simp add: translate_def)
        then have "translate (mem s) d vb = (if pgn vb = pgn a then None else translate (mem s) d vb)" for vb using translate_pgn [of vb a] by auto
        from IH [OF freed_refl [OF Suc.prems(1)] this] show ?thesis using True pr False by (simp add: wp_simps wp_walk_find)
      next
        case p: True
        then have tr: "translate (mem s) d a = Some (mem s ?pte)" using pr by (simp add: translate_def)
        have "PTE_ADDR (mem s ?pte) \<noteq> 0"
          using user_okD(2) [OF Suc.prems(1) a tr] pt_okD(4) [OF user_okD(1) [OF Suc.prems(1)]]
          by (auto simp: frame_of_def page_ok_def P2V_def)
        moreover have "wp (kbind (kfree (frame_of (mem s ?pte))) (\<lambda>_. store ?pte 0)) (\<lambda>_. wp (dealloc_loop n d oldsz (a + PGSIZE))
            (\<lambda>_ t. \<exists>ws. freed d s vs t ws \<and> remap d s t (pgn a) (npages oldsz - pgn a) (\<lambda>_. None))) s"
          by (rule wp_mono [OF freed_page [OF Suc.prems(1) a tr]], rule IH) auto
        ultimately show ?thesis using True pr p by (simp add: wp_simps wp_walk_find frame_of_def)
      qed
    qed
  qed
qed


lemma npages_PGROUNDUP: "sz < KERNBASE \<Longrightarrow> pgn (PGROUNDUP sz) = npages sz \<and> PGROUNDUP sz mod PGSIZE = 0"
  by (simp add: KERNBASE_def word_less_nat_alt pgn_def npages_def PGROUNDUP_unat aligned_iff)

lemma deallocuvm_ok:
  assumes "user_ok s d vs" "oldsz \<le> KERNBASE"
  shows "wp (deallocuvm d oldsz newsz) (\<lambda>r t. r = (if oldsz \<le> newsz then oldsz else newsz) \<and>
    (\<exists>ws. freed d s vs t ws \<and> remap d s t (npages newsz) (npages oldsz - npages newsz) (\<lambda>_. None))) s"
proof (cases "oldsz \<le> newsz")
  case True
  then have "npages oldsz \<le> npages newsz" by (simp add: npages_def word_le_nat_alt div_le_mono)
  then show ?thesis using True freed_refl [OF assms(1)] by (auto simp: deallocuvm_def wp_kreturn remap_def)
next
  case False
  then have n: "newsz < KERNBASE" using assms(2) by simp
  have "npages oldsz \<le> pgn (PGROUNDUP newsz) + (unat oldsz div 4096 + 1)" by (simp add: npages_def)
  from dealloc_loop_ok [OF assms(1) _ assms(2) this] show ?thesis
    using False npages_PGROUNDUP [OF n] by (simp add: deallocuvm_def wp_kbind wp_kreturn)
qed

end
