(* ===== verification/Uvm.thy ===== *)
theory Uvm
  imports Paging
begin

unbundle bit_operations_syntax

text \<open>
  Growing, filling and copying user memory: \<^verbatim>\<open>allocuvm\<close>, \<^verbatim>\<open>deallocuvm\<close>, \<^verbatim>\<open>copyout\<close> and \<^verbatim>\<open>copyuvm\<close> in terms of the translation of
  theory Paging.
\<close>

section \<open>Growing user memory\<close>

lemma kalloc_user:
  assumes "user_ok s d vs"
  shows "wp kalloc (\<lambda>r t. r = (case vs of [] \<Rightarrow> 0 | v # _ \<Rightarrow> v) \<and> mem t = mem s \<and> kmem_frame s t \<and> user_ok t d (tl vs)) s"
proof -
  note ok = pt_okD [OF user_okD(1) [OF assms]]
  have sub: "set (tl vs) \<subseteq> set vs" by (cases vs) auto
  have "user_ok t d (tl vs)" if t: "kmem_inv t (tl vs)" "mem t = mem s" "kmem_frame s t" for t
  proof (rule user_ok_sub [OF assms, of _ _ "{}"])
    show "pt_ok t d (tl vs)" using t ok(2,4,5,6) sub by (auto simp: pt_ok_def kpool_def kmem_frame_def)
  qed (use t sub in \<open>auto simp: kmem_frame_def\<close>)
  then show ?thesis by (intro wp_mono [OF kalloc_spec [OF ok(1,2)]]) auto
qed

text \<open>Writes outside the tables and the free list.\<close>

lemma user_write:
  assumes ok: "user_ok s d vs" and same: "\<And>a. PGROUNDDOWN a \<in> pt_pages (mem s) d \<union> set vs \<Longrightarrow> m a = mem s a"
  shows "user_ok (s\<lparr>mem := m\<rparr>) d vs" "translate m d va = translate (mem s) d va" "pt_pages m d = pt_pages (mem s) d"
proof -
  note o = pt_okD [OF user_okD(1) [OF ok]]
  note c = pt_cong [OF o(5), of m, OF same, OF UnI1]
  show "translate m d va = translate (mem s) d va" "pt_pages m d = pt_pages (mem s) d" using c by blast+
  have "kpool (s\<lparr>mem := m\<rparr>) vs" by (rule kpool_mem [OF o(3)]) (use same in auto)
  then have "pt_ok (s\<lparr>mem := m\<rparr>) d vs" using o(4,6) c by (simp add: pt_ok_def)
  then show "user_ok (s\<lparr>mem := m\<rparr>) d vs" by (rule user_ok_sub [OF ok, of _ _ "{}"]) (use c in auto)
qed

lemma frame_of_entry: "p mod PGSIZE = 0 \<Longrightarrow> perm AND NOT 0xFFF = 0 \<Longrightarrow> frame_of (V2P p OR perm OR PTE_P) = p"
  by (simp add: frame_of_def PTE_ADDR_or V2P_aligned PTE_P_def bit.conj_disj_distrib2)

lemma user_insert:
  assumes ok: "user_ok s d vs" and x: "pt_ext d s vs t ws" and f: "page_ok (kend s) f" "f \<notin> owned s d vs" "frame_of e = f" and a: "a < KERNBASE" "translate (mem s) d a = None"
    and tr: "\<And>va. translate (mem t) d va = (if pgn va = pgn a then Some e else translate (mem s) d va)"
  shows "user_ok t d ws" "owned t d ws = insert f (owned s d vs)"
proof -
  note t = pt_extD [OF x]
  have sf: "frame_of e' \<noteq> f" if "va < KERNBASE" "translate (mem s) d va = Some e'" for va e' using that f(2) by (auto simp: owned_def upages_def)
  have nf: "f \<notin> pt_pages (mem t) d \<union> set ws" using f(2) t(4,5) by (auto simp: owned_def)
  show "user_ok t d ws"
    unfolding user_ok_def
  proof (intro conjI allI impI)
    fix va e' assume va: "va < KERNBASE" "translate (mem t) d va = Some e'"
    have "e' = e \<or> translate (mem s) d va = Some e'" using va(2) by (simp add: tr split: if_splits)
    then have "frame_of e' = f \<or> page_ok (kend s) (frame_of e') \<and> frame_of e' \<notin> pt_pages (mem s) d \<union> set vs"
      using user_okD(2) [OF ok va(1)] f(3) by blast
    then show "page_ok (kend t) (frame_of e')" "frame_of e' \<notin> pt_pages (mem t) d" "frame_of e' \<notin> set ws" using f(1) nf t(4,5,7) by auto
  next
    fix va vb e1 e2
    assume v: "va < KERNBASE" "vb < KERNBASE" "translate (mem t) d va = Some e1" "translate (mem t) d vb = Some e2" "frame_of e1 = frame_of e2"
    then show "pgn va = pgn vb" using user_okD(3) [OF ok v(1,2)] sf [OF v(1)] sf [OF v(2)] f(3) by (auto simp: tr split: if_splits)
  qed (rule t(1))
  have "upages (mem t) d = insert f (upages (mem s) d)"
  proof (intro equalityI subsetI)
    show "y \<in> insert f (upages (mem s) d)" if "y \<in> upages (mem t) d" for y using that f(3) by (auto simp: upages_def tr split: if_splits)
    show "y \<in> upages (mem t) d" if y: "y \<in> insert f (upages (mem s) d)" for y
    proof (cases "y = f")
      case True
      have "translate (mem t) d a = Some e" by (simp add: tr)
      then show ?thesis using True f(3) a(1) by (auto simp: upages_def)
    next
      case False
      then obtain va e' where v: "va < KERNBASE" "translate (mem s) d va = Some e'" "y = frame_of e'" using y by (auto simp: upages_def)
      then have "translate (mem t) d va = Some e'" using tr [of va] a(2) translate_pgn [of va a "mem s" d] by auto
      then show ?thesis using v by (auto simp: upages_def)
    qed
  qed
  then show "owned t d ws = insert f (owned s d vs)" using x by (auto simp: owned_def pt_ext_def)
qed

lemma user_map:
  assumes ok: "user_ok s d vs" and f: "page_ok (kend s) f" "f \<notin> owned s d vs" and perm: "perm AND NOT 0xFFF = 0"
    and a: "a < KERNBASE" "a mod PGSIZE = 0" "translate (mem s) d a = None"
  shows "wp (mappages d a PGSIZE (V2P f) perm) (\<lambda>r t. \<exists>ws. user_ok t d ws \<and> pt_ext d s vs t ws \<and>
    (if r < 0 then ws = [] \<and> vs = [] \<and> owned t d ws = owned s d vs \<and> (\<forall>va. translate (mem t) d va = translate (mem s) d va)
     else r = 0 \<and> length vs \<le> length ws + 1 \<and> owned t d ws = insert f (owned s d vs) \<and>
       (\<forall>va. translate (mem t) d va = (if pgn va = pgn a then Some (V2P f OR perm OR PTE_P) else translate (mem s) d va)))) s"
proof -
  have "unat (a + PGSIZE - 1) = unat a + 4095"
    using a(1) by (simp add: KERNBASE_def PGSIZE_def word_less_nat_alt unat_word_ariths)
  then have n: "pgn (a + PGSIZE - 1) = pgn a + 0" using aligned_pgn [OF a(2)] by (simp add: pgn_def [of "a + PGSIZE - 1"])
  have free: "translate (mem s) d vb = None" if "pgn a \<le> pgn vb" "pgn vb < pgn a + Suc 0" for vb
    using that a(3) translate_pgn [of vb a "mem s" d] by simp
  let ?e = "V2P f OR perm OR PTE_P"
  have fe: "frame_of ?e = f" using f(1) perm by (simp add: frame_of_entry page_ok_def)
  have none: "user_ok t d [] \<and> owned t d [] = owned s d vs"
    if t: "pt_ext d s vs t []" "\<And>va. translate (mem t) d va = translate (mem s) d va" for t
  proof
    show "user_ok t d []" by (rule user_ok_sub [OF ok, of _ _ "{}"]) (use pt_extD [OF t(1)] t(2) in auto)
    show "owned t d [] = owned s d vs" using t(1) upages_cong [of "mem t" d "mem s"] t(2) by (auto simp: owned_def pt_ext_def)
  qed
  show ?thesis
  proof (rule wp_mono [OF mappages_ok [OF user_okD(1) [OF ok] n free]])
    fix r :: int and t assume "(r = 0 \<and> (\<exists>ws. pt_ext d s vs t ws \<and> length vs \<le> length ws + Suc 0 \<and> remap d s t (pgn a) (Suc 0) (map_entry (V2P f) perm))) \<or>
       (r = - 1 \<and> (\<exists>k < Suc 0. pt_ext d s vs t [] \<and> length vs \<le> k \<and> remap d s t (pgn a) k (map_entry (V2P f) perm)))"
    then show "\<exists>ws. user_ok t d ws \<and> pt_ext d s vs t ws \<and>
      (if r < 0 then ws = [] \<and> vs = [] \<and> owned t d ws = owned s d vs \<and> (\<forall>va. translate (mem t) d va = translate (mem s) d va)
       else r = 0 \<and> length vs \<le> length ws + 1 \<and> owned t d ws = insert f (owned s d vs) \<and>
         (\<forall>va. translate (mem t) d va = (if pgn va = pgn a then Some ?e else translate (mem s) d va)))"
    proof (elim disjE conjE exE)
      fix ws assume r: "r = 0" "pt_ext d s vs t ws" and len: "length vs \<le> length ws + Suc 0" and rm: "remap d s t (pgn a) (Suc 0) (map_entry (V2P f) perm)"
      have tr: "translate (mem t) d va = (if pgn va = pgn a then Some ?e else translate (mem s) d va)" for va
        using rm by (auto simp: remap_def map_entry_def)
      show ?thesis using user_insert [OF ok r(2) f fe a(1,3) tr] r len tr by auto
    next
      fix k assume r: "r = - 1" "k < Suc 0" "pt_ext d s vs t []" "length vs \<le> k" "remap d s t (pgn a) k (map_entry (V2P f) perm)"
      then have tr: "translate (mem t) d va = translate (mem s) d va" for va by (simp add: remap_0)
      show ?thesis using none [OF r(3) tr] r(1-4) tr by auto
    qed
  qed auto
qed


text \<open>
  \<open>grew\<close>: the \<open>k\<close> pages from page number \<open>A\<close> on are new, zeroed frames that were free; \<open>undone\<close>: everything is mapped as before,
  and no page is lost. \<open>L\<close> are pages taken from the free list and not yet mapped.
\<close>

definition grew :: "u32 \<Rightarrow> 'r kmem_state_scheme \<Rightarrow> u32 list \<Rightarrow> 'r kmem_state_scheme \<Rightarrow> u32 list \<Rightarrow> u32 set \<Rightarrow> nat \<Rightarrow> nat \<Rightarrow> bool" where
  "grew d s vs t ws L A k \<longleftrightarrow> user_ok t d ws \<and> kmem_frame s t \<and> pt_pages (mem s) d \<subseteq> pt_pages (mem t) d \<and> set ws \<union> L \<subseteq> set vs \<and>
     owned t d ws \<union> L = owned s d vs \<and> owned t d ws \<inter> L = {} \<and>
     (\<forall>va. A \<le> pgn va \<and> pgn va < A + k \<longrightarrow>
        (\<exists>f \<in> set vs. translate (mem t) d va = Some (V2P f OR (PTE_W OR PTE_U) OR PTE_P) \<and> (\<forall>b. PGROUNDDOWN b = f \<longrightarrow> mem t b = 0))) \<and>
     (\<forall>va. \<not> (A \<le> pgn va \<and> pgn va < A + k) \<longrightarrow> translate (mem t) d va = translate (mem s) d va) \<and>
     (\<forall>b. PGROUNDDOWN b \<notin> pt_pages (mem s) d \<union> set vs \<longrightarrow> mem t b = mem s b) \<and> pt_pages (mem t) d \<subseteq> pt_pages (mem s) d \<union> set vs"

definition undone :: "u32 \<Rightarrow> 'r kmem_state_scheme \<Rightarrow> u32 list \<Rightarrow> 'r kmem_state_scheme \<Rightarrow> u32 list \<Rightarrow> u32 set \<Rightarrow> bool" where
  "undone d s vs t ws L \<longleftrightarrow> user_ok t d ws \<and> kmem_frame s t \<and> owned t d ws \<union> L = owned s d vs \<and> owned t d ws \<inter> L = {} \<and>
     (\<forall>va. translate (mem t) d va = translate (mem s) d va) \<and> (\<forall>b. PGROUNDDOWN b \<notin> pt_pages (mem s) d \<union> set vs \<longrightarrow> mem t b = mem s b)"

lemma grewD:
  assumes "grew d s vs t ws L A k"
  shows "user_ok t d ws" "kmem_frame s t" "pt_pages (mem s) d \<subseteq> pt_pages (mem t) d" "set ws \<union> L \<subseteq> set vs" "owned t d ws \<union> L = owned s d vs" "owned t d ws \<inter> L = {}"
    "A \<le> pgn va \<Longrightarrow> pgn va < A + k \<Longrightarrow>
      \<exists>f \<in> set vs. translate (mem t) d va = Some (V2P f OR (PTE_W OR PTE_U) OR PTE_P) \<and> (\<forall>b. PGROUNDDOWN b = f \<longrightarrow> mem t b = 0)"
    "\<not> (A \<le> pgn va \<and> pgn va < A + k) \<Longrightarrow> translate (mem t) d va = translate (mem s) d va"
    "PGROUNDDOWN b \<notin> pt_pages (mem s) d \<union> set vs \<Longrightarrow> mem t b = mem s b" "pt_pages (mem t) d \<subseteq> pt_pages (mem s) d \<union> set vs"
  using assms unfolding grew_def by blast+

lemma owned_rest:
  assumes "user_ok s d vs" "user_ok t d ws" "owned t d ws \<union> L = owned s d vs" "L \<subseteq> set vs" "\<And>va. translate (mem t) d va = translate (mem s) d va"
  shows "pt_pages (mem t) d \<union> set ws \<union> L = pt_pages (mem s) d \<union> set vs"
  using upages_cong [of "mem t" d "mem s"] assms(3-5) upages_disjoint [OF assms(1)] upages_disjoint [OF assms(2)] unfolding owned_def by blast

text \<open>Releasing the new pages again.\<close>

lemma grew_undo:
  assumes ok: "user_ok s d vs" and g: "grew d s vs t ws L A k" and f: "freed d t ws u us"
    and new: "\<And>va. A \<le> pgn va \<Longrightarrow> pgn va < B \<Longrightarrow> translate (mem s) d va = None" "A + k \<le> B" "remap d t u A (B - A) (\<lambda>_. None)"
  shows "undone d s vs u us L"
proof -
  note G = grewD [OF g]
  have tr: "translate (mem u) d va = translate (mem s) d va" for va
    using G(8) [of va] new by (cases "A \<le> pgn va \<and> pgn va < B") (auto simp: remap_def)
  have u: "user_ok u d us" "owned u d us = owned t d ws" "kmem_frame s u"
    using G(2) f by (auto simp: freed_def intro: kmem_frame_trans)
  have rest: "pt_pages (mem u) d \<union> set us \<union> L = pt_pages (mem s) d \<union> set vs"
    by (rule owned_rest [OF ok u(1)]) (use G(4,5) u(2) tr in auto)
  have "mem u b = mem s b" if "PGROUNDDOWN b \<notin> pt_pages (mem s) d \<union> set vs" for b
    using that rest G(9) f by (auto simp: freed_def)
  then show ?thesis using u G(5,6) tr by (simp add: undone_def)
qed

lemma undo_wp:
  assumes ok: "user_ok s d vs" and g: "grew d s vs t ws L (npages oldsz) k" and sz: "newsz < KERNBASE" "npages oldsz + k \<le> npages newsz"
    and new: "\<And>va. npages oldsz \<le> pgn va \<Longrightarrow> pgn va < npages newsz \<Longrightarrow> translate (mem s) d va = None"
  shows "wp (deallocuvm d newsz oldsz) (\<lambda>_ u. \<exists>us. undone d s vs u us L) t"
  by (rule wp_mono [OF deallocuvm_ok [OF grewD(1) [OF g]]]) (use sz grew_undo [OF ok g _ new sz(2)] in auto)

text \<open>Giving back the page that could not be mapped.\<close>

lemma undone_kfree:
  assumes ok: "user_ok s d vs" and un: "undone d s vs t ws {f}" and f: "page_ok (kend s) f" "f \<in> set vs"
  shows "wp (kfree f) (\<lambda>_ u. undone d s vs u (f # ws) {}) t"
proof -
  have t: "user_ok t d ws" "kmem_frame s t" "insert f (owned t d ws) = owned s d vs" "f \<notin> owned t d ws"
    "\<And>va. translate (mem t) d va = translate (mem s) d va" "\<And>b. PGROUNDDOWN b \<notin> pt_pages (mem s) d \<union> set vs \<Longrightarrow> mem t b = mem s b"
    using un by (auto simp: undone_def)
  note o = pt_okD [OF user_okD(1) [OF t(1)]]
  have k: "page_ok (kend t) f" "f \<notin> set ws" "f \<notin> pt_pages (mem t) d" "f \<notin> upages (mem t) d" "PGROUNDDOWN f = f"
    using f(1) t(2,4) by (auto simp: kmem_frame_def owned_def page_ok_def page_aligned_down)
  show ?thesis
  proof (rule wp_mono [OF kfree_spec [OF o(1) k(1,2) o(2)]], elim conjE)
    fix u assume u: "kmem_inv u (f # ws)" "kmem_frame t u" "mem u = (page_fill f 0x01010101 (mem t))(f := freelist t)"
    have same: "mem u b = mem t b" if "PGROUNDDOWN b \<noteq> f" for b using that k(5) by (auto simp: u(3) page_fill_def)
    have keep: "mem u b = mem t b" if "PGROUNDDOWN b \<in> pt_pages (mem t) d" for b by (rule same) (use that k(3) in auto)
    note c = pt_cong [OF o(5), of "mem u", OF keep]
    have pt: "pt_ok u d (f # ws)" using u(1,2) o(2,4,6) c(1,2) k(3) by (auto simp: pt_ok_def kpool_def kmem_frame_def)
    have uo: "user_ok u d (f # ws)"
      by (rule user_ok_sub [OF t(1) pt, of "{f}"]) (use u(2) c(2,3) k(4) in \<open>auto simp: kmem_frame_def upages_def\<close>)
    moreover have "owned u d (f # ws) = owned s d vs" using t(3) c(2) upages_cong [of "mem u" d "mem t"] c(3) by (auto simp: owned_def)
    moreover have "mem u b = mem s b" if b: "PGROUNDDOWN b \<notin> pt_pages (mem s) d \<union> set vs" for b
    proof -
      have "PGROUNDDOWN b \<noteq> f" using b f(2) by auto
      then show ?thesis using same t(6) [OF b] by simp
    qed
    ultimately show "undone d s vs u (f # ws) {}" using kmem_frame_trans [OF t(2) u(2)] t(5) c(3) by (simp add: undone_def)
  qed
qed


text \<open>A new frame, zeroed but not yet mapped.\<close>

lemma take_frame:
  assumes g: "grew d s vs t (f # ws) {} A k" and t1: "mem t1 = mem t" "kmem_frame t t1" "user_ok t1 d ws"
  defines "u \<equiv> t1\<lparr>mem := page_fill f 0 (mem t1)\<rparr>"
  shows "grew d s vs u ws {f} A k" "page_ok (kend u) f" "f \<notin> owned u d ws" "f \<in> set vs" "page_ok (kend s) f"
proof -
  note G = grewD [OF g]
  have kend: "kend t1 = kend s" "kend t = kend s" using G(2) t1(2) by (simp_all add: kmem_frame_def)
  note o = pt_okD [OF user_okD(1) [OF G(1)]]
  have f: "page_ok (kend s) f" "f \<notin> set ws" "f \<notin> pt_pages (mem t) d" "f \<notin> upages (mem t) d"
    using o(1,6) kend upages_disjoint [OF G(1)] by (auto simp: kmem_inv_def)
  have m: "page_fill f 0 (mem t1) b = mem t1 b" if "PGROUNDDOWN b \<in> pt_pages (mem t1) d \<union> set ws" for b
    using that f t1(1) by (auto simp: page_fill_def)
  note w = user_write [OF t1(3) m]
  have tr: "translate (mem u) d va = translate (mem t) d va" for va using w(2) t1(1) by (simp add: u_def)
  have pp: "pt_pages (mem u) d = pt_pages (mem t) d" using w(3) t1(1) by (simp add: u_def)
  have ow: "insert f (owned u d ws) = owned t d (f # ws)" "f \<notin> owned u d ws"
    using pp f upages_cong [of "mem u" d "mem t"] tr by (auto simp: owned_def)
  show "f \<notin> owned u d ws" "page_ok (kend s) f" "f \<in> set vs" "page_ok (kend u) f" using ow(2) f(1) G(4) kend(1) by (auto simp: u_def)
  show "grew d s vs u ws {f} A k"
    unfolding grew_def tr
  proof (intro conjI allI impI)
    show "user_ok u d ws" using w(1) by (simp add: u_def)
    show "kmem_frame s u" using kmem_frame_trans [OF G(2) t1(2)] by (simp add: u_def kmem_frame_def)
    show "pt_pages (mem s) d \<subseteq> pt_pages (mem u) d" "pt_pages (mem u) d \<subseteq> pt_pages (mem s) d \<union> set vs" using G(3,10) pp by simp_all
    show "set ws \<union> {f} \<subseteq> set vs" "owned u d ws \<union> {f} = owned s d vs" "owned u d ws \<inter> {f} = {}" using G(4,5) ow by auto
  next
    fix va assume va: "A \<le> pgn va \<and> pgn va < A + k"
    then obtain g where "g \<in> set vs" "translate (mem t) d va = Some (V2P g OR (PTE_W OR PTE_U) OR PTE_P)" "\<forall>b. PGROUNDDOWN b = g \<longrightarrow> mem t b = 0"
      using G(7) [of va] by auto
    then show "\<exists>g \<in> set vs. translate (mem t) d va = Some (V2P g OR (PTE_W OR PTE_U) OR PTE_P) \<and> (\<forall>b. PGROUNDDOWN b = g \<longrightarrow> mem u b = 0)"
      using t1(1) by (auto simp: u_def page_fill_def)
  next
    fix va assume "\<not> (A \<le> pgn va \<and> pgn va < A + k)"
    then show "translate (mem t) d va = translate (mem s) d va" by (rule G(8))
  next
    fix b assume b: "PGROUNDDOWN b \<notin> pt_pages (mem s) d \<union> set vs"
    then have "PGROUNDDOWN b \<noteq> f" using G(4) by auto
    then show "mem u b = mem s b" using G(9) [OF b] t1(1) by (simp add: u_def page_fill_def)
  qed
qed

lemma perm_WU: "(PTE_W OR PTE_U) AND NOT 0xFFF = 0"
  by (simp add: pte_defs)

text \<open>A step that only writes tables keeps the new frames zeroed.\<close>

lemma grew_ext:
  assumes ok: "user_ok s d vs" and g: "grew d s vs u ws L A k" and x: "pt_ext d u ws w ys" "user_ok w d ys"
    and ow: "owned w d ys \<union> L' = owned s d vs" "owned w d ys \<inter> L' = {}" "L' \<subseteq> set vs"
    and lim: "A + k' \<le> 524288"
    and new: "\<And>va. A \<le> pgn va \<Longrightarrow> pgn va < A + k' \<Longrightarrow>
      \<exists>f \<in> set vs. translate (mem w) d va = Some (V2P f OR (PTE_W OR PTE_U) OR PTE_P) \<and> (\<forall>b. PGROUNDDOWN b = f \<longrightarrow> mem u b = 0)"
    and old: "\<And>va. \<not> (A \<le> pgn va \<and> pgn va < A + k') \<Longrightarrow> translate (mem w) d va = translate (mem s) d va"
  shows "grew d s vs w ys L' A k'"
proof -
  note G = grewD [OF g] and X = pt_extD [OF x(1)]
  show ?thesis
    unfolding grew_def
  proof (intro conjI allI impI)
    show "user_ok w d ys" "kmem_frame s w" using x(2) kmem_frame_trans [OF G(2) X(2)] by simp_all
    show "pt_pages (mem s) d \<subseteq> pt_pages (mem w) d" "set ys \<union> L' \<subseteq> set vs" "pt_pages (mem w) d \<subseteq> pt_pages (mem s) d \<union> set vs"
      using G(3,4,10) X(3,4,5) ow(3) by auto
  next
    fix va assume va: "A \<le> pgn va \<and> pgn va < A + k'"
    then obtain f where f: "f \<in> set vs" "translate (mem w) d va = Some (V2P f OR (PTE_W OR PTE_U) OR PTE_P)" "\<forall>b. PGROUNDDOWN b = f \<longrightarrow> mem u b = 0"
      using new by blast
    have "frame_of (V2P f OR (PTE_W OR PTE_U) OR PTE_P) = f"
      by (rule frame_of_entry [OF _ perm_WU]) (use f(1) pt_okD(1) [OF user_okD(1) [OF ok]] in \<open>simp add: kmem_inv_def page_ok_def\<close>)
    moreover have "va < KERNBASE" using va lim by (simp add: KERNBASE_pgn)
    ultimately have "f \<in> upages (mem w) d" using upagesI f(2) by metis
    then have "mem w b = mem u b" if "PGROUNDDOWN b = f" for b using that X(6) [of b] upages_disjoint [OF x(2)] by auto
    then show "\<exists>f \<in> set vs. translate (mem w) d va = Some (V2P f OR (PTE_W OR PTE_U) OR PTE_P) \<and> (\<forall>b. PGROUNDDOWN b = f \<longrightarrow> mem w b = 0)"
      using f by auto
  next
    fix b assume b: "PGROUNDDOWN b \<notin> pt_pages (mem s) d \<union> set vs"
    have "PGROUNDDOWN b \<notin> pt_pages (mem w) d" using b X(5) G(4,10) by auto
    then show "mem w b = mem s b" using X(6) G(9) [OF b] by simp
  qed (use ow old in auto)
qed

lemma alloc_page_ok:
  assumes ok: "user_ok s d vs" and g: "grew d s vs t ws {} (npages oldsz) k" and sz: "newsz < KERNBASE" "npages oldsz + k < npages newsz"
    and new: "\<And>va. npages oldsz \<le> pgn va \<Longrightarrow> pgn va < npages newsz \<Longrightarrow> translate (mem s) d va = None"
    and a: "pgn a = npages oldsz + k" "a mod PGSIZE = 0"
  shows "wp (alloc_page d oldsz newsz a) (found_or (\<lambda>u. \<exists>us. grew d s vs u us {} (npages oldsz) (Suc k) \<and> length ws \<le> length us + 2) (\<lambda>r u. r = 0 \<and> length ws < 2 \<and> (\<exists>us. undone d s vs u us {}))) t"
  unfolding alloc_page_def
proof (rule wp_seq [OF kalloc_user [OF grewD(1) [OF g]]], elim conjE)
  fix r t1 assume t1: "r = (case ws of [] \<Rightarrow> 0 | v # _ \<Rightarrow> v)" "mem t1 = mem t" "kmem_frame t t1" "user_ok t1 d (tl ws)"
  let ?Q = "found_or (\<lambda>u. \<exists>us. grew d s vs u us {} (npages oldsz) (Suc k) \<and> length ws \<le> length us + 2) (\<lambda>r u. r = 0 \<and> length ws < 2 \<and> (\<exists>us. undone d s vs u us {}))"
  have lim: "npages oldsz + k < 524288" using sz by (simp add: npages_def KERNBASE_def word_less_nat_alt)
  show "wp (if r = 0 then kbind (deallocuvm d newsz oldsz) (\<lambda>_. kreturn (Some 0))
     else kbind (zero_page r) (\<lambda>_. kbind (mappages d a PGSIZE (V2P r) (PTE_W OR PTE_U)) (\<lambda>r'.
       if r' < 0 then kbind (deallocuvm d newsz oldsz) (\<lambda>_. kbind (kfree r) (\<lambda>_. kreturn (Some 0))) else kreturn None))) ?Q t1"
  proof (cases ws)
    case Nil
    have "owned t1 d [] = owned t d []" using t1(2) by (simp add: owned_def)
    then have "grew d s vs t1 [] {} (npages oldsz) k"
      using g t1(2,4) kmem_frame_trans [OF grewD(2) [OF g] t1(3)] Nil by (simp add: grew_def)
    from undo_wp [OF ok this sz(1) _ new] have "wp (deallocuvm d newsz oldsz) (\<lambda>_ u. \<exists>us. undone d s vs u us {}) t1" using sz(2) by simp
    then show ?thesis using t1(1) Nil by (simp add: wp_kbind wp_kreturn)
  next
    case (Cons f xs)
    define u where "u = t1\<lparr>mem := page_fill f 0 (mem t1)\<rparr>"
    note T = take_frame [OF g [unfolded Cons] t1(2,3), unfolded u_def [symmetric]]
    have xs: "user_ok t1 d xs" using t1(4) Cons by simp
    note T = T [OF xs]
    have r: "r = f" "f \<noteq> 0" using t1(1) Cons T(5) pt_okD(4) [OF user_okD(1) [OF ok]] by (auto simp: page_ok_def)
    have ta: "translate (mem u) d a = None" using grewD(8) [OF T(1), of a] new [of a] a(1) sz(2) by simp
    have ak: "a < KERNBASE" using a(1) lim by (simp add: KERNBASE_pgn)
    have m: "wp (mappages d a PGSIZE (V2P f) (PTE_W OR PTE_U)) (\<lambda>r'. wp (
       if r' < 0 then kbind (deallocuvm d newsz oldsz) (\<lambda>_. kbind (kfree f) (\<lambda>_. kreturn (Some 0))) else kreturn None) ?Q) u"
    proof (rule wp_mono [OF user_map [OF grewD(1) [OF T(1)] T(2,3) perm_WU ak a(2) ta]], elim exE conjE)
      fix r' w ys assume w: "user_ok w d ys" "pt_ext d u xs w ys"
        "if r' < 0 then ys = [] \<and> xs = [] \<and> owned w d ys = owned u d xs \<and> (\<forall>va. translate (mem w) d va = translate (mem u) d va)
         else r' = 0 \<and> length xs \<le> length ys + 1 \<and> owned w d ys = insert f (owned u d xs) \<and>
           (\<forall>va. translate (mem w) d va = (if pgn va = pgn a then Some (V2P f OR (PTE_W OR PTE_U) OR PTE_P) else translate (mem u) d va))"
      show "wp (if r' < 0 then kbind (deallocuvm d newsz oldsz) (\<lambda>_. kbind (kfree f) (\<lambda>_. kreturn (Some 0))) else kreturn None) ?Q w"
      proof (cases "r' < 0")
        case True
        have "grew d s vs w ys {f} (npages oldsz) k"
          by (rule grew_ext [OF ok T(1) w(2,1)]) (use w(3) True grewD(4-8) [OF T(1)] lim in auto)
        from undo_wp [OF ok this sz(1) _ new] have "wp (deallocuvm d newsz oldsz) (\<lambda>_ u. \<exists>us. undone d s vs u us {f}) w" using sz(2) by simp
        then have "wp (kbind (deallocuvm d newsz oldsz) (\<lambda>_. kfree f)) (\<lambda>_ u. \<exists>us. undone d s vs u us {}) w"
          by (rule wp_seq, elim exE) (rule wp_mono [OF undone_kfree [OF ok _ T(5,4)]], auto)
        then show ?thesis using True w(3) Cons by (simp add: wp_kbind wp_kreturn)
      next
        case False
        have "grew d s vs w ys {} (npages oldsz) (Suc k)"
        proof (rule grew_ext [OF ok T(1) w(2,1)])
          fix va assume va: "npages oldsz \<le> pgn va" "pgn va < npages oldsz + Suc k"
          show "\<exists>f \<in> set vs. translate (mem w) d va = Some (V2P f OR (PTE_W OR PTE_U) OR PTE_P) \<and> (\<forall>b. PGROUNDDOWN b = f \<longrightarrow> mem u b = 0)"
          proof (cases "pgn va = pgn a")
            case True
            then show ?thesis using w(3) False T(4) by (auto simp: u_def page_fill_def)
          next
            case ne: False
            then show ?thesis using w(3) False grewD(7) [OF T(1), of va] va a(1) by auto
          qed
        qed (use w(3) False grewD(5,8) [OF T(1)] lim a(1) in auto)
        then show ?thesis using False w(3) Cons by (auto simp: wp_kreturn)
      qed
    qed
    then show ?thesis unfolding r(1) using r(2) by (simp add: wp_simps zero_page_def u_def)
  qed
qed


lemma step_aligned_nat:
  assumes "a mod PGSIZE = 0" "pgn a + k < 1048576"
  shows "(a + of_nat k * PGSIZE) mod PGSIZE = 0"
proof -
  have "pgn a * 4096 + k * 4096 < 4294967296" using assms(2) by simp
  then have "unat (a + of_nat k * PGSIZE) = unat a + k * 4096"
    using aligned_pgn [OF assms(1)] by (simp add: PGSIZE_def unat_word_ariths unat_of_nat algebra_simps)
  then show ?thesis using aligned_pgn [OF assms(1)] by (simp add: aligned_iff)
qed

lemma grew_refl: "user_ok s d vs \<Longrightarrow> grew d s vs s vs {} A 0"
  by (auto simp: grew_def kmem_frame_refl)

lemma allocuvm_loop:
  assumes ok: "user_ok s d vs" and sz: "newsz < KERNBASE"
    and new: "\<And>va. npages oldsz \<le> pgn va \<Longrightarrow> pgn va < npages newsz \<Longrightarrow> translate (mem s) d va = None"
    and a: "pgn a = npages oldsz" "a mod PGSIZE = 0" and n: "npages oldsz + n \<le> npages newsz"
  shows "wp (kfirst [0 ..< n] (\<lambda>i. alloc_page d oldsz newsz (a + of_nat i * PGSIZE)))
    (found_or (\<lambda>t. \<exists>ws. grew d s vs t ws {} (npages oldsz) n) (\<lambda>r t. r = 0 \<and> length vs < 2 * n \<and> (\<exists>ws. undone d s vs t ws {}))) s"
proof -
  let ?I = "\<lambda>k t. \<exists>ws. grew d s vs t ws {} (npages oldsz) k \<and> length vs \<le> length ws + 2 * k"
  let ?Q = "\<lambda>r t. r = 0 \<and> length vs < 2 * n \<and> (\<exists>ws. undone d s vs t ws {})"
  have lim: "npages newsz \<le> 524288" using sz by (simp add: npages_def KERNBASE_def word_less_nat_alt)
  have "wp (kfirst [0 ..< n] (\<lambda>i. alloc_page d oldsz newsz (a + of_nat i * PGSIZE))) (found_or (?I (length [0 ..< n])) ?Q) s"
  proof (rule wp_kfirst_inv)
    show "?I 0 s" using grew_refl [OF ok] by auto
  next
    fix k t assume "k < length [0 ..< n]" and "?I k t"
    then obtain ws where k: "k < n" and ws: "grew d s vs t ws {} (npages oldsz) k" "length vs \<le> length ws + 2 * k" by auto
    have ak: "pgn (a + of_nat k * PGSIZE) = npages oldsz + k" using pgn_step [of a k] a(1) n k lim by simp
    have al: "(a + of_nat k * PGSIZE) mod PGSIZE = 0" using step_aligned_nat [of a k] a n k lim by simp
    have sz2: "npages oldsz + k < npages newsz" using k n by simp
    have "wp (alloc_page d oldsz newsz (a + of_nat k * PGSIZE)) (found_or (?I (Suc k)) ?Q) t"
      by (rule wp_mono [OF alloc_page_ok [OF ok ws(1) sz sz2 new ak al]]) (use ws(2) k in \<open>auto simp: found_or_def split: option.splits\<close>)
    then show "wp (alloc_page d oldsz newsz (a + of_nat ([0 ..< n] ! k) * PGSIZE)) (found_or (?I (Suc k)) ?Q) t" using k by simp
  qed
  then show ?thesis by (rule wp_mono) (auto simp: found_or_def split: option.splits)
qed

lemma allocuvm_ok:
  assumes "user_ok s d vs" "oldsz \<le> newsz" "newsz < KERNBASE"
    "\<forall>va. npages oldsz \<le> pgn va \<and> pgn va < npages newsz \<longrightarrow> translate (mem s) d va = None"
  shows "npages oldsz \<le> npages newsz"
    "wp (allocuvm d oldsz newsz) (\<lambda>r t. (r = newsz \<and> (\<exists>ws. grew d s vs t ws {} (npages oldsz) (npages newsz - npages oldsz))) \<or>
      (r = 0 \<and> length vs < 2 * (npages newsz - npages oldsz) \<and> (\<exists>ws. undone d s vs t ws {}))) s"
proof -
  define n where "n = npages newsz - npages oldsz"
  show le: "npages oldsz \<le> npages newsz" using assms(2) by (simp add: npages_def word_le_nat_alt div_le_mono)
  have old: "oldsz < KERNBASE" using assms(2,3) by simp
  note a = npages_PGROUNDUP [OF old]
  have ua: "unat (PGROUNDUP oldsz) = npages oldsz * 4096" using aligned_pgn [of "PGROUNDUP oldsz"] a by simp
  have c: "(unat newsz - unat (PGROUNDUP oldsz) + 4095) div 4096 = n"
  proof (cases "unat (PGROUNDUP oldsz) \<le> unat newsz")
    case True
    then have "unat newsz + 4095 = (unat newsz - unat (PGROUNDUP oldsz) + 4095) + npages oldsz * 4096" using ua by simp
    then have "npages newsz = (unat newsz - unat (PGROUNDUP oldsz) + 4095) div 4096 + npages oldsz"
      unfolding npages_def [of newsz] by (simp only: div_mult_self1 [of 4096])
    then show ?thesis by (simp add: n_def)
  next
    case False
    then have "npages newsz \<le> npages oldsz" unfolding ua npages_def [of newsz] by simp
    then show ?thesis using False by (simp add: n_def)
  qed
  have "wp (kfirst [0 ..< n] (\<lambda>i. alloc_page d oldsz newsz (PGROUNDUP oldsz + of_nat i * PGSIZE)))
      (found_or (\<lambda>t. \<exists>ws. grew d s vs t ws {} (npages oldsz) n) (\<lambda>r t. r = 0 \<and> length vs < 2 * n \<and> (\<exists>ws. undone d s vs t ws {}))) s"
    by (rule allocuvm_loop [OF assms(1,3)]) (use assms(4) a le in \<open>auto simp: n_def\<close>)
  then have "wp (allocuvm d oldsz newsz) (\<lambda>r t. (r = newsz \<and> (\<exists>ws. grew d s vs t ws {} (npages oldsz) n)) \<or>
      (r = 0 \<and> length vs < 2 * n \<and> (\<exists>ws. undone d s vs t ws {}))) s"
    unfolding allocuvm_def Let_def c using assms(2,3) by (simp add: wp_kbind wp_kreturn not_le [symmetric]) (erule wp_mono, auto split: option.splits)
  then show "wp (allocuvm d oldsz newsz) (\<lambda>r t. (r = newsz \<and> (\<exists>ws. grew d s vs t ws {} (npages oldsz) (npages newsz - npages oldsz))) \<or>
      (r = 0 \<and> length vs < 2 * (npages newsz - npages oldsz) \<and> (\<exists>ws. undone d s vs t ws {}))) s"
    by (simp add: n_def)
qed

section \<open>Bytes in memory\<close>

lemma byte_mask: "(0xFF :: u32) = mask 8"
  by (simp add: mask_eq_exp_minus_1)

lemma byte_index: "unat (a AND 3 :: u32) < 4"
proof -
  have "a AND 3 = take_bit 2 a" by (simp add: take_bit_eq_mask mask_eq_exp_minus_1)
  then have "unat (a AND 3) = unat a mod 4" by (simp add: take_bit_eq_mod unat_mod)
  then show ?thesis by simp
qed

lemma word_parts: "(a :: u32) = b \<longleftrightarrow> a AND NOT 3 = b AND NOT 3 \<and> unat (a AND 3) = unat (b AND 3)"
proof
  assume e: "a AND NOT 3 = b AND NOT 3 \<and> unat (a AND 3) = unat (b AND 3)"
  then have "a AND 3 = b AND 3" by (simp only: word_unat_eq_iff)
  then have "(a AND NOT 3) OR (a AND 3) = (b AND NOT 3) OR (b AND 3)" using e by simp
  moreover have "(c AND NOT 3) OR (c AND 3) = c" for c :: u32 by (rule bit_word_eqI) (auto simp: bit_simps)
  ultimately show "a = b" by metis
qed simp

lemma bits_byte:
  fixes w :: u32 and x :: byte
  assumes "j < 4" "k < 4" "i < 8"
  shows "bit ((w AND NOT (push_bit (8 * k) 0xFF)) OR push_bit (8 * k) (ucast x)) (8 * j + i) \<longleftrightarrow> (if j = k then bit x i else bit w (8 * j + i))"
proof -
  have "8 * j + i < 32" using assms by simp
  moreover have "8 * k \<le> 8 * j + i \<and> 8 * j + i - 8 * k < 8 \<longleftrightarrow> j = k" using assms by auto
  ultimately show ?thesis using assms bit_imp_le_length [of x "8 * j + i - 8 * k"]
    by (auto simp: bit_simps byte_mask)
qed

lemma load_store_byte: "load_byte (store_byte m a x) b = (if b = a then x else load_byte m b)"
proof (cases "a AND NOT 3 = b AND NOT 3")
  case False
  then show ?thesis by (auto simp: load_byte_def store_byte_def Let_def)
next
  case True
  have "bit (load_byte (store_byte m a x) b) i = bit (if b = a then x else load_byte m b) i" if "i < 8" for i
    using that bits_byte [OF byte_index [of b] byte_index [of a] that, of "m (b AND NOT 3)" x] True word_parts [of b a]
    by (auto simp: load_byte_def store_byte_def Let_def bit_simps)
  then show ?thesis by (intro bit_word_eqI) simp
qed

lemma load_store_bytes:
  assumes "unat a + length bs \<le> 4294967296"
  shows "load_byte (store_bytes m a bs) b = (if unat a \<le> unat b \<and> unat b < unat a + length bs then bs ! (unat b - unat a) else load_byte m b)"
  using assms
proof (induction bs arbitrary: m a)
  case IH: (Cons x bs)
  show ?case
  proof (cases bs)
    case Nil
    have "b = a \<longleftrightarrow> unat b = unat a" by (simp add: word_unat_eq_iff)
    then show ?thesis using Nil by (auto simp: load_store_byte)
  next
    case (Cons y ys)
    then have u: "unat (a + 1) = unat a + 1" using IH.prems by (simp add: unat_word_ariths)
    have "load_byte (store_bytes (store_byte m a x) (a + 1) bs) b =
        (if unat (a + 1) \<le> unat b \<and> unat b < unat (a + 1) + length bs then bs ! (unat b - unat (a + 1)) else load_byte (store_byte m a x) b)"
      by (rule IH.IH) (use u IH.prems in simp)
    then show ?thesis by (auto simp: u load_store_byte word_unat_eq_iff nth_Cons')
  qed
qed auto

lemma store_byte_other: "PGROUNDDOWN w \<noteq> PGROUNDDOWN a \<Longrightarrow> store_byte m a x w = m w"
proof -
  have "PGROUNDDOWN (a AND NOT 3) = PGROUNDDOWN a"
    by (simp add: PGROUNDDOWN_def PGSIZE_def and.assoc)
  then show "PGROUNDDOWN w \<noteq> PGROUNDDOWN a \<Longrightarrow> store_byte m a x w = m w" by (auto simp: store_byte_def Let_def)
qed

lemma store_bytes_other:
  assumes "PGROUNDDOWN w \<noteq> p" "\<And>i. i < length bs \<Longrightarrow> PGROUNDDOWN (a + of_nat i) = p"
  shows "store_bytes m a bs w = m w"
  using assms(2)
proof (induction bs arbitrary: m a)
  case (Cons x bs)
  have "store_bytes (store_byte m a x) (a + 1) bs w = store_byte m a x w"
    by (rule Cons.IH) (use Cons.prems [of "Suc i" for i] in \<open>simp add: add.assoc\<close>)
  then show ?case using store_byte_other [of w a] Cons.prems [of 0] assms(1) by simp
qed simp

section \<open>Writing user memory\<close>

definition poff :: "u32 \<Rightarrow> u32" where "poff va = va - PGROUNDDOWN va"

lemma poff_unat: "unat (poff va) = unat va mod 4096"
  by (simp add: poff_def unat_sub PGROUNDDOWN_le PGROUNDDOWN_unat minus_div_mult_eq_mod)

text \<open>The byte a program sees at a virtual address.\<close>

definition ubyte :: "(u32 \<Rightarrow> u32) \<Rightarrow> u32 \<Rightarrow> u32 \<Rightarrow> byte option" where
  "ubyte m d va = map_option (\<lambda>e. load_byte m (frame_of e + poff va)) (translate m d va)"

definition copied :: "u32 \<Rightarrow> 'r kmem_state_scheme \<Rightarrow> 'r kmem_state_scheme \<Rightarrow> u32 \<Rightarrow> byte list \<Rightarrow> bool" where
  "copied d s t va buf \<longleftrightarrow> kmem_frame s t \<and> (\<forall>vb. translate (mem t) d vb = translate (mem s) d vb) \<and>
     (\<forall>vb < KERNBASE. ubyte (mem t) d vb = (if unat va \<le> unat vb \<and> unat vb < unat va + length buf then Some (buf ! (unat vb - unat va)) else ubyte (mem s) d vb)) \<and>
     (\<forall>b. PGROUNDDOWN b \<notin> upages (mem s) d \<longrightarrow> mem t b = mem s b)"

lemma frame_poff:
  assumes "page_ok e f" "k < 4096"
  shows "PGROUNDDOWN (f + of_nat k) = f" "unat (f + of_nat k) = unat f + k"
  using page_offset [OF page_okD [OF assms(1)], of "of_nat k"] assms(2) by (simp_all add: unat_of_nat)

lemma frame_off:
  assumes "page_ok e f"
  shows "PGROUNDDOWN (f + poff va) = f" "unat (f + poff va) = unat f + unat va mod 4096"
  using page_offset [OF page_okD [OF assms], of "poff va"] by (simp_all add: poff_unat)

lemma unat_pgn: "unat va = pgn va * 4096 + unat va mod 4096"
  by (simp add: pgn_def)

lemma in_frame:
  assumes "f mod PGSIZE = 0" "unat f \<le> unat x" "unat x < unat f + 4096"
  shows "PGROUNDDOWN x = f"
proof -
  have "unat x div 4096 = pgn f" using assms(2,3) aligned_pgn [OF assms(1)] by (intro div_nat_eqI) simp_all
  then show ?thesis using aligned_pgn [OF assms(1)] by (simp add: word_unat_eq_iff PGROUNDDOWN_unat)
qed

lemma copy_chunk:
  assumes ok: "user_ok s d vs" and va: "va < KERNBASE" "translate (mem s) d va = Some e" and len: "unat va mod 4096 + length bs \<le> 4096"
  defines "t \<equiv> s\<lparr>mem := store_bytes (mem s) (frame_of e + poff va) bs\<rparr>"
  shows "user_ok t d vs" "copied d s t va bs"
proof -
  let ?f = "frame_of e"
  note f = user_okD(2) [OF ok va]
  have in_page: "PGROUNDDOWN (?f + poff va + of_nat i) = ?f" "unat (?f + poff va + of_nat i) = unat ?f + unat va mod 4096 + i" if "i < length bs" for i
    using frame_poff [of "kend s" ?f "unat va mod 4096 + i"] f that len by (simp_all add: add.assoc poff_unat [symmetric])
  have other: "store_bytes (mem s) (?f + poff va) bs w = mem s w" if "PGROUNDDOWN w \<noteq> ?f" for w by (rule store_bytes_other [OF that in_page(1)])
  have w: "store_bytes (mem s) (?f + poff va) bs a = mem s a" if "PGROUNDDOWN a \<in> pt_pages (mem s) d \<union> set vs" for a
    by (rule other) (use that f in auto)
  note uw = user_write [OF ok w]
  show "user_ok t d vs" unfolding t_def by (rule uw(1))
  have u0: "unat (?f + poff va) = unat ?f + unat va mod 4096"
    using frame_off(2) f by blast
  have "unat (?f + poff va) + length bs \<le> 4294967296"
    using u0 len aligned_pgn [OF page_okD [OF f [THEN conjunct1]]] pgn_less [of ?f] by linarith
  note ld = load_store_bytes [OF this]
  show "copied d s t va bs"
    unfolding copied_def
  proof (intro conjI allI impI)
    show "kmem_frame s t" by (simp add: kmem_frame_def t_def)
    show "translate (mem t) d vb = translate (mem s) d vb" for vb using uw(2) by (simp add: t_def)
    show "mem t b = mem s b" if "PGROUNDDOWN b \<notin> upages (mem s) d" for b
      unfolding t_def using that upagesI [OF va] by (auto intro: other)
  next
    fix vb assume vb: "vb < KERNBASE"
    show "ubyte (mem t) d vb = (if unat va \<le> unat vb \<and> unat vb < unat va + length bs then Some (bs ! (unat vb - unat va)) else ubyte (mem s) d vb)"
    proof (cases "pgn vb = pgn va")
      case True
      then have tr: "translate (mem s) d vb = Some e" using va(2) translate_pgn [of vb va] by simp
      have ub: "unat (?f + poff vb) = unat ?f + unat vb mod 4096"
        using frame_off(2) f by blast
      have "unat vb = pgn va * 4096 + unat vb mod 4096" "unat va = pgn va * 4096 + unat va mod 4096"
        using True unat_pgn [of vb] unat_pgn [of va] by simp_all
      then have "unat vb - unat va = unat vb mod 4096 - unat va mod 4096" "unat va \<le> unat vb \<longleftrightarrow> unat va mod 4096 \<le> unat vb mod 4096"
        "unat vb < unat va + length bs \<longleftrightarrow> unat vb mod 4096 < unat va mod 4096 + length bs" by linarith+
      then show ?thesis using tr uw(2) by (simp add: ubyte_def t_def ld u0 ub)
    next
      case False
      have nr: "\<not> (unat va \<le> unat vb \<and> unat vb < unat va + length bs)"
      proof
        assume r: "unat va \<le> unat vb \<and> unat vb < unat va + length bs"
        then have "pgn va * 4096 \<le> unat vb" "unat vb < pgn va * 4096 + 4096" using unat_pgn [of va] len by linarith+
        then have "pgn vb = pgn va" unfolding pgn_def [of vb] by (intro div_nat_eqI) simp_all
        then show False using False by simp
      qed
      show ?thesis
      proof (cases "translate (mem s) d vb")
        case None
        then show ?thesis using uw(2) nr by (simp add: ubyte_def t_def)
      next
        case (Some e')
        have ne: "frame_of e' \<noteq> ?f" using user_okD(3) [OF ok vb va(1) Some va(2)] False by auto
        have pg: "PGROUNDDOWN (frame_of e' + poff vb) = frame_of e'"
          using frame_off(1) user_okD(2) [OF ok vb Some] by blast
        have "\<not> (unat (?f + poff va) \<le> unat (frame_of e' + poff vb) \<and> unat (frame_of e' + poff vb) < unat (?f + poff va) + length bs)"
          using in_frame [OF page_okD [OF f [THEN conjunct1]], of "frame_of e' + poff vb"] pg ne u0 len by auto
        then show ?thesis unfolding if_not_P [OF nr] using Some uw(2) ld by (auto simp: ubyte_def t_def)
      qed
    qed
  qed
qed

lemma copied_trans:
  assumes st: "copied d s t va bs" and tu: "copied d t u va' bs'" and va': "unat va' = unat va + length bs"
  shows "copied d s u va (bs @ bs')"
proof -
  have up: "upages (mem t) d = upages (mem s) d" using st by (intro upages_cong) (simp add: copied_def)
  show ?thesis
    using st tu kmem_frame_trans [of s t u] by (auto simp: copied_def up va' nth_append)
qed

text \<open>A range of addresses that a program may use.\<close>

definition user_range :: "(u32 \<Rightarrow> u32) \<Rightarrow> u32 \<Rightarrow> nat \<Rightarrow> nat \<Rightarrow> bool" where
  "user_range m d a n \<longleftrightarrow> a + n \<le> unat KERNBASE \<and> (\<forall>va. a \<le> unat va \<and> unat va < a + n \<longrightarrow> (\<exists>e. translate m d va = Some e \<and> e AND PTE_U \<noteq> 0))"

lemma uva2ka_ok:
  assumes "translate (mem s) d va = Some e" "e AND PTE_U \<noteq> 0"
  shows "uva2ka null_word d va s = Ok (frame_of e) s"
  using assms by (auto simp: uva2ka_def k_defs walk_find translate_def Let_def frame_of_def split: if_splits)

lemma copyout_loop_ok:
  assumes "user_ok s d vs" "user_range (mem s) d (unat va) (length buf)" "length buf \<le> k"
  shows "wp (copyout_loop k null_word d va buf) (\<lambda>r t. r = 0 \<and> user_ok t d vs \<and> copied d s t va buf) s"
  using assms
proof (induction k arbitrary: s va buf)
  case 0
  then show ?case by (auto simp: wp_kreturn copied_def kmem_frame_refl)
next
  case (Suc k)
  show ?case
  proof (cases "buf = []")
    case True
    then show ?thesis using Suc.prems by (auto simp: wp_kreturn copied_def kmem_frame_refl)
  next
    case False
    then have "0 < length buf" by simp
    then have lt: "unat va < unat KERNBASE" "va < KERNBASE" using Suc.prems(2) unfolding user_range_def word_less_nat_alt by linarith+
    obtain e where e: "translate (mem s) d va = Some e" "e AND PTE_U \<noteq> 0" using Suc.prems(2) False by (auto simp: user_range_def)
    have e0: "translate (mem s) d (PGROUNDDOWN va) = Some e" using e(1) translate_pgn [of "PGROUNDDOWN va" va] by simp
    have nz: "frame_of e \<noteq> 0"
      using user_okD(2) [OF Suc.prems(1) lt(2) e(1)] pt_okD(4) [OF user_okD(1) [OF Suc.prems(1)]] by (auto simp: page_ok_def)
    define n where "n = min (4096 - unat (poff va)) (length buf)"
    have n: "unat va mod 4096 + n \<le> 4096" "0 < n" "n \<le> length buf" using False by (auto simp: n_def poff_unat min_def not_le)
    define t where "t = s\<lparr>mem := store_bytes (mem s) (frame_of e + poff va) (take n buf)\<rparr>"
    have "unat va mod 4096 + length (take n buf) \<le> 4096" using n by simp
    note c = copy_chunk [OF Suc.prems(1) lt(2) e(1) this, folded t_def]
    have "wp (copyout_loop k null_word d (PGROUNDDOWN va + PGSIZE) (drop n buf)) (\<lambda>r u. r = 0 \<and> user_ok u d vs \<and> copied d s u va buf) t"
    proof (cases "drop n buf = []")
      case True
      then show ?thesis using c n(3) by (cases k) (auto simp: wp_kreturn)
    next
      case dn: False
      then have nn: "unat va mod 4096 + n = 4096" by (auto simp: n_def poff_unat min_def split: if_splits)
      have va': "unat (PGROUNDDOWN va + PGSIZE) = unat va + n"
      proof -
        have "unat (PGROUNDDOWN va) + 4096 = unat va + n" using unat_pgn [of va] nn by (simp add: PGROUNDDOWN_unat pgn_def [symmetric])
        then show ?thesis using lt(1) n(1) by (simp add: PGSIZE_def KERNBASE_def unat_word_ariths)
      qed
      have "wp (copyout_loop k null_word d (PGROUNDDOWN va + PGSIZE) (drop n buf)) (\<lambda>r u. r = 0 \<and> user_ok u d vs \<and> copied d t u (PGROUNDDOWN va + PGSIZE) (drop n buf)) t"
        by (rule Suc.IH) (use c Suc.prems(2,3) va' n in \<open>auto simp: user_range_def copied_def\<close>)
      then show ?thesis
        by (rule wp_mono) (use copied_trans [OF c(2), of _ "PGROUNDDOWN va + PGSIZE" "drop n buf"] va' n(3) in auto)
    qed
    then show ?thesis
      using False nz by (simp add: Let_def wp_kbind wp_kmod poff_def [symmetric] n_def [symmetric] t_def [symmetric] wp_iff_Ok [of "uva2ka _ _ _"] uva2ka_ok [OF e0 e(2)])
  qed
qed

section \<open>The operations\<close>

text \<open>
  C30. \<^verbatim>\<open>allocuvm\<close> returns. It either maps every page between the two sizes to a zeroed, user-writable frame that was free, or, when
  fewer than two free pages are left for each page to map, it returns 0 with every mapping as it was. In both cases the other mappings and the memory outside the
  tables and the free list are unchanged, no page is lost, and the frames of the address space stay distinct.
\<close>

theorem allocuvm_grows:
  assumes "user_ok s d vs" "oldsz \<le> newsz" "newsz < KERNBASE"
    "\<forall>va. npages oldsz \<le> pgn va \<and> pgn va < npages newsz \<longrightarrow> translate (mem s) d va = None"
  shows "\<exists>r t ws. allocuvm d oldsz newsz s = Ok r t \<and> user_ok t d ws \<and> owned t d ws = owned s d vs \<and>
    (\<forall>b. PGROUNDDOWN b \<notin> pt_pages (mem s) d \<union> set vs \<longrightarrow> mem t b = mem s b) \<and>
    (if r = newsz then \<forall>va. if npages oldsz \<le> pgn va \<and> pgn va < npages newsz
         then \<exists>f \<in> set vs. translate (mem t) d va = Some (V2P f OR (PTE_W OR PTE_U) OR PTE_P) \<and> (\<forall>b. PGROUNDDOWN b = f \<longrightarrow> mem t b = 0)
         else translate (mem t) d va = translate (mem s) d va
     else r = 0 \<and> length vs < 2 * (npages newsz - npages oldsz) \<and> (\<forall>va. translate (mem t) d va = translate (mem s) d va))"
proof -
  let ?n = "npages newsz - npages oldsz"
  note a = allocuvm_ok [OF assms]
  obtain r t where rt: "allocuvm d oldsz newsz s = Ok r t"
    and alt: "(r = newsz \<and> (\<exists>ws. grew d s vs t ws {} (npages oldsz) ?n)) \<or> (r = 0 \<and> length vs < 2 * ?n \<and> (\<exists>ws. undone d s vs t ws {}))"
    using a(2) by (auto simp: wp_iff_Ok)
  from alt show ?thesis
  proof (elim disjE conjE exE)
    fix ws assume g: "r = newsz" "grew d s vs t ws {} (npages oldsz) ?n"
    then show ?thesis using rt a(1) grewD(1,5,7,8,9) [OF g(2)] by (intro exI [of _ r] exI [of _ t] exI [of _ ws]) auto
  next
    fix ws assume u: "r = 0" "length vs < 2 * ?n" "undone d s vs t ws {}"
    have "r \<noteq> newsz" using u(1,2) a(1) by (auto simp: npages_def)
    then show ?thesis using rt u by (intro exI [of _ r] exI [of _ t] exI [of _ ws]) (auto simp: undone_def)
  qed
qed

text \<open>
  C31. \<^verbatim>\<open>deallocuvm\<close> returns, however the page tables are filled: it unmaps exactly the pages between the two sizes and gives their
  frames back to the free list, so that no page is lost; every page that stays mapped keeps its content.
\<close>

theorem deallocuvm_shrinks:
  assumes "user_ok s d vs" "oldsz \<le> KERNBASE" "newsz \<le> oldsz"
  shows "\<exists>t ws. deallocuvm d oldsz newsz s = Ok newsz t \<and> user_ok t d ws \<and> owned t d ws = owned s d vs \<and>
    (\<forall>va. translate (mem t) d va = (if npages newsz \<le> pgn va \<and> pgn va < npages oldsz then None else translate (mem s) d va)) \<and>
    (\<forall>b. PGROUNDDOWN b \<in> upages (mem t) d \<longrightarrow> mem t b = mem s b)"
proof -
  have le: "npages newsz \<le> npages oldsz" using assms(3) by (simp add: npages_def word_le_nat_alt div_le_mono)
  obtain r t ws where t: "deallocuvm d oldsz newsz s = Ok r t" "r = (if oldsz \<le> newsz then oldsz else newsz)" "freed d s vs t ws"
    "remap d s t (npages newsz) (npages oldsz - npages newsz) (\<lambda>_. None)"
    using deallocuvm_ok [OF assms(1,2), of newsz] by (auto simp: wp_iff_Ok)
  have ok: "user_ok t d ws" "owned t d ws = owned s d vs" using t(3) by (simp_all add: freed_def)
  have "mem t b = mem s b" if "PGROUNDDOWN b \<in> upages (mem t) d" for b
    using that t(3) upages_disjoint [OF ok(1)] by (auto simp: freed_def)
  moreover have "r = newsz" using t(2) assms(3) by auto
  ultimately show ?thesis using t(1,4) ok le by (intro exI [of _ t] exI [of _ ws]) (auto simp: remap_def)
qed

text \<open>
  C32. \<^verbatim>\<open>copyout\<close> to a range whose pages are all mapped for the user returns 0 and puts exactly the bytes of the buffer there, page by page:
  every other byte of the address space, every mapping and all memory outside its frames stay as they were.
\<close>

theorem copyout_writes:
  assumes "user_ok s d vs" "user_range (mem s) d (unat va) (length buf)"
  shows "\<exists>t. copyout null_word d va buf s = Ok 0 t \<and> user_ok t d vs \<and> (\<forall>vb. translate (mem t) d vb = translate (mem s) d vb) \<and>
    (\<forall>vb < KERNBASE. ubyte (mem t) d vb = (if unat va \<le> unat vb \<and> unat vb < unat va + length buf then Some (buf ! (unat vb - unat va)) else ubyte (mem s) d vb)) \<and>
    (\<forall>b. PGROUNDDOWN b \<notin> upages (mem s) d \<longrightarrow> mem t b = mem s b)"
  using copyout_loop_ok [OF assms order_refl, of null_word] by (auto simp: copyout_def copied_def wp_iff_Ok)

text \<open>
  \<^verbatim>\<open>uva2ka\<close> does not look at the null pointer \<^verbatim>\<open>walkpgdir\<close> returns when there is no page table: the word at address 0, which belongs to the
  program, is then taken for a page table entry, and any physical page it names becomes the target of \<^verbatim>\<open>copyout\<close>.
\<close>

lemma uva2ka_null:
  assumes "\<not> present (mem s (d + 4 * PDX va))" "present null_word" "null_word AND PTE_U \<noteq> 0"
  shows "uva2ka null_word d va s = Ok (P2V (PTE_ADDR null_word)) s"
  using assms by (simp add: uva2ka_def k_defs walk_find)

section \<open>An example\<close>

text \<open>An empty page directory and two free pages.\<close>

definition ex_pgdir :: u32 where "ex_pgdir = 0x80400000"

definition ex_vm :: kmem_state where
  "ex_vm = \<lparr>ncli = 0, intena = False, int_on = False, held = {}, mem = (\<lambda>_. 0)(0x80500000 := 0x80600000), kend = 0x80100000,
     freelist = 0x80500000, use_lock = True\<rparr>"

lemma ex_vm_empty: "i < 1024 \<Longrightarrow> mem ex_vm (ex_pgdir + 4 * i) = 0"
proof -
  assume i: "i < 1024"
  have "ex_pgdir mod PGSIZE = 0" by code_simp
  from entry_page [OF this i] have "PGROUNDDOWN (ex_pgdir + 4 * i) = ex_pgdir" .
  moreover have "PGROUNDDOWN 0x80500000 \<noteq> ex_pgdir" by code_simp
  ultimately show ?thesis by (auto simp: ex_vm_def)
qed

lemma ex_vm_ok: "user_ok ex_vm ex_pgdir [0x80500000, 0x80600000]" "translate (mem ex_vm) ex_pgdir va = None"
proof -
  show tr: "translate (mem ex_vm) ex_pgdir va = None" for va using ex_vm_empty [OF PDX_less] by (simp add: translate_def)
  have pg: "page_ok (kend ex_vm) ex_pgdir" "page_ok (kend ex_vm) 0x80500000" "page_ok (kend ex_vm) 0x80600000" "KERNBASE < kend ex_vm"
    "ex_pgdir \<noteq> 0x80500000" "ex_pgdir \<noteq> 0x80600000" "(0x80500000 :: u32) \<noteq> 0x80600000" by code_simp+
  have pp: "pt_pages (mem ex_vm) ex_pgdir = {ex_pgdir}" using ex_vm_empty by (auto simp: pt_pages_def)
  have "kpool ex_vm [0x80500000, 0x80600000]"
    using pg by (simp add: kpool_def kmem_inv_def) (simp add: ex_vm_def)
  moreover have "pt_wf (kend ex_vm) (mem ex_vm) ex_pgdir" using ex_vm_empty pg(1) by (simp add: pt_wf_def)
  ultimately have "pt_ok ex_vm ex_pgdir [0x80500000, 0x80600000]" using pg by (simp add: pt_ok_def pp)
  then show "user_ok ex_vm ex_pgdir [0x80500000, 0x80600000]" using tr by (simp add: user_ok_def)
qed

lemma ex_sizes: "(0 :: u32) \<le> 4096" "(4096 :: u32) < KERNBASE" "npages 0 = 0" "npages 4096 = 1" "pgn 0 = 0"
  by (simp_all add: npages_def pgn_def KERNBASE_def)

theorem allocuvm_grows_witness:
  "\<exists>t ws. allocuvm ex_pgdir 0 4096 ex_vm = Ok 4096 t \<and> user_ok t ex_pgdir ws \<and> translate (mem t) ex_pgdir 0 \<noteq> None"
proof -
  let ?vs = "[0x80500000, 0x80600000] :: u32 list"
  obtain r t ws where t: "allocuvm ex_pgdir 0 4096 ex_vm = Ok r t" "user_ok t ex_pgdir ws"
    and r: "if r = 4096 then \<forall>va. if npages 0 \<le> pgn va \<and> pgn va < npages 4096
        then \<exists>f \<in> set ?vs. translate (mem t) ex_pgdir va = Some (V2P f OR (PTE_W OR PTE_U) OR PTE_P) \<and> (\<forall>b. PGROUNDDOWN b = f \<longrightarrow> mem t b = 0)
        else translate (mem t) ex_pgdir va = translate (mem ex_vm) ex_pgdir va
      else r = 0 \<and> length ?vs < 2 * (npages 4096 - npages 0) \<and> (\<forall>va. translate (mem t) ex_pgdir va = translate (mem ex_vm) ex_pgdir va)"
    using allocuvm_grows [OF ex_vm_ok(1) ex_sizes(1,2)] ex_vm_ok(2) by blast
  have "r = 4096" using r ex_sizes(3,4) by (simp split: if_splits)
  moreover have "translate (mem t) ex_pgdir 0 \<noteq> None" using r [unfolded if_P [OF \<open>r = 4096\<close>], rule_format, of 0] ex_sizes(3-5) by auto
  ultimately show ?thesis using t by blast
qed

text \<open>The same directory with one page of user memory.\<close>

lemma ex_grown: "\<exists>t ws. grew ex_pgdir ex_vm [0x80500000, 0x80600000] t ws {} 0 1"
  using allocuvm_ok(2) [OF ex_vm_ok(1) ex_sizes(1,2)] ex_vm_ok(2) ex_sizes(3,4) by (auto simp: wp_iff_Ok)

lemma ex_user: "\<exists>(s :: kmem_state) vs e. user_ok s ex_pgdir vs \<and> translate (mem s) ex_pgdir 0 = Some e \<and> user_range (mem s) ex_pgdir 16 3"
proof -
  obtain s vs where g: "grew ex_pgdir ex_vm [0x80500000, 0x80600000] s vs {} 0 1" using ex_grown by blast
  have m: "\<exists>e. translate (mem s) ex_pgdir va = Some e \<and> e AND PTE_U \<noteq> 0" if "pgn va = 0" for va
    using grewD(7) [OF g, of va] that by (auto simp: pte_defs bit.conj_disj_distrib2)
  then have "user_range (mem s) ex_pgdir 16 3" by (auto simp: user_range_def KERNBASE_def pgn_def)
  then show ?thesis using grewD(1) [OF g] m [OF ex_sizes(5)] by blast
qed

theorem deallocuvm_shrinks_witness:
  "\<exists>(s :: kmem_state) t. translate (mem s) ex_pgdir 0 \<noteq> None \<and> deallocuvm ex_pgdir 4096 0 s = Ok 0 t \<and> translate (mem t) ex_pgdir 0 = None"
proof -
  obtain s :: kmem_state and vs e where s: "user_ok s ex_pgdir vs" "translate (mem s) ex_pgdir 0 = Some e" using ex_user by blast
  have "(4096 :: u32) \<le> KERNBASE" using ex_sizes(2) by simp
  then obtain t where t: "deallocuvm ex_pgdir 4096 0 s = Ok 0 t"
    "\<forall>va. translate (mem t) ex_pgdir va = (if npages 0 \<le> pgn va \<and> pgn va < npages 4096 then None else translate (mem s) ex_pgdir va)"
    using deallocuvm_shrinks [OF s(1) _ ex_sizes(1)] by blast
  have "translate (mem t) ex_pgdir 0 = None" using t(2) ex_sizes(3-5) by simp
  then show ?thesis using t(1) s(2) by blast
qed

theorem copyout_writes_witness:
  "\<exists>(s :: kmem_state) t. copyout 0 ex_pgdir 16 [1, 2, 3] s = Ok 0 t \<and> ubyte (mem t) ex_pgdir 17 = Some 2"
proof -
  obtain s :: kmem_state and vs where s: "user_ok s ex_pgdir vs" "user_range (mem s) ex_pgdir (unat (16 :: u32)) (length [1, 2, 3 :: byte])"
    using ex_user by (auto simp: numeral_3_eq_3)
  have "(17 :: u32) < KERNBASE" by (simp add: KERNBASE_def)
  moreover obtain t where t: "copyout 0 ex_pgdir 16 [1, 2, 3] s = Ok 0 t"
    "\<forall>vb < KERNBASE. ubyte (mem t) ex_pgdir vb = (if unat (16 :: u32) \<le> unat vb \<and> unat vb < unat (16 :: u32) + length [1, 2, 3 :: byte]
       then Some ([1, 2, 3] ! (unat vb - unat (16 :: u32))) else ubyte (mem s) ex_pgdir vb)"
    using copyout_writes [OF s, of 0] by blast
  ultimately have "ubyte (mem t) ex_pgdir 17 = Some 2" by (simp add: One_nat_def)
  then show ?thesis using t(1) by blast
qed

end
