(* ===== verification/Reserve.thy ===== *)
theory Reserve
  imports Crash
begin

text \<open>
  The reservation scheme of \<^verbatim>\<open>begin_op\<close>. \<open>reserved s us\<close>: the log state \<open>s\<close> can be reached by any interleaving of system calls that
  are admitted by \<^verbatim>\<open>begin_op\<close>, log blocks and leave through \<^verbatim>\<open>end_op\<close>; \<open>us\<close> holds the blocks each call in progress has logged. The
  theorem: a call that has logged fewer than \<^verbatim>\<open>MAXOPBLOCKS\<close> blocks can log another one.
\<close>

section \<open>Operations that leave the log header alone\<close>

definition keeps_log :: "('r bio_state_scheme, 'a) K \<Rightarrow> bool" where
  "keeps_log m \<longleftrightarrow> (\<forall>s. wlp m (\<lambda>_ t. bio_state.more t = bio_state.more s) s)"

named_theorems keeps_log_intro

lemma keeps_log_bind [keeps_log_intro]:
  assumes "keeps_log m" "\<And>a. keeps_log (f a)"
  shows "keeps_log (kbind m f)"
  unfolding keeps_log_def
proof
  fix s
  have "wlp m (\<lambda>_ t. bio_state.more t = bio_state.more s) s" using assms(1) by (simp add: keeps_log_def)
  then show "wlp (kbind m f) (\<lambda>_ t. bio_state.more t = bio_state.more s) s"
    by (rule wlp_seq) (use assms(2) in \<open>metis keeps_log_def\<close>)
qed

lemma keeps_log_kfor [keeps_log_intro]: "(\<And>x. keeps_log (f x)) \<Longrightarrow> keeps_log (kfor xs f)"
  unfolding keeps_log_def by (intro allI wlp_kfor_inv) (simp, metis)

lemma keeps_log_get [keeps_log_intro]: "keeps_log (kget f)" "keeps_log (kreturn x)"
  by (simp_all add: keeps_log_def wp_simps)

lemma keeps_log_buf [keeps_log_intro]: "keeps_log (get_buf b f)" "keeps_log (upd_buf b g)"
  by (simp_all add: keeps_log_def get_buf_def upd_buf_def wp_simps)

lemma keeps_log_if [keeps_log_intro]: "keeps_log m \<Longrightarrow> keeps_log n \<Longrightarrow> keeps_log (if b then m else n)"
  by simp

lemma keeps_log_panic [keeps_log_intro]: "keeps_log (kpanic msg)"
  by (simp add: keeps_log_def wp_simps)

lemma keeps_log_iderw: "keeps_log (iderw b)"
  by (auto simp: keeps_log_def iderw_def wp_simps Let_def)

lemma keeps_log_bread [keeps_log_intro]: "keeps_log (bread d n)"
proof -
  have "keeps_log (bget d n)" unfolding keeps_log_def
    by (intro allI bget_wlp) (simp add: bget_done_def)
  then show ?thesis unfolding bread_def by (intro keeps_log_intro) (auto intro: keeps_log_iderw keeps_log_get)
qed

lemma keeps_log_bwrite [keeps_log_intro]: "keeps_log (bwrite b)"
proof -
  have "keeps_log (holdingsleep_buf b)" by (simp add: keeps_log_def wp_simps)
  then show ?thesis unfolding bwrite_def by (intro keeps_log_intro) (auto intro: keeps_log_iderw keeps_log_intro)
qed

lemma keeps_log_brelse [keeps_log_intro]: "keeps_log (brelse b)"
  unfolding keeps_log_def by (intro allI brelse_wlp) (simp add: brelse_done_def Let_def)

lemma keeps_log_copy [keeps_log_intro]: "keeps_log (copy_buf b c)"
  unfolding copy_buf_def by (intro keeps_log_intro)

lemma keeps_log_commit:
  "keeps_log write_log" "keeps_log write_head" "keeps_log install_trans"
  unfolding write_log_def write_head_def install_trans_def by (auto split: prod.split intro!: keeps_log_intro)

lemma keeps_logD:
  fixes s :: "'r log_state_scheme"
  assumes "keeps_log m"
  shows "wlp m (\<lambda>_ t. lh_n t = lh_n s \<and> lh_block t = lh_block s \<and> log_size t = log_size s \<and> log_outstanding t = log_outstanding s \<and> log_committing t = log_committing s) s"
proof -
  have "wlp m (\<lambda>_ t. bio_state.more t = bio_state.more s) s" using assms by (simp add: keeps_log_def)
  then show ?thesis by (rule wlp_mono) (metis log_fields) 
qed

text \<open>The parts of the log that the scheme is about.\<close>

definition log_view :: "'r log_state_scheme \<Rightarrow> int \<times> int \<times> bool \<times> int \<times> nat list" where
  "log_view s = (log_size s, log_outstanding s, log_committing s, lh_n s, lh_block s)"

lemma keeps_log_view: "keeps_log m \<Longrightarrow> log_view s = v \<Longrightarrow> wlp m (\<lambda>_ t. log_view t = v) s"
  by (rule wlp_mono [OF keeps_logD [of m s]]) (auto simp: log_view_def)

lemma log_view_touch [simp]:
  "log_view (acq lk s) = log_view s" "log_view (rel lk s) = log_view s" "log_view (wakes c s) = log_view s"
  by (simp_all add: log_view_def acq_def rel_def wakes_def)

lemma commit_view:
  assumes "log_view s = (sz, out, c, n, bl)"
  shows "wlp commit (\<lambda>_ t. log_view t = (sz, out, c, if 0 < n then 0 else n, bl)) s"
proof (cases "0 < n")
  case True
  have "wlp (kbind write_log (\<lambda>_. kbind write_head (\<lambda>_. kbind install_trans (\<lambda>_. kbind (kmod (\<lambda>s. s\<lparr>lh_n := 0\<rparr>)) (\<lambda>_. write_head)))))
      (\<lambda>_ t. log_view t = (sz, out, c, 0, bl)) s"
  proof (intro wlp_seq [OF keeps_log_view [OF keeps_log_commit(1) assms]], rule wlp_seq [OF keeps_log_view [OF keeps_log_commit(2)]], assumption,
      rule wlp_seq [OF keeps_log_view [OF keeps_log_commit(3)]], assumption)
    fix u :: "'a log_state_scheme" assume "log_view u = (sz, out, c, n, bl)"
    then have v: "log_view (u\<lparr>lh_n := 0\<rparr>) = (sz, out, c, 0, bl)" by (simp add: log_view_def)
    show "wlp (kbind (kmod (\<lambda>s. s\<lparr>lh_n := 0\<rparr>)) (\<lambda>_. write_head)) (\<lambda>_ t. log_view t = (sz, out, c, 0, bl)) u"
      using keeps_log_view [OF keeps_log_commit(2) v] by (simp add: wp_simps)
  qed
  then show ?thesis using True assms by (simp add: commit_def wp_simps log_view_def)
next
  case False
  then show ?thesis using assms by (simp add: commit_def wp_simps log_view_def)
qed

lemma end_op_view:
  fixes s :: "'r log_state_scheme"
  assumes "log_view s = (sz, out, c, n, bl)"
  shows "wlp end_op (\<lambda>_ t. \<not> c \<and> log_view t = (sz, out - 1, False, if out = 1 \<and> 0 < n then 0 else n, bl)) s"
proof -
  have "wlp (if out = 1 then kbind commit (\<lambda>_. kbind (acquire LLog) (\<lambda>_. kbind (kmod (\<lambda>s. s\<lparr>log_committing := False\<rparr>)) (\<lambda>_. kbind (wakeup ChanLog) (\<lambda>_. release LLog))))
        else kreturn ()) (\<lambda>_ t. log_view t = (sz, out - 1, False, if out = 1 \<and> 0 < n then 0 else n, bl)) u"
    if u: "log_view u = (sz, out - 1, out = 1, n, bl)" for u :: "'r log_state_scheme"
  proof (cases "out = 1")
    case True
    have "wlp commit (\<lambda>_. wlp (kbind (acquire LLog) (\<lambda>_. kbind (kmod (\<lambda>s. s\<lparr>log_committing := False\<rparr>)) (\<lambda>_. kbind (wakeup ChanLog) (\<lambda>_. release LLog))))
        (\<lambda>_ t. log_view t = (sz, out - 1, False, if out = 1 \<and> 0 < n then 0 else n, bl))) u"
      by (rule wlp_mono [OF commit_view [OF u]]) (simp add: wp_simps log_view_def acq_def rel_def wakes_def True)
    then show ?thesis using True by (simp add: wlp_kbind)
  qed (use u in \<open>simp add: wp_simps\<close>)
  then show ?thesis
    using assms unfolding end_op_def by (auto simp: wp_simps log_view_def wakes_def acq_def rel_def)
qed

lemma begin_op_view:
  assumes "log_view s = (sz, out, c, n, bl)"
  shows "wlp begin_op (\<lambda>_ t. \<not> c \<and> n + (out + 1) * MAXOPBLOCKS \<le> LOGSIZE \<and> log_view t = (sz, out + 1, c, n, bl)) s"
  using assms by (auto simp: begin_op_def wp_simps log_view_def acq_def rel_def)

section \<open>Interleavings of system calls\<close>

text \<open>
  \<open>other\<close> stands for everything that leaves the log alone, a \<^verbatim>\<open>begin_op\<close> that has to wait included. A call that ends is the \<open>i\<close>th of
  those in progress; the last one to end commits.
\<close>

inductive reserved :: "'r log_state_scheme \<Rightarrow> nat set list \<Rightarrow> bool" where
  start: "log_view s = (sz, 0, False, 0, bl) \<Longrightarrow> int (length bl) = LOGSIZE \<Longrightarrow> reserved s []"
| admit: "reserved s us \<Longrightarrow> begin_op s = Ok () t \<Longrightarrow> reserved t ({} # us)"
| logs: "reserved s us \<Longrightarrow> i < length us \<Longrightarrow> int (card (us ! i)) < MAXOPBLOCKS \<Longrightarrow> log_write b s = Ok () t \<Longrightarrow>
    reserved t (us[i := insert (b_blockno (bufs s ! b)) (us ! i)])"
| finish: "reserved s us \<Longrightarrow> i < length us \<Longrightarrow> end_op s = Ok () t \<Longrightarrow> reserved t (take i us @ drop (Suc i) us)"
| other: "reserved s us \<Longrightarrow> log_view t = log_view s \<Longrightarrow> reserved t us"

text \<open>What the calls in progress may still log.\<close>

definition unused :: "nat set list \<Rightarrow> int" where
  "unused us = sum_list (map (\<lambda>B. MAXOPBLOCKS - int (card B)) us)"

definition res_inv :: "'r log_state_scheme \<Rightarrow> nat set list \<Rightarrow> bool" where
  "res_inv s us \<longleftrightarrow> log_outstanding s = int (length us) \<and> 0 \<le> lh_n s \<and> int (length (lh_block s)) = LOGSIZE \<and>
     (\<forall>B \<in> set us. finite B \<and> int (card B) \<le> MAXOPBLOCKS \<and> B \<subseteq> set (txn s)) \<and> lh_n s + unused us \<le> LOGSIZE"

lemma unused_bounds: "\<forall>B \<in> set us. int (card B) \<le> MAXOPBLOCKS \<Longrightarrow> 0 \<le> unused us \<and> unused us \<le> int (length us) * MAXOPBLOCKS"
  by (induction us) (auto simp: unused_def algebra_simps)

lemma unused_split: "i < length us \<Longrightarrow> unused us = unused (take i us @ drop (Suc i) us) + (MAXOPBLOCKS - int (card (us ! i)))"
  by (subst id_take_nth_drop [of i us]) (auto simp: unused_def)

lemma unused_update: "i < length us \<Longrightarrow> unused (us[i := B]) = unused us + int (card (us ! i)) - int (card B)"
  by (simp add: unused_split [of i us] unused_split [of i "us[i := B]"])

lemma log_write_view:
  assumes "log_write b s = Ok () t" "0 \<le> lh_n s" "int (length (lh_block s)) = LOGSIZE"
  defines "bn \<equiv> b_blockno (bufs s ! b)"
  shows "log_outstanding t = log_outstanding s" "length (lh_block t) = length (lh_block s)"
    "lh_n t = (if bn \<in> set (txn s) then lh_n s else lh_n s + 1)" "set (txn t) = insert bn (set (txn s))"
proof -
  let ?n = "nat (lh_n s)"
  define i where "i = log_index (lh_block s) ?n bn"
  have g: "lh_n s < LOGSIZE" "t = log_write_done b s" using assms(1) by (auto simp: log_write_cases split: if_splits)
  then have n: "?n < length (lh_block s)" using assms(2,3) by simp
  have f: "lh_block t = (lh_block s)[i := bn]" "lh_n t = (if int i = lh_n s then lh_n s + 1 else lh_n s)" "log_outstanding t = log_outstanding s"
    by (simp_all add: g(2) log_write_done_def Let_def i_def bn_def acq_def rel_def)
  show "log_outstanding t = log_outstanding s" "length (lh_block t) = length (lh_block s)" by (simp_all add: f)
  have i: "bn \<in> set (txn s) \<Longrightarrow> i < ?n" "bn \<notin> set (txn s) \<Longrightarrow> i = ?n"
    using log_index_cases [of ?n "lh_block s" bn] n by (auto simp: i_def txn_def)
  then show "lh_n t = (if bn \<in> set (txn s) then lh_n s else lh_n s + 1)" using f(2) assms(2) by auto
  have "nat (lh_n t) = (if i = ?n then Suc ?n else ?n)" using f(2) assms(2) by (auto simp: Suc_nat_eq_nat_zadd1 add.commute split: if_splits)
  from log_index_txn [OF n i_def this] show "set (txn t) = insert bn (set (txn s))" by (auto simp: txn_def f(1))
qed

lemma res_inv_reserved: "reserved s us \<Longrightarrow> res_inv s us"
proof (induction rule: reserved.induct)
  case (start s sz bl)
  then show ?case by (simp add: res_inv_def unused_def log_view_def)
next
  case (admit s us t)
  obtain sz out c n bl where v: "log_view s = (sz, out, c, n, bl)" by (cases "log_view s") auto
  have "n + (out + 1) * MAXOPBLOCKS \<le> LOGSIZE" "log_view t = (sz, out + 1, c, n, bl)"
    using wlpD [OF begin_op_view [OF v] admit.hyps(2)] by simp_all
  then show ?case using admit.IH v unused_bounds [of us]
    by (auto simp: res_inv_def log_view_def txn_def unused_def algebra_simps MAXOPBLOCKS_def)
next
  case (logs s us i b t)
  note w = log_write_view [OF logs.hyps(4)]
  have r: "0 \<le> lh_n s" "int (length (lh_block s)) = LOGSIZE" "\<forall>B \<in> set us. finite B \<and> int (card B) \<le> MAXOPBLOCKS \<and> B \<subseteq> set (txn s)"
    "lh_n s + unused us \<le> LOGSIZE" "log_outstanding s = int (length us)" using logs.IH by (simp_all add: res_inv_def)
  let ?bn = "b_blockno (bufs s ! b)"
  have B: "finite (us ! i)" "us ! i \<subseteq> set (txn s)" using r(3) logs.hyps(2) by auto
  have "int (card (insert ?bn (us ! i))) \<le> MAXOPBLOCKS" using B(1) logs.hyps(3) by (simp add: card_insert_if)
  moreover have "lh_n t + unused (us[i := insert ?bn (us ! i)]) \<le> LOGSIZE"
    using w(3) [OF r(1,2)] r(4) B logs.hyps(2) by (auto simp: unused_update card_insert_if)
  ultimately show ?case
    using w [OF r(1,2)] r(1,2,3,5) B by (auto simp: res_inv_def dest!: set_update_subset_insert [THEN subsetD])
next
  case (finish s us i t)
  obtain sz out c n bl where v: "log_view s = (sz, out, c, n, bl)" by (cases "log_view s") auto
  have t: "log_view t = (sz, out - 1, False, if out = 1 \<and> 0 < n then 0 else n, bl)"
    using wlpD [OF end_op_view [OF v] finish.hyps(3)] by simp
  define us' where "us' = take i us @ drop (Suc i) us"
  have sub: "set us' \<subseteq> set us" unfolding us'_def by (auto dest: in_set_takeD in_set_dropD)
  have len: "int (length us) = int (length us') + 1" using finish.hyps(2) by (simp add: us'_def)
  have r: "out = int (length us)" "0 \<le> n" "int (length bl) = LOGSIZE" "n + unused us \<le> LOGSIZE"
    "\<forall>B \<in> set us. finite B \<and> int (card B) \<le> MAXOPBLOCKS \<and> B \<subseteq> set (take (nat n) bl)"
    using finish.IH v by (auto simp: res_inv_def log_view_def txn_def)
  have un: "unused us' \<le> unused us" using unused_split [OF finish.hyps(2)] r(5) finish.hyps(2) by (simp add: us'_def)
  have tv: "log_outstanding t = int (length us')" "lh_block t = bl" "lh_n t = (if out = 1 \<and> 0 < n then 0 else n)"
    using t r(1) len by (simp_all add: log_view_def)
  have "res_inv t us'"
  proof (cases "out = 1")
    case True
    then have "us' = []" using r(1) len by simp
    then show ?thesis using True r(2,3) tv by (simp add: res_inv_def unused_def LOGSIZE_def MAXOPBLOCKS_def)
  next
    case False
    then show ?thesis using r(2-5) tv sub un unfolding res_inv_def txn_def by auto
  qed
  then show ?case by (simp add: us'_def)
next
  case (other s us t)
  then show ?case by (simp add: res_inv_def log_view_def txn_def)
qed



text \<open>
  With the log that \<^verbatim>\<open>mkfs\<close> makes, of \<^verbatim>\<open>LOGSIZE\<close> blocks with the header among them, \<^verbatim>\<open>begin_op\<close> still counts on \<^verbatim>\<open>LOGSIZE\<close> blocks:
  the last reserved block makes \<^verbatim>\<open>log_write\<close> panic.
\<close>

lemma log_short: "log_size s = LOGSIZE \<Longrightarrow> lh_n s = LOGSIZE - 1 \<Longrightarrow> log_write b s = Panic ''too big a transaction''"
  by (simp add: log_write_cases)

end
