(* ===== verification/Sched.thy ===== *)
theory Sched
  imports Process
begin

text \<open>
  What the scheduler and the protocol between \<^verbatim>\<open>exit\<close> and \<^verbatim>\<open>wait\<close> promise (\<^verbatim>\<open>proc.c\<close>): a process that is woken runs in the next pass over the
  table, and a parent that sleeps in \<^verbatim>\<open>wait\<close> never has a child that has already exited.
\<close>

lemma kbind_kget: "kbind (kget f) g s = g (f s) s"
  by (simp add: kbind_def kget_def)

section \<open>One pass of the scheduler\<close>

definition runnable :: "'r proc_state_scheme \<Rightarrow> nat \<Rightarrow> bool" where
  "runnable s q \<longleftrightarrow> q < NPROC \<and> p_state (ptable s ! q) = RUNNABLE"

definition has_stack :: "proc \<Rightarrow> bool" where
  "has_stack q \<longleftrightarrow> p_kstack q \<noteq> 0 \<and> p_pgdir q \<noteq> 0"

text \<open>The state in which a process hands the processor back: it holds \<^verbatim>\<open>ptable.lock\<close>, and only that.\<close>

definition sched_ok :: "'r proc_state_scheme \<Rightarrow> bool" where
  "sched_ok s \<longleftrightarrow> \<not> int_on s \<and> ncli s = 1 \<and> held s = {LPtable} \<and> length (ptable s) = NPROC
     \<and> (\<forall>q. runnable s q \<longrightarrow> has_stack (ptable s ! q))"

text \<open>
  What the scheduler relies on when it switches to a process: the process comes back, by the timer at the latest, in the state that \<^verbatim>\<open>sched\<close>
  checks, and it may wake others but cannot take the processor from those that are runnable. The trace, a part of the rest of
  the state, records the processes that ran.
\<close>

definition comes_back :: "('r \<Rightarrow> nat list) \<Rightarrow> (nat \<Rightarrow> ('r proc_state_scheme, unit) K) \<Rightarrow> bool" where
  "comes_back trace run \<longleftrightarrow>
     (\<forall>p s. p < NPROC \<and> sched_ok s \<and> cur s = Some p \<and> p_state (ptable s ! p) = RUNNING \<and> has_stack (ptable s ! p) \<longrightarrow>
       wp (run p) (\<lambda>_ t. sched_ok t \<and> trace (proc_state.more t) = trace (proc_state.more s) @ [p]
         \<and> (\<forall>q. runnable s q \<longrightarrow> runnable t q)) s)"

lemma switchuvm_eq:
  assumes "has_stack (ptable s ! p)" "0 < ncli s" "\<not> int_on s"
  shows "switchuvm (Some p) s = Ok () (s\<lparr>ts_esp0 := p_kstack (ptable s ! p) + KSTACKSIZE, cr3 := V2P (p_pgdir (ptable s ! p))\<rparr>)"
  using assms by (simp add: switchuvm_def get_proc_def pushcli_def popcli_def k_defs has_stack_def)

definition passed :: "('r \<Rightarrow> nat list) \<Rightarrow> 'r proc_state_scheme \<Rightarrow> nat \<Rightarrow> 'r proc_state_scheme \<Rightarrow> bool" where
  "passed trace s k t \<longleftrightarrow> sched_ok t \<and> (\<forall>q. runnable s q \<longrightarrow> k \<le> q \<longrightarrow> runnable t q)
     \<and> (\<exists>xs. trace (proc_state.more t) = trace (proc_state.more s) @ xs \<and> sorted xs \<and> distinct xs \<and> set xs \<subseteq> {..< k}
           \<and> (\<forall>q. runnable s q \<longrightarrow> q < k \<longrightarrow> q \<in> set xs))"

lemma passed_skip:
  assumes "passed trace s k t" "\<not> runnable t k"
  shows "passed trace s (Suc k) t"
proof -
  obtain xs where "trace (proc_state.more t) = trace (proc_state.more s) @ xs" "sorted xs" "distinct xs" "set xs \<subseteq> {..< k}"
    "\<forall>q. runnable s q \<longrightarrow> q < k \<longrightarrow> q \<in> set xs" using assms(1) by (auto simp: passed_def)
  moreover have "\<not> runnable s k" using assms by (auto simp: passed_def)
  ultimately show ?thesis using assms(1) unfolding passed_def
    by (intro conjI exI [of _ xs]) (auto simp: less_Suc_eq)
qed

lemma passed_run:
  assumes "passed trace s k t" "sched_ok u" "trace (proc_state.more u) = trace (proc_state.more t) @ [k]"
    "\<forall>q. runnable t q \<longrightarrow> q \<noteq> k \<longrightarrow> runnable u q"
  shows "passed trace s (Suc k) u"
proof -
  obtain xs where "trace (proc_state.more t) = trace (proc_state.more s) @ xs" "sorted xs" "distinct xs" "set xs \<subseteq> {..< k}"
    "\<forall>q. runnable s q \<longrightarrow> q < k \<longrightarrow> q \<in> set xs" using assms(1) by (auto simp: passed_def)
  then show ?thesis using assms unfolding passed_def
    by (intro conjI exI [of _ "xs @ [k]"]) (auto simp: less_Suc_eq sorted_append)
qed

lemma sched_turn_ok:
  assumes "comes_back trace run" "k < NPROC" "passed trace s k t"
  shows "wp (sched_turn run k) (\<lambda>_. passed trace s (Suc k)) t"
proof (cases "runnable t k")
  case False
  then show ?thesis using passed_skip [OF assms(3)] assms(2) by (simp add: sched_turn_def wp_simps runnable_def)
next
  case True
  define u where "u = t\<lparr>cur := Some k, ts_esp0 := p_kstack (ptable t ! k) + KSTACKSIZE, cr3 := V2P (p_pgdir (ptable t ! k)),
    ptable := (ptable t)[k := (ptable t ! k)\<lparr>p_state := RUNNING\<rparr>]\<rparr>"
  have ok: "sched_ok t" using assms(3) by (simp add: passed_def)
  then have st: "has_stack (ptable t ! k)" "ncli t = 1" "\<not> int_on t" "length (ptable t) = NPROC" using True by (auto simp: sched_ok_def)
  have r: "runnable u q \<longleftrightarrow> runnable t q \<and> q \<noteq> k" for q using assms(2) st(4) by (cases "q = k") (auto simp: runnable_def u_def)
  have uc: "cur u = Some k" "p_state (ptable u ! k) = RUNNING" "has_stack (ptable u ! k)"
    using assms(2) st(1,4) by (simp_all add: u_def has_stack_def)
  have okk: "sched_ok u" using ok assms(2) unfolding sched_ok_def r by (auto simp: u_def)
  have up: "switchuvm (Some k) (t\<lparr>cur := Some k\<rparr>) =
    Ok () (t\<lparr>cur := Some k, ts_esp0 := p_kstack (ptable t ! k) + KSTACKSIZE, cr3 := V2P (p_pgdir (ptable t ! k))\<rparr>)"
    using st by (simp add: switchuvm_eq)
  have "wp (run k) (\<lambda>_ v. sched_ok v \<and> trace (proc_state.more v) = trace (proc_state.more u) @ [k] \<and> (\<forall>q. runnable u q \<longrightarrow> runnable v q)) u"
    using assms(1,2) okk uc unfolding comes_back_def by blast
  then obtain v where v: "run k u = Ok () v" "sched_ok v" "trace (proc_state.more v) = trace (proc_state.more t) @ [k]"
    "\<forall>q. runnable u q \<longrightarrow> runnable v q" by (auto simp: wp_iff_Ok u_def)
  let ?w = "v\<lparr>cr3 := V2P (kpgdir v), cur := None\<rparr>"
  have e: "sched_turn run k t = Ok () ?w" using True up v(1)
    by (simp add: sched_turn_def runnable_def get_proc_def kbind_def kget_def kmod_def upd_proc_def u_def switchkvm_def)
  have "passed trace s (Suc k) ?w" 
    by (rule passed_run [OF assms(3)]) (use v(2-4) r in \<open>auto simp: sched_ok_def runnable_def\<close>)
  then show ?thesis by (simp add: wp_def e)
qed

lemma scheduler_pass_ok:
  assumes "comes_back trace run" "held s = {}" "ncli s = 0" "length (ptable s) = NPROC" "\<forall>q. runnable s q \<longrightarrow> has_stack (ptable s ! q)"
  shows "\<exists>t xs. scheduler_pass run s = Ok () t \<and> trace (proc_state.more t) = trace (proc_state.more s) @ xs \<and> sorted xs \<and> distinct xs
    \<and> set xs \<subseteq> {..< NPROC} \<and> (\<forall>q. runnable s q \<longrightarrow> q \<in> set xs) \<and> held t = {} \<and> ncli t = 0"
proof -
  let ?s = "acq LPtable (s\<lparr>int_on := True\<rparr>)"
  have "passed trace ?s 0 ?s" using assms(2-5) by (simp add: passed_def sched_ok_def runnable_def acq_def)
  then have "wp (kfor [0 ..< NPROC] (sched_turn run)) (\<lambda>_. passed trace ?s (length [0 ..< NPROC])) ?s"
    by (rule wp_kfor_inv) (simp add: sched_turn_ok [OF assms(1)])
  then obtain u where u: "kfor [0 ..< NPROC] (sched_turn run) ?s = Ok () u" "passed trace ?s NPROC u" by (auto simp: wp_iff_Ok)
  then have "scheduler_pass run s = Ok () (rel LPtable u)" using assms(2)
    by (auto simp: scheduler_pass_def kbind_def kmod_def acquire_eq release_eq passed_def sched_ok_def)
  with u(2) show ?thesis by (auto simp: passed_def sched_ok_def runnable_def acq_def rel_def)
qed

section \<open>Liveness\<close>

lemma wake_all_nth: "i < NPROC \<Longrightarrow> i < length ps \<Longrightarrow> wake_all ch ps ! i = wake ch (ps ! i)"
  by (simp add: wake_all_def nth_append)

text \<open>
  C34. A process that sleeps on a channel, and every process that is runnable already, runs in the pass of the scheduler that follows a
  \<^verbatim>\<open>wakeup\<close> of the channel. The pass ends, runs the processes in the order of the table, none of them twice, and gives the lock back; this rests
  on each process it switches to handing the processor back.
\<close>

theorem wakeup_runs:
  assumes "comes_back trace run" "held s = {}" "ncli s = 0" "length (ptable s) = NPROC"
    "\<forall>q < NPROC. p_state (ptable s ! q) = RUNNABLE \<or> p_state (ptable s ! q) = SLEEPING \<longrightarrow> has_stack (ptable s ! q)"
  shows "\<exists>t xs. kbind (wakeup ch) (\<lambda>_. scheduler_pass run) s = Ok () t
    \<and> trace (proc_state.more t) = trace (proc_state.more s) @ xs \<and> sorted xs \<and> distinct xs \<and> set xs \<subseteq> {..< NPROC} \<and> held t = {} \<and> ncli t = 0
    \<and> (\<forall>q < NPROC. p_state (ptable s ! q) = RUNNABLE \<or> p_state (ptable s ! q) = SLEEPING \<and> p_chan (ptable s ! q) = Some ch \<longrightarrow> q \<in> set xs)"
proof -
  have w: "wakeup ch s = Ok () (wakes ch s)" using assms(2) by (simp add: wakeup_eq)
  have r: "runnable (wakes ch s) q \<longleftrightarrow> q < NPROC \<and> (p_state (ptable s ! q) = RUNNABLE \<or> p_state (ptable s ! q) = SLEEPING \<and> p_chan (ptable s ! q) = Some ch)"
    for q using assms(4) by (auto simp: runnable_def wake_all_nth wake_def split: if_splits)
  have "\<forall>q. runnable (wakes ch s) q \<longrightarrow> has_stack (ptable (wakes ch s) ! q)"
    using assms(4,5) unfolding r by (auto simp: wake_all_nth wake_def has_stack_def)
  then show ?thesis using scheduler_pass_ok [OF assms(1), of "wakes ch s"] assms(2-4) by (fastforce simp: kbind_def w r)
qed

definition ex_sched :: "nat list proc_state_scheme" where
  "ex_sched = \<lparr>ncli = 0, intena = False, int_on = False, held = {}, mem = (\<lambda>_. 0), kend = 0, freelist = 0, use_lock = True,
     kdata = 0, kpgdir = 0, cr3 = 0,
     ptable = replicate NPROC (ex_proc\<lparr>p_kstack := 4096, p_pgdir := 8192, p_state := SLEEPING, p_chan := Some ChanTicks\<rparr>),
     initproc = Some 0, nextpid = 1, cur = None, ts_esp0 = 0, sym_forkret = 0, sym_trapret = 0, ticks = 0, \<dots> = []\<rparr>"

text \<open>A process that runs until the timer makes it yield.\<close>

definition ex_slice :: "nat \<Rightarrow> (nat list proc_state_scheme, unit) K" where
  "ex_slice p = kbind (upd_proc p (\<lambda>q. q\<lparr>p_state := RUNNABLE\<rparr>)) (\<lambda>_. kmod (proc_state.more_update (\<lambda>tr. tr @ [p])))"

lemma ex_slice_back: "comes_back (\<lambda>r. r) ex_slice"
proof -
  have "wp (ex_slice p) (\<lambda>_ t. sched_ok t \<and> proc_state.more t = proc_state.more s @ [p] \<and> (\<forall>q. runnable s q \<longrightarrow> runnable t q)) s"
    if "p < NPROC" "sched_ok s" "has_stack (ptable s ! p)" for p s
  proof -
    let ?t = "proc_state.more_update (\<lambda>tr. tr @ [p]) (s\<lparr>ptable := (ptable s)[p := (ptable s ! p)\<lparr>p_state := RUNNABLE\<rparr>]\<rparr>)"
    have "runnable ?t q \<longleftrightarrow> runnable s q \<or> q = p" for q using that by (cases "q = p") (auto simp: runnable_def sched_ok_def)
    then show ?thesis using that
      by (auto simp: ex_slice_def wp_def kbind_def upd_proc_def kmod_def sched_ok_def nth_list_update has_stack_def)
  qed
  then show ?thesis by (auto simp: comes_back_def)
qed

theorem wakeup_runs_witness:
  "\<exists>t xs. kbind (wakeup ChanTicks) (\<lambda>_. scheduler_pass ex_slice) ex_sched = Ok () t \<and> proc_state.more t = xs \<and> sorted xs \<and> 5 \<in> set xs"
  using wakeup_runs [OF ex_slice_back, of ex_sched ChanTicks] by (fastforce simp: ex_sched_def NPROC_def has_stack_def)

section \<open>Exit and wait\<close>

text \<open>A process that sleeps in \<^verbatim>\<open>wait\<close>.\<close>

definition in_wait :: "proc list \<Rightarrow> nat \<Rightarrow> bool" where
  "in_wait ps q \<longleftrightarrow> p_state (ps ! q) = SLEEPING \<and> p_chan (ps ! q) = Some (ChanProc q)"

definition children_seen :: "proc list \<Rightarrow> bool" where
  "children_seen ps \<longleftrightarrow> length ps = NPROC
     \<and> (\<forall>q < NPROC. \<forall>i < NPROC. in_wait ps q \<and> p_parent (ps ! i) = Some q \<longrightarrow> p_state (ps ! i) \<noteq> ZOMBIE)"

text \<open>The table after \<open>k\<close> rounds of the loop that hands the children of \<open>p\<close> to \<^verbatim>\<open>init\<close>: processes may have been woken.\<close>

definition woken :: "proc \<Rightarrow> proc \<Rightarrow> bool" where
  "woken a b \<longleftrightarrow> p_chan b = p_chan a \<and> (p_state b = p_state a \<or> p_state a = SLEEPING \<and> p_state b = RUNNABLE)"

definition reparented :: "nat \<Rightarrow> nat \<Rightarrow> proc list \<Rightarrow> nat \<Rightarrow> proc list \<Rightarrow> bool" where
  "reparented p init ps k qs \<longleftrightarrow> length ps = NPROC \<and> length qs = NPROC
     \<and> (\<forall>i < NPROC. woken (ps ! i) (qs ! i)
          \<and> p_parent (qs ! i) = (if i < k \<and> p_parent (ps ! i) = Some p then Some init else p_parent (ps ! i)))
     \<and> (\<forall>i < k. p_parent (ps ! i) = Some p \<and> p_state (ps ! i) = ZOMBIE \<longrightarrow> none_wait (ChanProc init) qs)"

lemma woken_wake: "woken a b \<Longrightarrow> woken a (wake ch b)"
  by (auto simp: woken_def wake_def)

lemma wake_parent [simp]: "p_parent (wake ch q) = p_parent q" "p_state (wake ch q) = ZOMBIE \<longleftrightarrow> p_state q = ZOMBIE"
  by (auto simp: wake_def)

lemma none_wait_mono:
  assumes "none_wait ch ps" "length ps = length qs" "\<forall>i < NPROC. woken (ps ! i) (qs ! i)"
  shows "none_wait ch qs"
  using assms by (fastforce simp: none_wait_def woken_def)

lemma reparented_step:
  assumes "reparented p init ps k qs" "k < NPROC" "p_parent (qs ! k) = Some p"
  shows "reparented p init ps (Suc k) (let rs = qs[k := (qs ! k)\<lparr>p_parent := Some init\<rparr>] in
    if p_state (qs ! k) = ZOMBIE then wake_all (ChanProc init) rs else rs)"
proof -
  define rs where "rs = qs[k := (qs ! k)\<lparr>p_parent := Some init\<rparr>]"
  have q: "length ps = NPROC" "length qs = NPROC" "\<forall>i < NPROC. woken (ps ! i) (qs ! i)"
    "\<forall>i < NPROC. p_parent (qs ! i) = (if i < k \<and> p_parent (ps ! i) = Some p then Some init else p_parent (ps ! i))"
    "\<forall>i < k. p_parent (ps ! i) = Some p \<and> p_state (ps ! i) = ZOMBIE \<longrightarrow> none_wait (ChanProc init) qs"
    using assms(1) by (simp_all add: reparented_def)
  have pk: "p_parent (ps ! k) = Some p" using q(4) assms(2,3) by auto
  have l: "length rs = NPROC" by (simp add: rs_def q(2))
  have rn: "rs ! i = (if i = k then (qs ! k)\<lparr>p_parent := Some init\<rparr> else qs ! i)" for i using q(2) assms(2) by (simp add: rs_def nth_list_update)
  have w: "\<forall>i < NPROC. woken (ps ! i) (rs ! i)" using q(3) by (auto simp: rn woken_def)
  have qr: "\<forall>i < NPROC. woken (qs ! i) (rs ! i)" by (auto simp: rn woken_def)
  have par: "\<forall>i < NPROC. p_parent (rs ! i) = (if i < Suc k \<and> p_parent (ps ! i) = Some p then Some init else p_parent (ps ! i))"
    using q(4) pk by (auto simp: rn less_Suc_eq)
  have z: "p_state (ps ! k) = ZOMBIE \<longleftrightarrow> p_state (qs ! k) = ZOMBIE" using q(3) assms(2) by (auto simp: woken_def)
  have nr: "\<forall>i < k. p_parent (ps ! i) = Some p \<and> p_state (ps ! i) = ZOMBIE \<longrightarrow> none_wait (ChanProc init) rs"
    using q(5) none_wait_mono [of _ qs rs] qr q(2) l by auto
  show ?thesis
  proof (cases "p_state (qs ! k) = ZOMBIE")
    case True
    have "reparented p init ps (Suc k) (wake_all (ChanProc init) rs)" unfolding reparented_def
      using q(1) l w par by (auto simp: wake_all_nth woken_wake)
    with True show ?thesis by (simp add: rs_def)
  next
    case False
    have "reparented p init ps (Suc k) rs" unfolding reparented_def
      using q(1) l w par nr z False by (auto simp: less_Suc_eq)
    with False show ?thesis by (simp add: rs_def)
  qed
qed

lemma reparented_skip:
  assumes "reparented p init ps k qs" "k < NPROC" "p_parent (qs ! k) \<noteq> Some p"
  shows "reparented p init ps (Suc k) qs"
  using assms by (auto simp: reparented_def less_Suc_eq)

lemma exit_reparent_ok:
  assumes "initproc s = Some init" "length (ptable s) = NPROC"
  shows "\<exists>qs. exit_reparent p s = Ok () (s\<lparr>ptable := qs\<rparr>) \<and> reparented p init (ptable s) NPROC qs"
proof -
  let ?I = "\<lambda>k t. \<exists>qs. t = s\<lparr>ptable := qs\<rparr> \<and> reparented p init (ptable s) k qs"
  let ?body = "\<lambda>i. kbind (get_proc i (\<lambda>q. q)) (\<lambda>q.
       if p_parent q = Some p then
         kbind (upd_proc i (\<lambda>q. q\<lparr>p_parent := Some init\<rparr>)) (\<lambda>_.
         if p_state q = ZOMBIE then wakeup1 (ChanProc init) else kreturn ())
       else kreturn ())"
  have step: "wp (?body ([0 ..< NPROC] ! k)) (\<lambda>_. ?I (Suc k)) t" if kt: "k < length [0 ..< NPROC]" "?I k t" for k and t :: "'a proc_state_scheme"
  proof -
    obtain qs where qs: "t = s\<lparr>ptable := qs\<rparr>" "reparented p init (ptable s) k qs" "k < NPROC" using kt by auto
    let ?rs = "qs[k := (qs ! k)\<lparr>p_parent := Some init\<rparr>]"
    have "?body k t = Ok () (s\<lparr>ptable := (if p_parent (qs ! k) = Some p then
        (if p_state (qs ! k) = ZOMBIE then wake_all (ChanProc init) ?rs else ?rs) else qs)\<rparr>)"
      by (simp add: get_proc_def kbind_def kget_def upd_proc_def kmod_def wakeup1_eq kreturn_def qs(1))
    moreover have kk: "[0 ..< NPROC] ! k = k" using qs(3) by simp
    ultimately show ?thesis unfolding kk using reparented_step [OF qs(2,3)] reparented_skip [OF qs(2,3)] by (auto simp: wp_def Let_def)
  qed
  have "?I 0 s" using assms(2) by (intro exI [of _ "ptable s"]) (simp add: reparented_def woken_def)
  then have "wp (kfor [0 ..< NPROC] ?body) (\<lambda>_. ?I (length [0 ..< NPROC])) s" by (rule wp_kfor_inv) (use step in blast)
  moreover have "exit_reparent p s = kfor [0 ..< NPROC] ?body s" by (simp only: exit_reparent_def kbind_kget assms(1) option.sel)
  ultimately show ?thesis by (auto simp: wp_iff_Ok)
qed

text \<open>What \<^verbatim>\<open>exit\<close> has established when it takes \<^verbatim>\<open>ptable.lock\<close>.\<close>

definition at_exit :: "nat \<Rightarrow> 'r proc_state_scheme \<Rightarrow> bool" where
  "at_exit p s \<longleftrightarrow> cur s = Some p \<and> p < NPROC \<and> p_state (ptable s ! p) = RUNNING \<and> held s = {LPtable} \<and> ncli s = 1 \<and> \<not> int_on s
     \<and> (\<exists>init. initproc s = Some init \<and> init \<noteq> p) \<and> (\<exists>par. p_parent (ptable s ! p) = Some par \<and> par \<noteq> p)"

definition left :: "nat \<Rightarrow> 'r proc_state_scheme \<Rightarrow> 'r proc_state_scheme \<Rightarrow> bool" where
  "left p s t \<longleftrightarrow> p_state (ptable t ! p) = ZOMBIE \<and> p_parent (ptable t ! p) = p_parent (ptable s ! p)
     \<and> none_wait (ChanProc (the (p_parent (ptable s ! p)))) (ptable t)
     \<and> (\<forall>i < NPROC. p_parent (ptable t ! i) \<noteq> Some p)"

lemma exit_tail_ok:
  fixes s :: "'r proc_state_scheme"
  assumes "at_exit p s" "children_seen (ptable s)"
  shows "\<exists>t. (exit_tail p :: ('r proc_state_scheme, unit) K) s = Block t \<and> children_seen (ptable t) \<and> left p s t"
proof -
  obtain init par where e: "cur s = Some p" "p < NPROC" "p_state (ptable s ! p) = RUNNING" "held s = {LPtable}" "ncli s = 1" "\<not> int_on s"
    "initproc s = Some init" "init \<noteq> p" "p_parent (ptable s ! p) = Some par" "par \<noteq> p" using assms(1) by (auto simp: at_exit_def)
  define ws where "ws = wake_all (ChanProc par) (ptable s)"
  have l: "length ws = NPROC" "\<forall>i < NPROC. ws ! i = wake (ChanProc par) (ptable s ! i)"
    using assms(2) by (simp_all add: ws_def children_seen_def wake_all_nth)
  obtain qs where qs: "exit_reparent p (s\<lparr>ptable := ws\<rparr>) = Ok () (s\<lparr>ptable := qs\<rparr>)" "reparented p init ws NPROC qs"
    using exit_reparent_ok [of "s\<lparr>ptable := ws\<rparr>" init p] e(7) l(1) by auto
  define us where "us = qs[p := (qs ! p)\<lparr>p_state := ZOMBIE\<rparr>]"
  have un: "us ! i = (if i = p then (qs ! p)\<lparr>p_state := ZOMBIE\<rparr> else qs ! i)" for i
    using qs(2) e(2) by (simp add: us_def nth_list_update reparented_def)
  have t: "(exit_tail p :: ('r proc_state_scheme, unit) K) s = Block (s\<lparr>ptable := us\<rparr>)" using qs(1) e
    by (simp add: exit_tail_def kbind_def get_proc_def kget_def wakeup1_eq ws_def [symmetric] upd_proc_def kmod_def us_def [symmetric]
      sched_def myproc_eq holding_eq k_defs un) (cases s, simp add: cli_touch_def)
  have q: "length qs = NPROC" "\<forall>i < NPROC. woken (ws ! i) (qs ! i)"
    "\<forall>i < NPROC. p_parent (qs ! i) = (if p_parent (ptable s ! i) = Some p then Some init else p_parent (ptable s ! i))"
    "\<forall>i < NPROC. p_parent (ptable s ! i) = Some p \<and> p_state (ptable s ! i) = ZOMBIE \<longrightarrow> none_wait (ChanProc init) qs"
    using qs(2) l(2) by (auto simp: reparented_def)
  have "none_wait (ChanProc par) qs" using none_wait_mono [OF _ _ q(2)] q(1) l(1) by (simp add: ws_def)
  then have nw: "\<not> in_wait us par" if "par < NPROC" using that q(1) e(10) by (auto simp: in_wait_def un none_wait_def)
  have was: "in_wait (ptable s) i \<and> i \<noteq> p" if "in_wait us i" "i < NPROC" for i
    using that q(2) l(2) by (fastforce simp: in_wait_def un woken_def wake_def split: if_splits)
  have z: "p_state (ptable s ! i) = ZOMBIE" if "p_state (qs ! i) = ZOMBIE" "i < NPROC" for i
    using that q(2) l(2) by (fastforce simp: woken_def wake_def split: if_splits)
  have "False" if "in_wait us a" "p_parent (us ! i) = Some a" "p_state (us ! i) = ZOMBIE" "a < NPROC" "i < NPROC" for a i
  proof (cases "i = p")
    case True
    then have "a = par" using that(2) q(3) e(2,9,10) by (auto simp: un)
    with nw that(1,4) show False by simp
  next
    case False
    then have i: "p_state (ptable s ! i) = ZOMBIE" using z that(3,5) by (simp add: un)
    show False
    proof (cases "p_parent (ptable s ! i) = Some p")
      case True
      then have "a = init" "none_wait (ChanProc init) qs" using that(2,5) q(3,4) False i by (auto simp: un)
      then show False using that(1,4) q(1) e(8) by (auto simp: in_wait_def un none_wait_def)
    next
      case nop: False
      then have "p_parent (ptable s ! i) = Some a" using that(2,5) q(3) False by (auto simp: un)
      then show False using assms(2) was [OF that(1,4)] i that(4,5) by (auto simp: children_seen_def)
    qed
  qed
  then have "children_seen us" using q(1) by (auto simp: children_seen_def us_def)
  moreover have "left p s (s\<lparr>ptable := us\<rparr>)" 
    using e(2,8,9,10) q(1,3) \<open>none_wait (ChanProc par) qs\<close> by (auto simp: left_def un none_wait_def us_def nth_list_update)
  ultimately show ?thesis using t by auto
qed


text \<open>Operations that neither sleep nor touch the process table: those on memory.\<close>

definition keeps_ptable :: "('r proc_state_scheme, 'a) K \<Rightarrow> bool" where
  "keeps_ptable m \<longleftrightarrow> (\<forall>s. case m s of Ok a t \<Rightarrow> ptable t = ptable s | Panic e \<Rightarrow> True | Block t \<Rightarrow> False)"

named_theorems keeps_ptable_intro

lemma keeps_ptable_kbind [keeps_ptable_intro]: "keeps_ptable m \<Longrightarrow> (\<And>a. keeps_ptable (f a)) \<Longrightarrow> keeps_ptable (kbind m f)"
  by (fastforce simp: keeps_ptable_def kbind_def split: outcome.splits)

lemma keeps_ptable_basic [keeps_ptable_intro]:
  "keeps_ptable (kreturn a)" "keeps_ptable (kpanic e)" "keeps_ptable (kget f)" "keeps_ptable (acquire lk)" "keeps_ptable (release lk)"
  by (auto simp: keeps_ptable_def k_defs acquire_eq release_def holding_eq popcli_def split: outcome.splits)

lemma keeps_ptable_kmod: "(\<And>s. ptable (f s) = ptable s) \<Longrightarrow> keeps_ptable (kmod f)"
  by (simp add: keeps_ptable_def kmod_def)

lemma keeps_ptable_if [keeps_ptable_intro]: "keeps_ptable m \<Longrightarrow> keeps_ptable n \<Longrightarrow> keeps_ptable (if c then m else n)"
  by simp

lemma keeps_ptable_kfor [keeps_ptable_intro]: "(\<And>x. keeps_ptable (f x)) \<Longrightarrow> keeps_ptable (kfor xs f)"
  by (induction xs) (auto intro: keeps_ptable_intro)

lemma keeps_ptable_kfree [keeps_ptable_intro]: "keeps_ptable (kfree v)"
  unfolding kfree_def kmem_acquire_def kmem_release_def by (intro keeps_ptable_intro keeps_ptable_kmod) simp_all

lemma keeps_ptable_dealloc [keeps_ptable_intro]: "keeps_ptable (dealloc_loop n pgdir oldsz a)"
proof (induction n arbitrary: a)
  case 0
  then show ?case by (simp add: keeps_ptable_intro)
next
  case (Suc n)
  have st: "keeps_ptable (store pte w)" for pte w unfolding store_def by (rule keeps_ptable_kmod) simp
  have w: "keeps_ptable (walkpgdir pgdir a False)" unfolding walkpgdir_def Let_def by (simp add: keeps_ptable_intro)
  show ?case unfolding dealloc_loop.simps Let_def
    by (intro keeps_ptable_intro w) (simp split: option.split, intro allI conjI impI keeps_ptable_intro st Suc)
qed

lemma keeps_ptable_freevm [keeps_ptable_intro]: "keeps_ptable (freevm pgdir)"
  unfolding freevm_def deallocuvm_def by (intro keeps_ptable_intro)

lemma keeps_ptableD:
  "keeps_ptable m \<Longrightarrow> m s = Ok a t \<Longrightarrow> ptable t = ptable s" "keeps_ptable m \<Longrightarrow> m s \<noteq> Block t"
  by (auto simp: keeps_ptable_def dest!: spec [of _ s])

text \<open>\<^verbatim>\<open>wait\<close> that finds a child that has exited frees its slot and returns its pid.\<close>

definition reaped :: "proc \<Rightarrow> proc" where
  "reaped q = q\<lparr>p_kstack := 0, p_pid := 0, p_parent := None, p_name := [], p_killed := False, p_state := UNUSED\<rparr>"

lemma wait_scan_found:
  assumes "List.find (\<lambda>i. p_parent (ptable s ! i) = Some p \<and> p_state (ptable s ! i) = ZOMBIE) [0 ..< NPROC] = Some i" "i < length (ptable s)"
  shows "wait_scan p s \<noteq> Block t"
    and "wait_scan p s = Ok r t \<Longrightarrow> r = p_pid (ptable s ! i) \<and> ptable t = (ptable s)[i := reaped (ptable s ! i)]"
proof -
  define tl where "tl = kbind (upd_proc i (\<lambda>q. q\<lparr>p_pid := 0, p_parent := None, p_name := [], p_killed := False, p_state := UNUSED\<rparr>)) (\<lambda>_.
         kbind (release LPtable) (\<lambda>_ :: unit. kreturn (p_pid (ptable s ! i)) :: ('a proc_state_scheme, int) K))"
  have w: "wait_scan p s = kbind (kfree (p_kstack (ptable s ! i))) (\<lambda>_. kbind (upd_proc i (\<lambda>q. q\<lparr>p_kstack := 0\<rparr>)) (\<lambda>_.
         kbind (freevm (p_pgdir (ptable s ! i))) (\<lambda>_. tl))) s" using assms(1) by (simp add: wait_scan_def kbind_kget tl_def)
  have rel: "keeps_ptable (kbind (release LPtable) (\<lambda>_ :: unit. kreturn (p_pid (ptable s ! i)) :: ('a proc_state_scheme, int) K))"
    by (intro keeps_ptable_intro)
  have tl: "tl u \<noteq> Block v" for u v using keeps_ptableD(2) [OF rel]
    by (auto simp: tl_def kbind_def upd_proc_def kmod_def split: outcome.splits)
  have tlp: "r = p_pid (ptable s ! i) \<and> ptable v = (ptable u)[i := (ptable u ! i)\<lparr>p_pid := 0, p_parent := None, p_name := [], p_killed := False, p_state := UNUSED\<rparr>]"
    if ok: "tl u = Ok r v" for u v
    using ok unfolding tl_def by (auto simp: kbind_Ok_iff upd_proc_def kmod_def kreturn_def release_Ok_iff)
  show "wait_scan p s \<noteq> Block t"
    using tl unfolding w by (auto simp: kbind_def upd_proc_def kmod_def keeps_ptableD(2) [OF keeps_ptable_kfree]
      keeps_ptableD(2) [OF keeps_ptable_freevm] split: outcome.splits)
  show "r = p_pid (ptable s ! i) \<and> ptable t = (ptable s)[i := reaped (ptable s ! i)]" if ok: "wait_scan p s = Ok r t"
  proof -
    obtain u v where u: "kfree (p_kstack (ptable s ! i)) s = Ok () u" 
      "freevm (p_pgdir (ptable s ! i)) (u\<lparr>ptable := (ptable u)[i := (ptable u ! i)\<lparr>p_kstack := 0\<rparr>]\<rparr>) = Ok () v" "tl v = Ok r t"
      using ok unfolding w by (auto simp: kbind_Ok_iff upd_proc_def kmod_def)
    have "ptable u = ptable s" "ptable v = (ptable u)[i := (ptable u ! i)\<lparr>p_kstack := 0\<rparr>]"
      using keeps_ptableD(1) [OF keeps_ptable_kfree u(1)] keeps_ptableD(1) [OF keeps_ptable_freevm u(2)] by simp_all
    then show ?thesis using tlp [OF u(3)] assms(2) by (simp add: reaped_def)
  qed
qed

text \<open>\<^verbatim>\<open>wait\<close> goes to sleep only after a scan that found a child, and none that has exited.\<close>

lemma wait_blocks:
  fixes s :: "'r proc_state_scheme"
  assumes "running p s" "p < NPROC" "wait s = Block t" "children_seen (ptable s)"
  shows "children_seen (ptable t) \<and> in_wait (ptable t) p"
proof -
  let ?s = "acq LPtable (cli_touch s)"
  have r: "cur s = Some p" "held s = {}" "ncli s = 0" "length (ptable s) = NPROC" using assms(1,4) by (auto simp: running_def children_seen_def)
  have w: "wait s = wait_scan p ?s" using r by (simp add: wait_def kbind_def myproc_eq acquire_eq)
  show ?thesis
  proof (cases "List.find (\<lambda>i. p_parent (ptable s ! i) = Some p \<and> p_state (ptable s ! i) = ZOMBIE) [0 ..< NPROC]")
    case None
    then have no: "\<forall>i < NPROC. p_parent (ptable s ! i) = Some p \<longrightarrow> p_state (ptable s ! i) \<noteq> ZOMBIE" by (auto simp: find_None_iff)
    define us where "us = (ptable s)[p := (ptable s ! p)\<lparr>p_chan := Some (ChanProc p), p_state := SLEEPING\<rparr>]"
    have "ptable t = us" using assms(3) None r assms(2) unfolding w
      by (auto simp: wait_scan_def kbind_def kget_def sleep_def myproc_eq upd_proc_def kmod_def sched_def holding_eq get_proc_def
        release_def k_defs us_def acq_def cli_touch_def pushcli_def popcli_def holding_def split: if_splits outcome.splits)
    moreover have "us ! i = (if i = p then (ptable s ! p)\<lparr>p_chan := Some (ChanProc p), p_state := SLEEPING\<rparr> else ptable s ! i)" for i
      using r(4) assms(2) by (simp add: us_def nth_list_update)
    moreover have "length us = NPROC" using r(4) by (simp add: us_def)
    ultimately show ?thesis using assms(4) no by (auto simp: children_seen_def in_wait_def split: if_splits)
  next
    case (Some i)
    then show ?thesis using assms(3) wait_scan_found(1) [of ?s p i t] r(4) unfolding w by (auto simp: find_Some_iff)
  qed
qed


text \<open>Steps that put no process to sleep in \<^verbatim>\<open>wait\<close>, end none, and leave the parent of an ended one alone.\<close>

definition quiet :: "proc list \<Rightarrow> proc list \<Rightarrow> bool" where
  "quiet ps qs \<longleftrightarrow> length qs = NPROC
     \<and> (\<forall>q < NPROC. (in_wait qs q \<longrightarrow> in_wait ps q)
         \<and> (p_state (qs ! q) = ZOMBIE \<longrightarrow> p_state (ps ! q) = ZOMBIE \<and> p_parent (qs ! q) = p_parent (ps ! q)))"

lemma children_seen_quiet: "children_seen ps \<Longrightarrow> quiet ps qs \<Longrightarrow> children_seen qs"
  by (fastforce simp: children_seen_def quiet_def)

lemma quiet_refl: "length ps = NPROC \<Longrightarrow> quiet ps ps"
  by (simp add: quiet_def)

lemma quiet_update:
  assumes "length ps = NPROC" "p < NPROC" "p_state q \<noteq> ZOMBIE" "p_state q = SLEEPING \<Longrightarrow> p_chan q \<noteq> Some (ChanProc p)"
  shows "quiet ps (ps[p := q])"
  using assms by (auto simp: quiet_def in_wait_def nth_list_update)

lemma quiet_wakeup: "length (ptable s) = NPROC \<Longrightarrow> wakeup ch s = Ok () t \<Longrightarrow> quiet (ptable s) (ptable t)"
  by (cases "LPtable \<in> held s")
    (auto simp: wakeup_eq wakeup_held quiet_def in_wait_def wake_all_nth wake_def split: if_splits)

lemma quiet_sleep:
  assumes "cur s = Some p" "held s = {lk}" "lk \<noteq> LPtable" "ncli s = 1" "p < NPROC" "length (ptable s) = NPROC"
    "sleep ch lk s = Block t" "ch \<noteq> ChanProc p"
  shows "quiet (ptable s) (ptable t)"
proof -
  have "t = asleep p ch s" using assms(1-7) by (simp add: sleep_eq)
  then show ?thesis using assms(5,6,8) quiet_update by (simp add: asleep_def)
qed

lemma quiet_kill:
  assumes "length (ptable s) = NPROC" "kill pid s = Ok r t"
  shows "quiet (ptable s) (ptable t)"
proof (cases "List.find (\<lambda>i. p_pid (ptable s ! i) = pid) [0 ..< NPROC]")
  case None
  then show ?thesis using assms by (auto simp: kill_def kbind_Ok_iff kget_def acquire_eq release_Ok_iff kreturn_def quiet_refl split: if_splits)
next
  case (Some i)
  define q where "q = (let q = (ptable s ! i)\<lparr>p_killed := True\<rparr> in if p_state q = SLEEPING then q\<lparr>p_state := RUNNABLE\<rparr> else q)"
  have i: "i < NPROC" using Some by (auto simp: find_Some_iff)
  have "ptable t = (ptable s)[i := q]" using assms Some i
    by (auto simp: kill_def kbind_Ok_iff kget_def acquire_eq release_Ok_iff kreturn_def upd_proc_def kmod_def q_def Let_def split: if_splits)
  moreover have "quiet (ptable s) ((ptable s)[i := q])" using assms(1) i
    by (auto simp: quiet_def in_wait_def nth_list_update q_def Let_def)
  ultimately show ?thesis by simp
qed

lemma quiet_wait:
  assumes "running p s" "p < NPROC" "length (ptable s) = NPROC" "wait s = Ok r t"
  shows "quiet (ptable s) (ptable t)"
proof -
  let ?s = "acq LPtable (cli_touch s)"
  have w: "wait_scan p ?s = Ok r t" using assms(1,4) by (simp add: wait_def kbind_def myproc_eq acquire_eq running_def)
  show ?thesis
  proof (cases "List.find (\<lambda>i. p_parent (ptable s ! i) = Some p \<and> p_state (ptable s ! i) = ZOMBIE) [0 ..< NPROC]")
    case None
    then show ?thesis using w assms(3)
      by (auto simp: wait_scan_def kbind_Ok_iff kget_def release_Ok_iff kreturn_def sleep_not_Ok quiet_refl split: if_splits)
  next
    case (Some i)
    then have "ptable t = (ptable s)[i := reaped (ptable s ! i)]" "i < NPROC" 
      using wait_scan_found(2) [of ?s p i r t] w assms(3) by (auto simp: find_Some_iff)
    moreover have "quiet (ptable s) ((ptable s)[i := reaped (ptable s ! i)])"
      by (rule quiet_update) (use assms(3) \<open>i < NPROC\<close> in \<open>simp_all add: reaped_def\<close>)
    ultimately show ?thesis by simp
  qed
qed

text \<open>
  The states the table goes through, from boot on, at the points where the process table lock is free or changes hands: processes end, go to
  sleep in \<^verbatim>\<open>wait\<close>, come back from it, and do anything else that is quiet in the sense above, as \<^verbatim>\<open>wakeup\<close>, \<^verbatim>\<open>kill\<close> and \<^verbatim>\<open>sleep\<close> on other channels are.
\<close>

inductive table_reach :: "'r proc_state_scheme \<Rightarrow> bool" where
  boot: "length (ptable s) = NPROC \<Longrightarrow> \<forall>i < NPROC. p_state (ptable s ! i) = UNUSED \<Longrightarrow> table_reach s"
| ends: "table_reach s \<Longrightarrow> at_exit p s \<Longrightarrow> (exit_tail p :: ('r proc_state_scheme, unit) K) s = Block t \<Longrightarrow> table_reach t"
| waits: "table_reach s \<Longrightarrow> running p s \<Longrightarrow> p < NPROC \<Longrightarrow> wait s = Block t \<Longrightarrow> table_reach t"
| returns: "table_reach s \<Longrightarrow> running p s \<Longrightarrow> p < NPROC \<Longrightarrow> wait s = Ok r t \<Longrightarrow> table_reach t"
| other: "table_reach s \<Longrightarrow> quiet (ptable s) (ptable t) \<Longrightarrow> table_reach t"

lemma table_reach_seen: "table_reach s \<Longrightarrow> children_seen (ptable s)"
proof (induction rule: table_reach.induct)
  case (boot s)
  then show ?case by (auto simp: children_seen_def)
next
  case (ends s p t)
  then show ?case using exit_tail_ok [of p s] by auto
next
  case (waits s p t)
  then show ?case using wait_blocks [of p s t] by simp
next
  case (returns s p r t)
  have "length (ptable s) = NPROC" using returns.IH by (simp add: children_seen_def)
  then show ?case using children_seen_quiet [OF returns.IH] quiet_wait [OF returns.hyps(2,3) _ returns.hyps(4)] by simp
next
  case (other s t)
  then show ?case using children_seen_quiet [of "ptable s" "ptable t"] by simp
qed


definition ex_exit :: "nat list proc_state_scheme" where
  "ex_exit = ex_sched\<lparr>held := {LPtable}, ncli := 1, cur := Some 1,
     ptable := [ex_proc\<lparr>p_state := SLEEPING, p_chan := Some ChanTicks\<rparr>, ex_proc\<lparr>p_pid := 2, p_parent := Some 0\<rparr>]
       @ replicate 62 (ex_proc\<lparr>p_state := UNUSED\<rparr>)\<rparr>"

lemma ex_exit_reach: "table_reach ex_exit"
proof (rule table_reach.other)
  show "table_reach (ex_exit\<lparr>ptable := replicate NPROC (ex_proc\<lparr>p_state := UNUSED\<rparr>)\<rparr>)" by (rule table_reach.boot) simp_all
  show "quiet (ptable (ex_exit\<lparr>ptable := replicate NPROC (ex_proc\<lparr>p_state := UNUSED\<rparr>)\<rparr>)) (ptable ex_exit)"
    by (auto simp: quiet_def in_wait_def ex_exit_def ex_sched_def ex_proc_def NPROC_def nth_Cons' split: if_splits)
qed


end
