(* ===== verification/Spec2Isabelle.thy ===== *)
theory Spec2Isabelle
  imports Crash Trap Hw Mp Ide Printf Grep Sh Fileio Umalloc Cron Uvm Reserve Sched
begin

text \<open>
  A verification development for the xv6 kernel and its user programs.
\<close>


text \<open>
  C27. \<^verbatim>\<open>filewrite\<close> cuts a write into chunks of \<^verbatim>\<open>filewrite_max\<close> bytes, each a transaction of its own. On a file without holes
  such a chunk adds at most \<^verbatim>\<open>MAXOPBLOCKS\<close> blocks to the log, the number that \<^verbatim>\<open>begin_op\<close> reserves for a system call.
\<close>

theorem filewrite_chunk_fits:
  fixes s :: "'r fs_state_scheme"
  assumes "file_ready s ip" "off \<le> i_size (icache s ! ip)" "off + length src \<le> MAXFILE * BSIZE" "length src \<le> filewrite_max"
    "no_holes s (icache s ! ip) 0 (i_size (icache s ! ip))" "enough_free s (icache s ! ip) off (length src)" "14 \<le> avail s"
  shows "\<exists>t. writei devsw ip src off s = Ok (int (length src)) t \<and> int (card (set (txn t) - set (txn s))) \<le> MAXOPBLOCKS"
proof -
  have c: "write_cost s (icache s ! ip) off (length src) \<le> 9"
    by (rule write_cost_chunk) (use assms in \<open>simp_all add: BSIZE_def\<close>)
  then obtain t B where t: "writei devsw ip src off s = Ok (int (length src)) t" and w: "written B s ip off src t"
    using writei_ok [OF assms(1-3,6), of devsw] assms(7) by (auto simp: wp_iff_Ok)
  have B: "fsr B s t" "card B \<le> write_cost s (icache s ! ip) off (length src) + 1" using w by (simp_all add: written_def)
  have "card (set (txn t) - set (txn s)) \<le> card B" by (rule card_mono) (use fsrD(7,8) [OF B(1)] in auto)
  then show ?thesis using t B(2) c by (auto simp: MAXOPBLOCKS_def)
qed

theorem filewrite_chunk_fits_witness:
  "\<exists>t. writei ex_devsw 0 (replicate 1400 1) 100 ex_ino_state = Ok 1400 t \<and> int (card (set (txn t) - set (txn ex_ino_state))) \<le> MAXOPBLOCKS"
proof -
  have sz: "(1500::nat) \<le> MAXFILE * BSIZE" "(1500::nat) \<le> 3 * BSIZE" by (simp_all add: MAXFILE_def NINDIRECT_def NDIRECT_def BSIZE_def)
  have "no_holes ex_ino_state ex_file 0 100"
    using ex_fblk [of 0] by (simp add: no_holes_def BSIZE_def MAXFILE_def NINDIRECT_def)
  moreover have "avail ex_ino_state = 28" using ex_txok(2) by (simp add: ex_ino_state_def)
  ultimately show ?thesis
    using filewrite_chunk_fits [OF ex_file_ready _ _ _ _ ex_write(1), of 100 "replicate 1400 1" ex_devsw] sz by simp
qed

end
